(* ===== verification/Prelude.thy ===== *)
theory Prelude
  imports Main "HOL-Library.Word"
begin

text \<open>
  Shared vocabulary of the development: the machine types of the C code, C strings as
  character lists without their terminating NUL, the few libc functions the sources call
  (\<open>snprintf\<close> with \<open>%s\<close> and \<open>%d\<close>, \<open>atoi\<close>, \<open>isspace\<close>, \<open>tolower\<close>), and the generic lemmas on them that the component theories use.
\<close>

unbundle bit_operations_syntax

named_theorems cstr \<open>facts on C strings and their libc functions\<close>
named_theorems inv_intros \<open>preservation of the components' invariants\<close>

section \<open>Machine types\<close>

type_synonym byte = "8 word"
type_synonym u32 = "32 word"

text \<open>
  What can go wrong in C code that has no defined outcome: the model makes each of these
  a value, so that a theorem that a call returns normally says it does not happen.
\<close>

datatype fault =
    NullDeref        \<comment> \<open>a NULL pointer is dereferenced\<close>
  | OutOfBounds      \<comment> \<open>a read or write outside an object\<close>
  | DivByZero        \<comment> \<open>integer division or remainder by zero\<close>
  | Uninitialised    \<comment> \<open>an object that was never written is used\<close>
  | IntOverflow      \<comment> \<open>a signed integer leaves its range\<close>

text \<open>The values of the type \<open>int\<close>.\<close>

definition int_ok :: "int \<Rightarrow> bool" where
  "int_ok i \<longleftrightarrow> - (2 ^ 31) \<le> i \<and> i < 2 ^ 31"

text \<open>A statement that may fault, and what follows it.\<close>

fun after :: "fault + 'a \<Rightarrow> ('a \<Rightarrow> fault + 'b) \<Rightarrow> fault + 'b" where
  "after (Inl f) g = Inl f"
| "after (Inr x) g = g x"

lemma after_Inr [simp]: "after r g = Inr y \<longleftrightarrow> (\<exists>x. r = Inr x \<and> g x = Inr y)"
  by (cases r) auto

lemma after_Inl: "after r g = Inl f \<longleftrightarrow> r = Inl f \<or> (\<exists>x. r = Inr x \<and> g x = Inl f)"
  by (cases r) auto

text \<open>What holds of the result whenever the statement returns.\<close>

definition yields :: "('a \<Rightarrow> bool) \<Rightarrow> fault + 'a \<Rightarrow> bool" where
  "yields P r \<longleftrightarrow> (\<forall>x. r = Inr x \<longrightarrow> P x)"

lemma yields_Inr [simp]: "yields P (Inr x) \<longleftrightarrow> P x"
  and yields_Inl [simp]: "yields P (Inl f)"
  by (simp_all add: yields_def)

lemma yieldsD: "yields P r \<Longrightarrow> r = Inr x \<Longrightarrow> P x"
  by (simp add: yields_def)

lemma yields_after: "yields P r \<Longrightarrow> (\<And>x. P x \<Longrightarrow> yields Q (g x)) \<Longrightarrow> yields Q (after r g)"
  by (cases r) auto

lemma yields_after_any: "(\<And>x. yields Q (g x)) \<Longrightarrow> yields Q (after r g)"
  by (cases r) auto

lemma yields_fold: "(\<And>x s. P s \<Longrightarrow> yields P (f x s)) \<Longrightarrow> yields P r \<Longrightarrow> yields P (fold (\<lambda>x r. after r (f x)) xs r)"
proof (induction xs arbitrary: r)
  case (Cons x xs)
  then show ?case by (simp add: yields_after [of P])
qed simp

section \<open>Characters\<close>

abbreviation code :: "char \<Rightarrow> nat" where "code c \<equiv> of_char c"

definition isspace :: "char \<Rightarrow> bool" where
  "isspace c \<longleftrightarrow> code c = 32 \<or> (9 \<le> code c \<and> code c \<le> 13)"

definition isdigit :: "char \<Rightarrow> bool" where
  "isdigit c \<longleftrightarrow> 48 \<le> code c \<and> code c \<le> 57"

definition isupper :: "char \<Rightarrow> bool" where
  "isupper c \<longleftrightarrow> 65 \<le> code c \<and> code c \<le> 90"

definition tolower :: "char \<Rightarrow> char" where
  "tolower c = (if isupper c then char_of (code c + 32) else c)"


lemma code_char_of [simp]: "n < 256 \<Longrightarrow> code (char_of n) = n"
  by simp

lemma code_inject: "code c = code d \<longleftrightarrow> c = d"
  by (rule of_char_eq_iff)

lemma code_tolower: "code (tolower c) = (if isupper c then code c + 32 else code c)"
  by (simp add: tolower_def isupper_def)

lemma tolower_idem [simp]: "tolower (tolower c) = tolower c"
  by (simp add: tolower_def isupper_def)

lemma map_tolower_idem [simp]: "map tolower (map tolower s) = map tolower s"
  by simp

section \<open>Buffers as strings\<close>

text \<open>A buffer read as a C string ends at its first NUL.\<close>

definition c_string :: "string \<Rightarrow> string" where
  "c_string s = takeWhile (\<lambda>c. c \<noteq> CHR 0x00) s"

lemma c_string_id [cstr]: "CHR 0x00 \<notin> set s \<Longrightarrow> c_string s = s"
  by (auto simp: c_string_def takeWhile_eq_all_conv)

section \<open>snprintf with a string\<close>

text \<open>
  \<open>snprintf(buf, len, "%s", s)\<close> stores the first \<open>len - 1\<close> characters of \<open>s\<close>
  and a NUL.  Every buffer length of the sources is positive.
\<close>

definition snprintf_s :: "nat \<Rightarrow> string \<Rightarrow> string" where
  "snprintf_s len s = take (len - 1) s"

lemma snprintf_s_fits [cstr]: "length s < len \<Longrightarrow> snprintf_s len s = s"
  by (simp add: snprintf_s_def)

lemma length_snprintf_s [cstr]: "length (snprintf_s len s) = min (len - 1) (length s)"
  by (simp add: snprintf_s_def min.commute)

lemma snprintf_s_idem [cstr, simp]: "snprintf_s len (snprintf_s len s) = snprintf_s len s"
  by (simp add: snprintf_s_def)

section \<open>Decimal numbers\<close>

definition digit_char :: "nat \<Rightarrow> char" where
  "digit_char d = char_of (48 + d)"

fun dec_nat :: "nat \<Rightarrow> string" where
  "dec_nat n = (if n < 10 then [digit_char n] else dec_nat (n div 10) @ [digit_char (n mod 10)])"

declare dec_nat.simps [simp del]

text \<open>The conversion \<open>%d\<close>.\<close>

definition show_int :: "int \<Rightarrow> string" where
  "show_int i = (if i < 0 then CHR ''-'' # dec_nat (nat (- i)) else dec_nat (nat i))"

text \<open>
  \<open>atoi\<close>: white space, an optional sign, then digits up to the first other character.
  The accumulator is unbounded; the standard leaves out-of-range values undefined.
\<close>

fun digits_val :: "int \<Rightarrow> string \<Rightarrow> int" where
  "digits_val acc [] = acc"
| "digits_val acc (c # cs) =
     (if isdigit c then digits_val (acc * 10 + (int (code c) - 48)) cs else acc)"

definition atoi :: "string \<Rightarrow> int" where
  "atoi s = (case dropWhile isspace s of
       [] \<Rightarrow> 0
     | c # cs \<Rightarrow> if c = CHR ''-'' then - digits_val 0 cs
                else if c = CHR ''+'' then digits_val 0 cs
                else digits_val 0 (c # cs))"

lemma code_digit_char: "d < 10 \<Longrightarrow> code (digit_char d) = 48 + d"
  by (simp add: digit_char_def)

lemma isdigit_digit_char [simp]: "d < 10 \<Longrightarrow> isdigit (digit_char d)"
  by (simp add: isdigit_def code_digit_char)

lemma dec_nat_digits: "c \<in> set (dec_nat n) \<Longrightarrow> isdigit c"
proof (induction n rule: dec_nat.induct)
  case (1 n)
  show ?case
  proof (cases "n < 10")
    case True
    with "1.prems" show ?thesis by (simp add: dec_nat.simps [of n])
  next
    case False
    with "1.prems" have "c \<in> set (dec_nat (n div 10)) \<or> c = digit_char (n mod 10)"
      by (auto simp: dec_nat.simps [of n])
    with "1.IH" False show ?thesis by auto
  qed
qed

lemma dec_nat_nonempty [simp]: "dec_nat n \<noteq> []"
  by (subst dec_nat.simps) simp

lemma digits_val_append:
  "\<forall>c \<in> set xs. isdigit c \<Longrightarrow> digits_val acc (xs @ ys) = digits_val (digits_val acc xs) ys"
  by (induction xs arbitrary: acc) auto

lemma digits_val_dec_nat: "digits_val 0 (dec_nat n) = int n"
proof (induction n rule: dec_nat.induct)
  case (1 n)
  show ?case
  proof (cases "n < 10")
    case True
    then show ?thesis by (simp add: dec_nat.simps [of n] code_digit_char)
  next
    case False
    have "digits_val 0 (dec_nat n) = digits_val (int (n div 10)) [digit_char (n mod 10)]"
      using "1.IH" False
      by (simp add: dec_nat.simps [of n] digits_val_append dec_nat_digits)
    also have "\<dots> = int (n div 10) * 10 + int (n mod 10)"
      by (simp add: code_digit_char)
    also have "\<dots> = int n"
      by (metis div_mult_mod_eq of_nat_add of_nat_mult of_nat_numeral)
    finally show ?thesis .
  qed
qed

lemma digit_not_sign: "isdigit c \<Longrightarrow> c \<noteq> CHR ''-'' \<and> c \<noteq> CHR ''+'' \<and> \<not> isspace c"
  by (auto simp: isdigit_def isspace_def)

lemma atoi_dec_nat: "atoi (dec_nat n) = int n"
proof (cases "dec_nat n")
  case Nil
  then show ?thesis by simp
next
  case (Cons c cs)
  then have "isdigit c" using dec_nat_digits [of c n] by simp
  with Cons show ?thesis
    using digit_not_sign [of c] digits_val_dec_nat [of n]
    by (simp add: atoi_def del: digits_val.simps)
qed

lemma atoi_show_int: "atoi (show_int i) = i"
proof (cases "i < 0")
  case True
  then have "atoi (show_int i) = - digits_val 0 (dec_nat (nat (- i)))"
    by (simp add: show_int_def atoi_def isspace_def)
  with True show ?thesis by (simp add: digits_val_dec_nat)
next
  case False
  then show ?thesis by (simp add: show_int_def atoi_dec_nat)
qed

lemma show_int_inject: "show_int i = show_int j \<longleftrightarrow> i = j"
  using atoi_show_int by metis

lemma show_int_chars: "c \<in> set (show_int i) \<Longrightarrow> c = CHR ''-'' \<or> isdigit c"
  by (auto simp: show_int_def dest: dec_nat_digits split: if_splits)

lemma length_dec_nat: "n < 10 ^ Suc k \<Longrightarrow> length (dec_nat n) \<le> Suc k"
proof (induction k arbitrary: n)
  case 0
  then show ?case by (simp add: dec_nat.simps [of n])
next
  case (Suc k)
  show ?case
  proof (cases "n < 10")
    case True
    then show ?thesis by (simp add: dec_nat.simps [of n])
  next
    case False
    have "n div 10 < 10 ^ Suc k" using Suc.prems by (simp add: div_less_iff_less_mult)
    then have "length (dec_nat (n div 10)) \<le> Suc k" by (rule Suc.IH)
    with False show ?thesis by (simp add: dec_nat.simps [of n])
  qed
qed

section \<open>Lists\<close>

lemma append_sep_inject:
  assumes "c \<notin> set xs" and "c \<notin> set ys"
  shows "xs @ c # us = ys @ c # vs \<longleftrightarrow> xs = ys \<and> us = vs"
  using assms
proof (induction xs arbitrary: ys)
  case Nil
  then show ?case by (cases ys) auto
next
  case (Cons x xs)
  then show ?case by (cases ys) auto
qed

lemma takeWhile_neq_append:
  "c \<notin> set xs \<Longrightarrow> takeWhile (\<lambda>x. x \<noteq> c) (xs @ c # ys) = xs"
  by (induction xs) auto

lemma dropWhile_neq_append:
  "c \<notin> set xs \<Longrightarrow> dropWhile (\<lambda>x. x \<noteq> c) (xs @ c # ys) = c # ys"
  by (induction xs) auto

end
