(* ===== verification/Hash_Table.thy ===== *)
theory Hash_Table
  imports Prelude
begin

text \<open>
  String-keyed tables.  \<open>keyed_table\<close> is the contract every table of the program is used
  under; it is provided by the uthash tables of the agent (\<open>HASH_FIND_STR\<close>, \<open>HASH_ADD_STR\<close>,
  \<open>HASH_DEL\<close>, \<open>HASH_ITER\<close>), modelled here as the list of their items, and by the dictionary of
  the configuration parser (theory Dictionary).

  A uthash table is the list of its items, the most recently added first: \<open>HASH_ADD_STR\<close>
  puts an item at the head of its bucket and does not look for an older one with the same key,
  \<open>HASH_FIND_STR\<close> returns the first match, \<open>HASH_ITER\<close> runs in the order of addition.
\<close>

section \<open>The contract\<close>

locale keyed_table =
  fixes empty :: 't
    and find :: "'t \<Rightarrow> string \<Rightarrow> 'v option"
    and put :: "string \<Rightarrow> 'v \<Rightarrow> 't \<Rightarrow> 't"
    and del :: "string \<Rightarrow> 't \<Rightarrow> 't"
    and inv :: "'t \<Rightarrow> bool"
  assumes inv_empty: "inv empty"
    and find_empty: "find empty k = None"
    and inv_put: "inv t \<Longrightarrow> inv (put k v t)"
    and inv_del: "inv t \<Longrightarrow> inv (del k t)"
    and find_put: "inv t \<Longrightarrow> find (put k v t) k' = (if k' = k then Some v else find t k')"
    and find_del: "inv t \<Longrightarrow> find (del k t) k' = (if k' = k then None else find t k')"
begin

lemmas table_simps = inv_empty find_empty inv_put inv_del find_put find_del

lemma find_put_map: "inv t \<Longrightarrow> find (put k v t) = (find t)(k \<mapsto> v)"
  by (auto simp: find_put)

lemma find_del_map: "inv t \<Longrightarrow> find (del k t) = (find t)(k := None)"
  by (auto simp: find_del)

lemma inv_put_all: "inv t \<Longrightarrow> inv (fold (\<lambda>(k, v). put k v) kvs t)"
proof (induction kvs arbitrary: t)
  case (Cons kv kvs)
  then show ?case by (cases kv) (simp add: inv_put)
qed simp

lemma find_put_all: "inv t \<Longrightarrow> find (fold (\<lambda>(k, v). put k v) kvs t) = find t ++ map_of (rev kvs)"
proof (induction kvs arbitrary: t)
  case (Cons kv kvs)
  obtain k v where kv: "kv = (k, v)" by (cases kv)
  have "find (fold (\<lambda>(k, v). put k v) kvs (put k v t)) = (find t)(k \<mapsto> v) ++ map_of (rev kvs)"
    using Cons.IH [of "put k v t"] Cons.prems find_put_map [of t k v]
    by (simp only: inv_put)
  then show ?case by (simp add: kv)
qed simp

end

section \<open>uthash\<close>

type_synonym 'v htab = "(string \<times> 'v) list"

definition hash_find :: "'v htab \<Rightarrow> string \<Rightarrow> 'v option" where
  "hash_find t k = map_of t k"

definition hash_add :: "string \<Rightarrow> 'v \<Rightarrow> 'v htab \<Rightarrow> 'v htab" where
  "hash_add k v t = (k, v) # t"

text \<open>Writing through the item pointer that \<open>HASH_FIND_STR\<close> returned.\<close>

fun hash_upd :: "string \<Rightarrow> 'v \<Rightarrow> 'v htab \<Rightarrow> 'v htab" where
  "hash_upd k v [] = []"
| "hash_upd k v ((k', v') # t) = (if k' = k then (k', v) # t else (k', v') # hash_upd k v t)"

text \<open>\<open>HASH_DEL\<close> of that item.\<close>

fun hash_del :: "string \<Rightarrow> 'v htab \<Rightarrow> 'v htab" where
  "hash_del k [] = []"
| "hash_del k ((k', v') # t) = (if k' = k then t else (k', v') # hash_del k t)"

definition hash_iter :: "'v htab \<Rightarrow> (string \<times> 'v) list" where
  "hash_iter t = rev t"

definition hash_ok :: "'v htab \<Rightarrow> bool" where
  "hash_ok t \<longleftrightarrow> distinct (map fst t)"

text \<open>Find, then write through the item or add a new one: how every client stores a value.\<close>

definition hash_put :: "string \<Rightarrow> 'v \<Rightarrow> 'v htab \<Rightarrow> 'v htab" where
  "hash_put k v t = (case hash_find t k of None \<Rightarrow> hash_add k v t | Some _ \<Rightarrow> hash_upd k v t)"

lemma keys_upd [simp]: "map fst (hash_upd k v t) = map fst t"
  by (induction k v t rule: hash_upd.induct) auto

lemma map_of_upd:
  "map_of (hash_upd k v t) = (if k \<in> fst ` set t then (map_of t)(k \<mapsto> v) else map_of t)"
  by (induction k v t rule: hash_upd.induct) (auto simp: fun_eq_iff)

lemma hash_find_None: "hash_find t k = None \<longleftrightarrow> k \<notin> fst ` set t"
  by (simp add: hash_find_def map_of_eq_None_iff)

lemma keys_del: "hash_ok t \<Longrightarrow> fst ` set (hash_del k t) = fst ` set t - {k}"
  by (induction k t rule: hash_del.induct) (auto simp: hash_ok_def)

lemma set_hash_del: "set (hash_del k t) \<subseteq> set t"
  by (induction k t rule: hash_del.induct) auto

lemma hash_ok_del [inv_intros]: "hash_ok t \<Longrightarrow> hash_ok (hash_del k t)"
proof (induction k t rule: hash_del.induct)
  case (2 k k' v' t)
  then show ?case using set_hash_del [of k t] by (auto simp: hash_ok_def)
qed simp

lemma map_of_hash_del: "hash_ok t \<Longrightarrow> map_of (hash_del k t) = (map_of t)(k := None)"
proof (induction k t rule: hash_del.induct)
  case (2 k a v t)
  then have "map_of t a = None" "hash_ok t" by (auto simp: hash_ok_def map_of_eq_None_iff)
  with "2.IH" show ?case by (cases "a = k") (auto simp: fun_eq_iff)
qed simp

lemma hash_find_del: "hash_ok t \<Longrightarrow> hash_find (hash_del k t) k' = (if k' = k then None else hash_find t k')"
  by (simp add: hash_find_def map_of_hash_del)

lemma hash_ok_put [inv_intros]: "hash_ok t \<Longrightarrow> hash_ok (hash_put k v t)"
  by (auto simp: hash_put_def hash_ok_def hash_add_def hash_find_def map_of_eq_None_iff split: option.split)

lemma hash_find_put: "hash_find (hash_put k v t) k' = (if k' = k then Some v else hash_find t k')"
proof (cases "hash_find t k")
  case None
  then show ?thesis by (simp add: hash_put_def hash_add_def hash_find_def)
next
  case (Some w)
  then have "k \<in> fst ` set t" using hash_find_None [of t k] by simp
  with Some show ?thesis by (simp add: hash_put_def hash_find_def map_of_upd)
qed

interpretation ht: keyed_table "[] :: 'v htab" hash_find hash_put hash_del hash_ok
  by unfold_locales
     (simp_all add: hash_find_put hash_find_del hash_ok_put hash_ok_del, simp_all add: hash_ok_def hash_find_def)

lemma hash_find_in: "hash_ok t \<Longrightarrow> hash_find t k = Some v \<longleftrightarrow> (k, v) \<in> set t"
  by (simp add: hash_find_def hash_ok_def)

lemma hash_upd_put: "hash_find t k = Some w \<Longrightarrow> hash_upd k v t = hash_put k v t"
  by (simp add: hash_put_def)

lemma hash_add_put: "hash_find t k = None \<Longrightarrow> hash_add k v t = hash_put k v t"
  by (simp add: hash_put_def)

end
