(* ===== verification/Dictionary.thy ===== *)
theory Dictionary
  imports Hash_Table
begin

text \<open>
  soaagent/dictionary.c, the table of the configuration parser: a hash per key, searched
  linearly, in arrays that double when they are full.  The parallel arrays \<open>key\<close>, \<open>val\<close> and
  \<open>hash\<close> are one list of slots, an empty slot being a NULL key; a value may be NULL.  Memory is
  never exhausted.  \<open>keyed_table\<close> (theory Hash_Table) is interpreted on it.
\<close>

type_synonym slot = "(string \<times> string option \<times> u32) option"

record dictionary =
  dict_n :: nat
  slots :: "slot list"

definition DICTMINSZ :: nat where "DICTMINSZ = 128"

text \<open>A \<open>char\<close> is signed; its conversion to \<open>unsigned\<close> extends the sign.\<close>

definition unsigned_char :: "char \<Rightarrow> u32" where
  "unsigned_char c = word_of_int (if code c < 128 then int (code c) else int (code c) - 256)"

fun hash_loop :: "u32 \<Rightarrow> string \<Rightarrow> u32" where
  "hash_loop hash [] = hash"
| "hash_loop hash (c # key) =
     (let hash = hash + unsigned_char c;
          hash = hash + push_bit 10 hash;
          hash = hash XOR drop_bit 6 hash
      in hash_loop hash key)"

definition dictionary_hash :: "string \<Rightarrow> u32" where
  "dictionary_hash key =
     (let hash = hash_loop 0 key;
          hash = hash + push_bit 3 hash;
          hash = hash XOR drop_bit 11 hash
      in hash + push_bit 15 hash)"

definition dictionary_new :: "nat \<Rightarrow> dictionary" where
  "dictionary_new sz = \<lparr>dict_n = 0, slots = replicate (if sz < DICTMINSZ then DICTMINSZ else sz) None\<rparr>"

text \<open>The search loop: the index of the first slot with this hash and this key.\<close>

fun find_slot :: "nat \<Rightarrow> u32 \<Rightarrow> string \<Rightarrow> slot list \<Rightarrow> nat option" where
  "find_slot i hash key [] = None"
| "find_slot i hash key (None # sl) = find_slot (i + 1) hash key sl"
| "find_slot i hash key (Some (k, v, h) # sl) =
     (if hash = h \<and> key = k then Some i else find_slot (i + 1) hash key sl)"

definition dictionary_get :: "dictionary \<Rightarrow> string \<Rightarrow> string option \<Rightarrow> string option" where
  "dictionary_get d key def =
     (case find_slot 0 (dictionary_hash key) key (slots d) of
        Some i \<Rightarrow> (case slots d ! i of Some (_, v, _) \<Rightarrow> v | None \<Rightarrow> def)
      | None \<Rightarrow> def)"

definition mem_double :: "dictionary \<Rightarrow> dictionary" where
  "mem_double d = d\<lparr>slots := slots d @ replicate (length (slots d)) None\<rparr>"

text \<open>The search for an empty slot, from \<open>d->n\<close> and around; the fuel is the size of the table.\<close>

fun free_slot :: "nat \<Rightarrow> nat \<Rightarrow> slot list \<Rightarrow> nat option" where
  "free_slot 0 i sl = None"
| "free_slot (Suc fuel) i sl =
     (if i < length sl \<and> sl ! i = None then Some i
      else free_slot fuel (if i + 1 = length sl then 0 else i + 1) sl)"

definition dictionary_put :: "dictionary \<Rightarrow> string \<Rightarrow> string option \<Rightarrow> dictionary" where
  "dictionary_put d key val =
     (let hash = dictionary_hash key in
      case (if dict_n d > 0 then find_slot 0 hash key (slots d) else None) of
        Some i \<Rightarrow> d\<lparr>slots := (slots d)[i := Some (key, val, hash)]\<rparr>
      | None \<Rightarrow>
          let d = (if dict_n d = length (slots d) then mem_double d else d) in
          (case free_slot (length (slots d)) (dict_n d) (slots d) of
             Some i \<Rightarrow> d\<lparr>slots := (slots d)[i := Some (key, val, hash)], dict_n := dict_n d + 1\<rparr>
           | None \<Rightarrow> d))"

text \<open>With the guards on NULL arguments; the result code comes with the table.\<close>

definition dictionary_set :: "dictionary option \<Rightarrow> string option \<Rightarrow> string option \<Rightarrow> int \<times> dictionary option" where
  "dictionary_set d key val =
     (case (d, key) of
        (Some d, Some key) \<Rightarrow> (0, Some (dictionary_put d key val))
      | _ \<Rightarrow> (-1, d))"

definition dictionary_unset :: "dictionary \<Rightarrow> string option \<Rightarrow> dictionary" where
  "dictionary_unset d key =
     (case key of
        None \<Rightarrow> d
      | Some key \<Rightarrow>
          (case find_slot 0 (dictionary_hash key) key (slots d) of
             None \<Rightarrow> d
           | Some i \<Rightarrow> d\<lparr>slots := (slots d)[i := None], dict_n := dict_n d - 1\<rparr>))"

text \<open>The text \<open>dictionary_dump\<close> writes; \<open>%20s\<close> pads on the left.\<close>

definition pad20 :: "string \<Rightarrow> string" where
  "pad20 s = replicate (20 - length s) CHR '' '' @ s"

definition dictionary_dump :: "dictionary \<Rightarrow> string" where
  "dictionary_dump d =
     (if dict_n d < 1 then ''empty dictionary'' @ [CHR 0x0A]
      else concat (map (\<lambda>s. case s of
             None \<Rightarrow> []
           | Some (k, v, _) \<Rightarrow> pad20 k @ [CHR 0x09] @ ''['' @ (case v of None \<Rightarrow> ''UNDEF'' | Some x \<Rightarrow> x) @ '']'' @ [CHR 0x0A])
           (slots d)))"

section \<open>The invariant and the map it stands for\<close>

text \<open>Slot \<open>i\<close> of the table holds the entry \<open>e\<close>.\<close>

definition holds :: "slot list \<Rightarrow> nat \<Rightarrow> string \<Rightarrow> string option \<Rightarrow> u32 \<Rightarrow> bool" where
  "holds sl i k v h \<longleftrightarrow> i < length sl \<and> sl ! i = Some (k, v, h)"

definition used_slots :: "slot list \<Rightarrow> nat set" where
  "used_slots sl = {i. i < length sl \<and> sl ! i \<noteq> None}"

text \<open>Each key sits under its own hash, in one slot only.\<close>

definition slots_distinct :: "slot list \<Rightarrow> bool" where
  "slots_distinct sl \<longleftrightarrow> (\<forall>i k v h. holds sl i k v h \<longrightarrow> h = dictionary_hash k)
     \<and> (\<forall>i j k v h v' h'. holds sl i k v h \<longrightarrow> holds sl j k v' h' \<longrightarrow> i = j)"

definition dict_ok :: "dictionary \<Rightarrow> bool" where
  "dict_ok d \<longleftrightarrow> 0 < length (slots d) \<and> dict_n d = card (used_slots (slots d)) \<and> slots_distinct (slots d)"

definition dict_lookup :: "dictionary \<Rightarrow> string \<Rightarrow> string option option" where
  "dict_lookup d key =
     (case find_slot 0 (dictionary_hash key) key (slots d) of
        Some i \<Rightarrow> (case slots d ! i of Some (_, v, _) \<Rightarrow> Some v | None \<Rightarrow> None)
      | None \<Rightarrow> None)"

lemma holds_used: "holds sl i k v h \<Longrightarrow> i \<in> used_slots sl"
  by (simp add: holds_def used_slots_def)

lemma holds_same: "holds sl i k v h \<Longrightarrow> holds sl i k' v' h' \<Longrightarrow> k = k' \<and> v = v' \<and> h = h'"
  by (simp add: holds_def)

lemma holds_empty [simp]: "\<not> holds (replicate n None) i k v h"
  by (simp add: holds_def)

lemma holds_grow [simp]: "holds (sl @ replicate n None) i k v h \<longleftrightarrow> holds sl i k v h"
  by (auto simp: holds_def nth_append nth_replicate split: if_splits)

lemma holds_clear [simp]: "holds (sl[i := None]) j k v h \<longleftrightarrow> j \<noteq> i \<and> holds sl j k v h"
  by (cases "j = i") (auto simp: holds_def)

lemma holds_store:
  "i < length sl \<Longrightarrow> holds (sl[i := Some (k, v, h)]) j k' v' h' \<longleftrightarrow>
     (if j = i then k' = k \<and> v' = v \<and> h' = h else holds sl j k' v' h')"
  by (auto simp: holds_def)

lemma find_slot_Some:
  "find_slot i hash key sl = Some j \<Longrightarrow> i \<le> j \<and> (\<exists>v. holds sl (j - i) key v hash)"
proof (induction i hash key sl rule: find_slot.induct)
  case (2 i hash key sl)
  then show ?case by (auto simp: nth_Cons' Suc_diff_Suc holds_def)
next
  case (3 i hash key k v h sl)
  then show ?case by (auto simp: nth_Cons' holds_def split: if_splits)
qed simp

lemma find_slot_None: "find_slot i hash key sl = None \<Longrightarrow> \<not> holds sl j key v hash"
proof (induction i hash key sl arbitrary: j rule: find_slot.induct)
  case (2 i hash key sl)
  then show ?case by (cases j) (auto simp: holds_def)
next
  case (3 i hash key k v' h sl)
  then show ?case by (cases j) (auto simp: holds_def split: if_splits)
qed (simp add: holds_def)

lemma dict_ok_holds:
  assumes "dict_ok d" and "holds (slots d) i k v h"
  shows "h = dictionary_hash k" and "holds (slots d) j k v' h' \<Longrightarrow> j = i"
  using assms unfolding dict_ok_def slots_distinct_def by blast+

lemma lookup_iff:
  assumes "dict_ok d"
  shows "dict_lookup d key = Some v \<longleftrightarrow> (\<exists>i h. holds (slots d) i key v h)"
proof (cases "find_slot 0 (dictionary_hash key) key (slots d)")
  case None
  then show ?thesis using find_slot_None [OF None] dict_ok_holds(1) [OF assms] by (auto simp: dict_lookup_def)
next
  case (Some i)
  then obtain v' where i: "holds (slots d) i key v' (dictionary_hash key)"
    using find_slot_Some [OF Some] by auto
  then have "dict_lookup d key = Some v'" using Some by (simp add: dict_lookup_def holds_def)
  moreover have "v = v'" if "holds (slots d) j key v h" for j h
    using dict_ok_holds(2) [OF assms i that] holds_same that i by blast
  ultimately show ?thesis using i by auto
qed

lemma finite_used [simp]: "finite (used_slots sl)"
  by (simp add: used_slots_def)

lemma used_le: "card (used_slots sl) \<le> length sl"
proof -
  have "used_slots sl \<subseteq> {..< length sl}" by (auto simp: used_slots_def)
  then show ?thesis using card_mono [of "{..< length sl}" "used_slots sl"] by simp
qed

text \<open>The walk for an empty slot finds one whenever there is one.\<close>

lemma free_slot_Some: "free_slot fuel i sl = Some j \<Longrightarrow> j < length sl \<and> sl ! j = None"
  by (induction fuel i sl rule: free_slot.induct) (auto split: if_splits)

lemma free_slot_None:
  assumes "free_slot fuel i sl = None" and "i < length sl" and "k < fuel"
  shows "sl ! ((i + k) mod length sl) \<noteq> None"
  using assms
proof (induction fuel i sl arbitrary: k rule: free_slot.induct)
  case (2 fuel i sl)
  let ?next = "if i + 1 = length sl then 0 else i + 1"
  from "2.prems" have used: "sl ! i \<noteq> None" and run: "free_slot fuel ?next sl = None" by (auto split: if_splits)
  show ?case
  proof (cases k)
    case 0
    then show ?thesis using used "2.prems" by simp
  next
    case (Suc k')
    then have "sl ! ((?next + k') mod length sl) \<noteq> None"
      using "2.IH" [of k'] "2.prems" used run by fastforce
    moreover have "(?next + k') mod length sl = (i + k) mod length sl"
    proof (cases "i + 1 = length sl")
      case True
      then have "i + k = length sl + k'" using Suc by simp
      then show ?thesis using True by simp
    qed (simp add: Suc)
    ultimately show ?thesis by simp
  qed
qed simp

lemma free_slot_total:
  assumes "card (used_slots sl) < length sl" and "i < length sl"
  shows "\<exists>j. free_slot (length sl) i sl = Some j"
proof (rule ccontr)
  assume "\<nexists>j. free_slot (length sl) i sl = Some j"
  then have none: "free_slot (length sl) i sl = None" by simp
  have "sl ! j \<noteq> None" if j: "j < length sl" for j
  proof -
    define k where "k = (j + length sl - i) mod length sl"
    have "(i + k) mod length sl = (i + (j + length sl - i)) mod length sl"
      unfolding k_def by (rule mod_add_right_eq)
    also have "\<dots> = j" using j assms(2) by simp
    finally have "(i + k) mod length sl = j" .
    moreover have "k < length sl" unfolding k_def using j by (intro mod_less_divisor) auto
    ultimately show ?thesis using free_slot_None [OF none assms(2), of k] by simp
  qed
  then have "used_slots sl = {..< length sl}" by (auto simp: used_slots_def)
  with assms(1) show False by simp
qed


section \<open>The table is a map\<close>

lemma used_iff: "i \<in> used_slots sl \<longleftrightarrow> (\<exists>k v h. holds sl i k v h)"
  by (cases "sl ! i") (auto simp: used_slots_def holds_def)

lemma used_grow [simp]: "used_slots (sl @ replicate n None) = used_slots sl"
  by (simp add: set_eq_iff used_iff)

lemma used_store: "i < length sl \<Longrightarrow> used_slots (sl[i := Some (k, v, h)]) = insert i (used_slots sl)"
  by (auto simp: used_slots_def nth_list_update)

lemma used_clear: "used_slots (sl[i := None]) = used_slots sl - {i}"
  by (auto simp: used_iff)

lemma dict_ok_new: "dict_ok (dictionary_new n)"
  by (simp add: dict_ok_def slots_distinct_def dictionary_new_def used_slots_def DICTMINSZ_def)

lemma dict_lookup_new: "dict_lookup (dictionary_new n) k = None"
proof (rule ccontr)
  assume "dict_lookup (dictionary_new n) k \<noteq> None"
  then show False using lookup_iff [OF dict_ok_new [of n]] by (auto simp: dictionary_new_def)
qed

text \<open>A lookup is determined by the occupied slots.\<close>

lemma lookup_eqI:
  assumes "dict_ok d" and "dict_ok d'"
    and "\<And>v. (\<exists>i h. holds (slots d) i k v h) \<longleftrightarrow> (\<exists>i h. holds (slots d') i k v h)"
  shows "dict_lookup d k = dict_lookup d' k"
proof -
  have "dict_lookup d k = Some v \<longleftrightarrow> dict_lookup d' k = Some v" for v
    using assms(3) [of v] by (simp only: lookup_iff [OF assms(1)] lookup_iff [OF assms(2)])
  then show ?thesis by (metis option.exhaust)
qed

text \<open>Storing under \<open>k\<close> in slot \<open>i\<close>, which held \<open>k\<close> or nothing, when no other slot holds \<open>k\<close>.\<close>

lemma store_slot:
  assumes ok: "dict_ok d" and i: "i < length (slots d)"
    and free: "\<And>j v h. holds (slots d) j k v h \<Longrightarrow> j = i"
    and mine: "\<And>k' v h. holds (slots d) i k' v h \<Longrightarrow> k' = k"
    and n: "n = card (insert i (used_slots (slots d)))"
    and d': "d' = d\<lparr>slots := (slots d)[i := Some (k, v, dictionary_hash k)], dict_n := n\<rparr>"
  shows "dict_ok d' \<and> (\<forall>k'. dict_lookup d' k' = (if k' = k then Some v else dict_lookup d k'))"
proof -
  note holds = holds_store [OF i]
  have "slots_distinct (slots d')"
    unfolding slots_distinct_def d' using free mine dict_ok_holds [OF ok]
    by (simp add: holds) metis
  moreover have "0 < length (slots d)" using i by linarith
  ultimately have ok': "dict_ok d'" using i n by (simp add: d' dict_ok_def used_store)
  have "dict_lookup d' k = Some v"
    using lookup_iff [OF ok'] by (auto simp: d' holds)
  moreover have "dict_lookup d' k' = dict_lookup d k'" if "k' \<noteq> k" for k'
    using that mine by (intro lookup_eqI ok ok') (simp add: d' holds, metis)
  ultimately show ?thesis using ok' by simp
qed

lemma grow_keeps:
  assumes "dict_ok d"
  shows "dict_ok (mem_double d) \<and> dict_lookup (mem_double d) k = dict_lookup d k"
proof -
  have "dict_ok (mem_double d)" using assms by (simp add: dict_ok_def slots_distinct_def mem_double_def)
  then show ?thesis
    using assms by (intro conjI lookup_eqI) (simp_all add: mem_double_def)
qed

lemma put_keeps:
  assumes ok: "dict_ok d"
  shows "dict_ok (dictionary_put d k v)
    \<and> (\<forall>k'. dict_lookup (dictionary_put d k v) k' = (if k' = k then Some v else dict_lookup d k'))"
proof (cases "find_slot 0 (dictionary_hash k) k (slots d)")
  case (Some i)
  then obtain w where i: "holds (slots d) i k w (dictionary_hash k)"
    using find_slot_Some [OF Some] by auto
  note used = holds_used [OF i]
  have "0 < card (used_slots (slots d))" using used by (auto simp: card_gt_0_iff)
  then have "dictionary_put d k v = d\<lparr>slots := (slots d)[i := Some (k, v, dictionary_hash k)], dict_n := dict_n d\<rparr>"
    using Some ok by (simp add: dictionary_put_def Let_def dict_ok_def)
  note store = store_slot [OF ok _ _ _ _ this]
  show ?thesis
  proof (rule store)
    show "i < length (slots d)" using i by (simp add: holds_def)
    show "dict_n d = card (insert i (used_slots (slots d)))" using used ok by (simp add: insert_absorb dict_ok_def)
    show "j = i" if "holds (slots d) j k v' h" for j v' h using dict_ok_holds(2) [OF ok i that] .
    show "k' = k" if "holds (slots d) i k' v' h" for k' v' h using holds_same [OF i that] by simp
  qed
next
  case None
  define e where "e = (if dict_n d = length (slots d) then mem_double d else d)"
  have e: "dict_ok e" "\<And>k'. dict_lookup e k' = dict_lookup d k'" "dict_n e < length (slots e)"
    using ok grow_keeps used_le [of "slots d"] by (auto simp: e_def mem_double_def dict_ok_def)
  then have card: "card (used_slots (slots e)) < length (slots e)" by (simp add: dict_ok_def)
  then obtain j where j: "free_slot (length (slots e)) (dict_n e) (slots e) = Some j"
    using free_slot_total [OF card e(3)] by blast
  have put: "dictionary_put d k v = e\<lparr>slots := (slots e)[j := Some (k, v, dictionary_hash k)], dict_n := dict_n e + 1\<rparr>"
    using None unfolding dictionary_put_def Let_def e_def [symmetric] j by simp
  have "dict_lookup e k = None" using None e(2) by (simp add: dict_lookup_def)
  then have absent: "\<not> holds (slots e) i k w h" for i w h using lookup_iff [OF e(1), of k w] by auto
  have "j \<notin> used_slots (slots e)" and "\<not> holds (slots e) j k' w h" for k' w h
    using free_slot_Some [OF j] by (simp_all add: used_slots_def holds_def)
  then show ?thesis
    using store_slot [OF e(1) _ _ _ _ put] absent free_slot_Some [OF j] e by (simp add: dict_ok_def)
qed

lemma unset_keeps:
  assumes ok: "dict_ok d"
  shows "dict_ok (dictionary_unset d (Some k))
    \<and> (\<forall>k'. dict_lookup (dictionary_unset d (Some k)) k' = (if k' = k then None else dict_lookup d k'))"
proof (cases "find_slot 0 (dictionary_hash k) k (slots d)")
  case None
  then show ?thesis using ok by (simp add: dictionary_unset_def dict_lookup_def)
next
  case (Some i)
  then obtain w where i: "holds (slots d) i k w (dictionary_hash k)"
    using find_slot_Some [OF Some] by auto
  define d' where "d' = d\<lparr>slots := (slots d)[i := None], dict_n := dict_n d - 1\<rparr>"
  have d': "dictionary_unset d (Some k) = d'" using Some by (simp add: dictionary_unset_def d'_def)
  have "slots_distinct (slots d')"
    using dict_ok_holds [OF ok] unfolding slots_distinct_def d'_def by simp blast
  then have ok': "dict_ok d'"
    using ok i holds_used [OF i] by (simp add: dict_ok_def used_clear d'_def)
  have "dict_lookup d' k \<noteq> Some x" for x
    unfolding lookup_iff [OF ok'] using dict_ok_holds(2) [OF ok i] by (auto simp: d'_def)
  moreover have "dict_lookup d' k' = dict_lookup d k'" if "k' \<noteq> k" for k'
    using that holds_same [OF i] by (intro lookup_eqI ok ok') (simp add: d'_def, metis)
  ultimately show ?thesis using ok' d' by auto
qed

text \<open>\<open>dictionary_get\<close> reads the map; a NULL value is returned as it is, not replaced by the default.\<close>

lemma dictionary_get_lookup:
  assumes "dict_ok d"
  shows "dictionary_get d k def = (case dict_lookup d k of None \<Rightarrow> def | Some v \<Rightarrow> v)"
proof (cases "find_slot 0 (dictionary_hash k) k (slots d)")
  case (Some i)
  then show ?thesis using find_slot_Some [OF Some] by (auto simp: dictionary_get_def dict_lookup_def holds_def)
qed (simp add: dictionary_get_def dict_lookup_def)

interpretation dict: keyed_table "dictionary_new 0" dict_lookup
    "\<lambda>k v d. dictionary_put d k v"
    "\<lambda>k d. dictionary_unset d (Some k)" dict_ok
  by unfold_locales (simp_all add: dict_ok_new dict_lookup_new put_keeps unset_keeps)

text \<open>
  A run of sets and unsets, as any client makes them.
\<close>

datatype dict_op = Set string "string option" | Unset string

fun dict_run :: "dict_op list \<Rightarrow> dictionary \<Rightarrow> dictionary" where
  "dict_run [] d = d"
| "dict_run (Set k v # ops) d =
     dict_run ops (case dictionary_set (Some d) (Some k) v of (_, Some d') \<Rightarrow> d' | (_, None) \<Rightarrow> d)"
| "dict_run (Unset k # ops) d = dict_run ops (dictionary_unset d (Some k))"

fun map_run :: "dict_op list \<Rightarrow> (string \<rightharpoonup> string option) \<Rightarrow> (string \<rightharpoonup> string option)" where
  "map_run [] m = m"
| "map_run (Set k v # ops) m = map_run ops (m(k \<mapsto> v))"
| "map_run (Unset k # ops) m = map_run ops (m(k := None))"

lemma dict_run_keeps: "dict_ok d \<Longrightarrow> dict_ok (dict_run ops d) \<and> dict_lookup (dict_run ops d) = map_run ops (dict_lookup d)"
proof (induction ops arbitrary: d)
  case (Cons op ops)
  show ?case
  proof (cases op)
    case (Set k v)
    then show ?thesis
      using Cons.IH [of "dictionary_put d k v"] Cons.prems dict.find_put_map [of d k v] dict.inv_put [of d k v]
      by (simp add: dictionary_set_def del: fun_upd_apply)
  next
    case (Unset k)
    then show ?thesis
      using Cons.IH [of "dictionary_unset d (Some k)"] Cons.prems dict.find_del_map [of d k] dict.inv_del [of d k]
      by (simp del: fun_upd_apply)
  qed
qed simp

text \<open>
  C15: The dictionary implements a finite map.  Whatever sequence of \<open>dictionary_set\<close> and
  \<open>dictionary_unset\<close> is run on a new dictionary of any requested size -- hash collisions,
  overwriting, freed slots, a full table that doubles and the wrap-around of the search for an
  empty slot included -- \<open>dictionary_get\<close> returns what the same updates of a mathematical map
  hold, and the default exactly for the absent keys.
\<close>

theorem dictionary_is_map:
  "dictionary_get (dict_run ops (dictionary_new n)) k def =
     (case map_run ops (\<lambda>_. None) k of None \<Rightarrow> def | Some v \<Rightarrow> v)"
proof -
  have "dict_lookup (dictionary_new n) = (\<lambda>_. None)" using dict_lookup_new by blast
  then show ?thesis
    using dict_run_keeps [OF dict_ok_new [of n], of ops] by (simp add: dictionary_get_lookup)
qed

text \<open>\<open>d->n\<close> is the number of keys.\<close>

lemma dict_n_run: "dict_n (dict_run ops (dictionary_new n)) = card (used_slots (slots (dict_run ops (dictionary_new n))))"
  using dict_run_keeps [OF dict_ok_new [of n], of ops] by (simp add: dict_ok_def)
end
