(* ===== verification/Paths.thy ===== *)
theory Paths
  imports Prelude
begin

text \<open>
  Slash-separated paths, as the file utilities of soaagent/util.c and the ZooKeeper helpers of
  soaagent/zk_handle.c cut them, and the contract both rely on to create the missing ancestors
  of an entry: \<open>path_store\<close>, a tree of named entries to which one entry can be added below an
  existing one.  It is provided by the file system (theory File_System) and by the ZooKeeper
  client (theory Zk_Handle).
\<close>

section \<open>Searching a character\<close>

definition strchr :: "char \<Rightarrow> string \<Rightarrow> nat option" where
  "strchr c s = (if c \<in> set s then Some (length (takeWhile (\<lambda>x. x \<noteq> c) s)) else None)"

text \<open>The backward loop \<open>while (end_pos-- > 0)\<close>.\<close>

fun find_back :: "char \<Rightarrow> nat \<Rightarrow> string \<Rightarrow> nat option" where
  "find_back c 0 s = None"
| "find_back c (Suc end_pos) s = (if s ! end_pos = c then Some end_pos else find_back c end_pos s)"

definition strrchr :: "char \<Rightarrow> string \<Rightarrow> nat option" where
  "strrchr c s = find_back c (length s) s"

lemma strchr_append: "c \<notin> set a \<Longrightarrow> strchr c (a @ c # b) = Some (length a)"
  by (simp add: strchr_def takeWhile_neq_append)

lemma strchr_None: "strchr c s = None \<longleftrightarrow> c \<notin> set s"
  by (simp add: strchr_def)

lemma strchr_Some: "strchr c s = Some k \<longleftrightarrow> (\<exists>b. s = take k s @ c # b \<and> c \<notin> set (take k s) \<and> k < length s)"
proof
  assume k: "strchr c s = Some k"
  then have c: "c \<in> set s" by (simp add: strchr_def split: if_splits)
  then obtain a b where "s = a @ c # b" "c \<notin> set a" by (meson split_list_first)
  moreover from this k have "k = length a" by (simp add: strchr_append)
  ultimately show "\<exists>b. s = take k s @ c # b \<and> c \<notin> set (take k s) \<and> k < length s" by simp
next
  assume "\<exists>b. s = take k s @ c # b \<and> c \<notin> set (take k s) \<and> k < length s"
  then obtain b where b: "s = take k s @ c # b" "c \<notin> set (take k s)" "k < length s" by blast
  show "strchr c s = Some k" by (subst b(1), subst strchr_append [OF b(2)]) (use b(3) in simp)
qed

lemma find_back_append:
  "c \<notin> set b \<Longrightarrow> n \<le> length b \<Longrightarrow> find_back c (Suc (length a) + n) (a @ c # b) = Some (length a)"
  by (induction n) (auto simp: nth_append in_set_conv_nth)

lemma strrchr_append: "c \<notin> set b \<Longrightarrow> strrchr c (a @ c # b) = Some (length a)"
  using find_back_append [of c b "length b" a] by (simp add: strrchr_def)

lemma find_back_None: "c \<notin> set s \<Longrightarrow> n \<le> length s \<Longrightarrow> find_back c n s = None"
  by (induction n) (auto simp: in_set_conv_nth)

lemma strrchr_None: "c \<notin> set s \<Longrightarrow> strrchr c s = None"
  by (simp add: strrchr_def find_back_None)

section \<open>The prefixes the loops stop at\<close>

text \<open>
  The loop \<open>while (pos_ptr != NULL && pos_ptr != str_ptr)\<close> cuts the path at every next slash,
  until there is none or two are adjacent; \<open>pre\<close> is the text before \<open>str_ptr\<close>, \<open>rest\<close> the text
  from there.
\<close>

function slash_prefixes :: "string \<Rightarrow> string \<Rightarrow> string list" where
  "slash_prefixes pre rest =
     (case strchr CHR ''/'' rest of
        None \<Rightarrow> []
      | Some k \<Rightarrow>
          if k = 0 then []
          else (pre @ take k rest) # slash_prefixes (pre @ take (Suc k) rest) (drop (Suc k) rest))"
  by pat_completeness auto
termination
  by (relation "measure (\<lambda>(pre, rest). length rest)") (auto simp: strchr_Some)

declare slash_prefixes.simps [simp del]

text \<open>The entry a path names: its components, without the empty ones and the dots.\<close>

definition seg :: "string \<Rightarrow> string list" where
  "seg s = (if s = [] \<or> s = ''.'' then [] else [s])"

fun comps_from :: "string \<Rightarrow> string \<Rightarrow> string list" where
  "comps_from name [] = seg name"
| "comps_from name (c # s) =
     (if c = CHR ''/'' then seg name @ comps_from [] s else comps_from (name @ [c]) s)"

definition comps :: "string \<Rightarrow> string list" where
  "comps s = comps_from [] s"

lemma comps_from_append: "comps_from name (a @ CHR ''/'' # b) = comps_from name a @ comps b"
  by (induction name a rule: comps_from.induct) (auto simp: comps_def)

lemma comps_slash [simp]: "comps (a @ CHR ''/'' # b) = comps a @ comps b"
  by (simp add: comps_def comps_from_append)

lemma comps_Cons_slash [simp]: "comps (CHR ''/'' # b) = comps b"
  using comps_slash [of "[]" b] by (simp add: comps_def seg_def)

lemma comps_from_plain: "CHR ''/'' \<notin> set s \<Longrightarrow> comps_from name s = seg (name @ s)"
  by (induction name s rule: comps_from.induct) auto

lemma comps_plain: "CHR ''/'' \<notin> set s \<Longrightarrow> comps s = seg s"
  by (simp add: comps_def comps_from_plain)

lemma seg_cases: "seg s = [] \<or> seg s = [s]"
  by (simp add: seg_def)

lemma comps_Nil [simp]: "comps [] = []"
  by (simp add: comps_def seg_def)

text \<open>Each of these entries is the one before it or lies directly below it.\<close>

fun chain :: "'a list \<Rightarrow> 'a list list \<Rightarrow> bool" where
  "chain d [] \<longleftrightarrow> True"
| "chain d (k # ks) \<longleftrightarrow> (k = d \<or> (k \<noteq> [] \<and> butlast k = d)) \<and> chain k ks"

lemma chain_append: "chain d (xs @ ys) \<longleftrightarrow> chain d xs \<and> chain (last (d # xs)) ys"
  by (induction xs arbitrary: d) auto

lemma chain_map: "chain d ks \<Longrightarrow> chain (b @ d) (map ((@) b) ks)"
  by (induction ks arbitrary: d) (auto simp: butlast_append)

lemma chain_last_prefix: "chain d ks \<Longrightarrow> \<exists>e. last (d # ks) = d @ e"
proof (induction ks arbitrary: d)
  case (Cons k ks)
  then obtain e where "last (k # ks) = k @ e" by auto
  moreover have "\<exists>e'. k = d @ e'"
    using Cons.prems by (auto intro: exI [of _ "[last k]"])
  ultimately show ?case by auto
qed simp

lemma slash_prefixes_step:
  assumes "CHR ''/'' \<notin> set name" and "name \<noteq> []"
  shows "slash_prefixes pre (name @ CHR ''/'' # rest) = (pre @ name) # slash_prefixes (pre @ name @ ''/'') rest"
  using assms by (subst slash_prefixes.simps) (simp add: strchr_append)

lemma slash_prefixes_stop:
  "CHR ''/'' \<notin> set name \<Longrightarrow> slash_prefixes pre name = []"
  "slash_prefixes pre (CHR ''/'' # rest) = []"
  by (subst slash_prefixes.simps, simp add: strchr_def)+

lemma slash_prefixes_chain:
  assumes "pre = a @ ''/''"
  shows "chain (comps pre) (map comps (slash_prefixes pre rest))"
  using assms
proof (induction "length rest" arbitrary: a pre rest rule: less_induct)
  case less
  show ?case
  proof (cases "strchr CHR ''/'' rest")
    case None
    then show ?thesis by (simp add: strchr_None slash_prefixes_stop)
  next
    case (Some k)
    then obtain b where b: "rest = take k rest @ CHR ''/'' # b" "CHR ''/'' \<notin> set (take k rest)"
      by (auto simp: strchr_Some)
    define name where "name = take k rest"
    have r: "rest = name @ CHR ''/'' # b" "CHR ''/'' \<notin> set name" using b by (simp_all add: name_def)
    show ?thesis
    proof (cases "name = []")
      case True
      then show ?thesis using r by (simp add: slash_prefixes_stop)
    next
      case False
      have pre: "comps (pre @ x) = comps pre @ comps x" for x
        using comps_slash [of a x] comps_slash [of a "[]"] by (simp add: less.prems)
      have "length b < length rest" using r by simp
      from less.hyps [OF this, of "pre @ name @ ''/''" "pre @ name"]
      have "chain (comps (pre @ name)) (map comps (slash_prefixes (pre @ name @ ''/'') b))"
        using comps_slash [of "pre @ name" "[]"] by simp
      then show ?thesis
        using seg_cases [of name] r False by (auto simp: slash_prefixes_step pre comps_plain)
    qed
  qed
qed

lemma slash_prefixes_nonempty: "pre \<noteq> [] \<Longrightarrow> p \<in> set (slash_prefixes pre rest) \<Longrightarrow> \<exists>x. p = pre @ x"
proof (induction pre rest rule: slash_prefixes.induct)
  case (1 pre rest)
  show ?case
  proof (cases "strchr CHR ''/'' rest")
    case None
    then show ?thesis using "1.prems"(2) by (simp add: slash_prefixes.simps [of pre rest])
  next
    case (Some k)
    then have "k \<noteq> 0" "p = pre @ take k rest \<or> p \<in> set (slash_prefixes (pre @ take (Suc k) rest) (drop (Suc k) rest))"
      using "1.prems"(2) by (auto simp: slash_prefixes.simps [of pre rest] split: if_splits)
    then show ?thesis using "1.IH" [OF Some] "1.prems"(1) by auto
  qed
qed

text \<open>The prefixes before every slash but a leading one.\<close>

definition slash_cuts :: "string \<Rightarrow> string list" where
  "slash_cuts p = map (\<lambda>i. take i p) (filter (\<lambda>i. p ! i = CHR ''/'' \<and> i \<noteq> 0) [0 ..< length p])"

lemma slash_cuts_snoc:
  "slash_cuts (p @ [c]) = slash_cuts p @ (if c = CHR ''/'' \<and> p \<noteq> [] then [p] else [])"
proof -
  have "filter (\<lambda>i. (p @ [c]) ! i = CHR ''/'' \<and> i \<noteq> 0) [0 ..< length p]
      = filter (\<lambda>i. p ! i = CHR ''/'' \<and> i \<noteq> 0) [0 ..< length p]"
    by (rule filter_cong) (auto simp: nth_append)
  then show ?thesis by (auto simp: slash_cuts_def)
qed

lemma slash_cuts_chain_aux:
  "chain [] (map comps (slash_cuts p)) \<and> (\<exists>name. CHR ''/'' \<notin> set name \<and>
     (p = name \<and> last ([] # map comps (slash_cuts p)) = []
      \<or> (\<exists>a. p = a @ CHR ''/'' # name \<and> last ([] # map comps (slash_cuts p)) = comps a)))"
proof (induction p rule: rev_induct)
  case Nil
  then show ?case by (simp add: slash_cuts_def)
next
  case (snoc c p)
  let ?L = "last ([] # map comps (slash_cuts p))"
  obtain name where name: "CHR ''/'' \<notin> set name"
    "p = name \<and> ?L = [] \<or> (\<exists>a. p = a @ CHR ''/'' # name \<and> ?L = comps a)" using snoc.IH by blast
  then have L: "comps p = ?L @ seg name" by (auto simp: comps_plain)
  show ?case
  proof (cases "c = CHR ''/''")
    case True
    show ?thesis
    proof (cases "p = []")
      case True
      with \<open>c = CHR ''/''\<close> show ?thesis by (auto simp: slash_cuts_def intro!: exI [of _ "[]"])
    next
      case False
      have "comps p = ?L \<or> comps p \<noteq> [] \<and> butlast (comps p) = ?L"
        using seg_cases [of name] L by auto
      then have "chain [] (map comps (slash_cuts (p @ [c])))"
        using snoc.IH True False by (auto simp: slash_cuts_snoc chain_append)
      moreover have "p @ [c] = p @ CHR ''/'' # []" using True by simp
      moreover have "last ([] # map comps (slash_cuts (p @ [c]))) = comps p"
        using True False by (simp add: slash_cuts_snoc)
      ultimately show ?thesis by (intro conjI exI [of _ "[]"] disjI2 exI [of _ p]) simp_all
    qed
  next
    case False
    then have "slash_cuts (p @ [c]) = slash_cuts p" by (simp add: slash_cuts_snoc)
    moreover have "p @ [c] = name @ [c] \<and> ?L = [] \<or> (\<exists>a. p @ [c] = a @ CHR ''/'' # (name @ [c]) \<and> ?L = comps a)"
      using name(2) by auto
    moreover have "CHR ''/'' \<notin> set (name @ [c])" using name(1) False by simp
    ultimately show ?thesis using snoc.IH by metis
  qed
qed

lemma slash_cuts_chain: "chain [] (map comps (slash_cuts p @ [p]))"
proof -
  let ?L = "last ([] # map comps (slash_cuts p))"
  obtain name where "CHR ''/'' \<notin> set name"
    "p = name \<and> ?L = [] \<or> (\<exists>a. p = a @ CHR ''/'' # name \<and> ?L = comps a)" using slash_cuts_chain_aux by blast
  then have "comps p = ?L @ seg name" by (auto simp: comps_plain)
  then have "comps p = ?L \<or> comps p \<noteq> [] \<and> butlast (comps p) = ?L" using seg_cases [of name] by auto
  moreover have "chain [] (map comps (slash_cuts p))" using slash_cuts_chain_aux by blast
  ultimately show ?thesis by (simp add: chain_append)
qed

lemma slash_cuts_prefix: "q \<in> set (slash_cuts p) \<Longrightarrow> q \<noteq> [] \<and> (\<exists>x. p = q @ CHR ''/'' # x)"
proof -
  assume "q \<in> set (slash_cuts p)"
  then obtain i where i: "i < length p" "p ! i = CHR ''/''" "i \<noteq> 0" "q = take i p" by (auto simp: slash_cuts_def)
  then have "p = q @ CHR ''/'' # drop (Suc i) p" using id_take_nth_drop [OF i(1)] by simp
  then show ?thesis using i by auto
qed

text \<open>The entries of a chain are those on the way to its last one.\<close>

lemma chain_image:
  "chain d ks \<Longrightarrow> insert d (set ks) = {take i (last (d # ks)) | i. length d \<le> i}"
proof (induction ks arbitrary: d)
  case Nil
  then show ?case by (auto intro: exI [of _ "length d"])
next
  case (Cons k ks)
  obtain e where e: "last (k # ks) = k @ e" using Cons.prems chain_last_prefix [of k ks] by auto
  have IH: "insert k (set ks) = {take i (last (k # ks)) | i. length k \<le> i}" using Cons by simp
  consider "k = d" | x where "k = d @ [x]"
    using Cons.prems by (cases k rule: rev_cases) auto
  then show ?case
  proof cases
    case 1
    then have "d \<in> {take i (last (k # ks)) | i. length k \<le> i}" using IH by blast
    then show ?thesis using IH 1 by (simp add: insert_absorb del: last.simps) (simp add: insert_absorb)
  next
    case 2
    have "insert d {take i (last (k # ks)) | i. length k \<le> i} = {take i (last (k # ks)) | i. length d \<le> i}" (is "?A = ?B")
    proof
      show "?A \<subseteq> ?B" using 2 e by (auto intro: exI [of _ "length d"])
      show "?B \<subseteq> ?A"
      proof
        fix y assume "y \<in> ?B"
        then obtain i where i: "length d \<le> i" "y = take i (last (k # ks))" by blast
        show "y \<in> ?A"
        proof (cases "i = length d")
          case True
          then show ?thesis using i 2 e by simp
        next
          case False
          then have "length k \<le> i" using i 2 by simp
          then show ?thesis using i(2) by blast
        qed
      qed
    qed
    then show ?thesis using IH by simp
  qed
qed

section \<open>Creating what is missing\<close>

text \<open>For each path in turn: add the entry unless it exists; the first failure ends the walk.\<close>

fun ensure_all :: "('s \<Rightarrow> string \<Rightarrow> bool) \<Rightarrow> (string \<Rightarrow> 's \<Rightarrow> int \<times> 's) \<Rightarrow> string list \<Rightarrow> 's \<Rightarrow> int \<times> 's" where
  "ensure_all has add [] s = (0, s)"
| "ensure_all has add (p # ps) s =
     (if has s p then ensure_all has add ps s
      else (let (r, s) = add p s in if r \<noteq> 0 then (-1, s) else ensure_all has add ps s))"

text \<open>
  The contract: \<open>key\<close> is the entry a path names in a state, \<open>store\<close> the existing entries,
  \<open>can\<close> those that accept new entries below them, \<open>grows\<close> how an entry may
  change, \<open>valid\<close> the well-formed paths.
\<close>

locale path_store =
  fixes key :: "'s \<Rightarrow> string \<Rightarrow> string list"
    and store :: "'s \<Rightarrow> string list set"
    and can :: "'s \<Rightarrow> string list \<Rightarrow> bool"
    and has :: "'s \<Rightarrow> string \<Rightarrow> bool"
    and add :: "string \<Rightarrow> 's \<Rightarrow> int \<times> 's"
    and grows :: "'s \<Rightarrow> 's \<Rightarrow> string list \<Rightarrow> bool"
    and valid :: "string \<Rightarrow> bool"
  assumes has_iff: "valid p \<Longrightarrow> has s p \<longleftrightarrow> key s p \<in> store s"
    and add_ok: "valid p \<Longrightarrow> key s p \<notin> store s \<Longrightarrow> key s p \<noteq> [] \<Longrightarrow> butlast (key s p) \<in> store s
        \<Longrightarrow> can s (butlast (key s p)) \<Longrightarrow>
        \<exists>s'. add p s = (0, s') \<and> key s' = key s \<and> store s' = insert (key s p) (store s)
          \<and> can s' (key s p) \<and> (\<forall>k. can s k \<longrightarrow> can s' k) \<and> (\<forall>k. grows s s' k)"
    and grows_refl: "grows s s k"
    and grows_trans: "grows s s' k \<Longrightarrow> grows s' s'' k \<Longrightarrow> grows s s'' k"
begin

text \<open>Nothing is in the way of \<open>k\<close>: it exists, or its parent is missing too or accepts it.\<close>

definition clear_for :: "'s \<Rightarrow> string list \<Rightarrow> bool" where
  "clear_for s k \<longleftrightarrow> k = [] \<or> k \<in> store s \<or> butlast k \<notin> store s \<or> can s (butlast k)"

text \<open>The entries \<open>ks\<close> are there, accept entries where they are new, and all else is as before.\<close>

definition made :: "'s \<Rightarrow> string list set \<Rightarrow> 's \<Rightarrow> bool" where
  "made s ks s' \<longleftrightarrow> key s' = key s \<and> store s' = store s \<union> ks \<and> (\<forall>k. can s k \<longrightarrow> can s' k)
    \<and> (\<forall>k \<in> ks. k \<notin> store s \<longrightarrow> can s' k) \<and> (\<forall>k. grows s s' k)"

lemma made_insert_old: "made s ks s' \<Longrightarrow> k \<in> store s \<Longrightarrow> made s (insert k ks) s'"
  unfolding made_def by blast

lemma made_insert_new:
  assumes "made s1 ks s'" and "k \<notin> store s" and "key s1 = key s" and "store s1 = insert k (store s)"
    and "can s1 k" and "\<forall>k. can s k \<longrightarrow> can s1 k" and "\<forall>k'. grows s s1 k'"
  shows "made s (insert k ks) s'"
proof -
  have "grows s s' k'" for k' using grows_trans [of s s1 k' s'] assms(1,7) by (simp add: made_def)
  then show ?thesis using assms by (auto simp: made_def)
qed

lemma ensure_all_creates:
  assumes "d \<in> store s" and "chain d (map (key s) ps)" and "\<forall>p \<in> set ps. valid p \<and> clear_for s (key s p)"
  shows "\<exists>s'. ensure_all has add ps s = (0, s') \<and> made s (key s ` set ps) s'"
  using assms
proof (induction ps arbitrary: s d)
  case Nil
  then show ?case by (auto simp: made_def intro: grows_refl)
next
  case (Cons p ps)
  have p0: "valid p" using Cons.prems(3) by simp
  show ?case
  proof (cases "key s p \<in> store s")
    case True
    then obtain s' where s': "ensure_all has add ps s = (0, s')" "made s (key s ` set ps) s'"
      using Cons.IH [of "key s p" s] Cons.prems by auto
    then show ?thesis using True made_insert_old [OF s'(2) True] by (simp add: has_iff [OF p0])
  next
    case False
    then have p: "key s p \<noteq> []" "butlast (key s p) = d" using Cons.prems by auto
    then have "can s d" using Cons.prems False by (simp add: clear_for_def)
    then obtain s1 where s1: "add p s = (0, s1)" "key s1 = key s" "store s1 = insert (key s p) (store s)"
      "can s1 (key s p)" "\<forall>k. can s k \<longrightarrow> can s1 k" "\<forall>k. grows s s1 k"
      using add_ok [OF p0 False p(1)] p(2) Cons.prems(1) by auto
    have "\<forall>q \<in> set ps. valid q \<and> clear_for s1 (key s1 q)"
      using Cons.prems(3) s1 unfolding clear_for_def by auto
    then obtain s' where s': "ensure_all has add ps s1 = (0, s')" "made s1 (key s1 ` set ps) s'"
      using Cons.IH [of "key s p" s1] Cons.prems(2) s1(2,3) by auto
    show ?thesis
      using False s1(1,2) s' made_insert_new [OF s'(2) False s1(2-6)] by (simp add: has_iff [OF p0])
  qed
qed

text \<open>A walk along a chain of paths that ends at \<open>q\<close> creates what is missing on the way to it.\<close>

lemma walk_reaches:
  assumes "d \<in> store s" and "chain d (map (key s) (ps @ [q]))"
    and "\<forall>p \<in> set (ps @ [q]). valid p" and "\<forall>i \<ge> length d. clear_for s (take i (key s q))"
  shows "\<exists>s'. ensure_all has add (ps @ [q]) s = (0, s') \<and> made s {take i (key s q) | i. length d \<le> i} s'"
proof -
  let ?ks = "key s ` set (ps @ [q])"
  have ks: "insert d ?ks = {take i (key s q) | i. length d \<le> i}"
    using chain_image [OF assms(2)] by simp
  have "clear_for s (key s p)" if "p \<in> set (ps @ [q])" for p
  proof -
    have "key s p \<in> insert d ?ks" using that by blast
    then obtain i where "key s p = take i (key s q)" "length d \<le> i" unfolding ks by blast
    then show ?thesis using assms(4) by simp
  qed
  then have "\<forall>p \<in> set (ps @ [q]). valid p \<and> clear_for s (key s p)" using assms(3) by blast
  from ensure_all_creates [OF assms(1,2) this]
  obtain s' where s': "ensure_all has add (ps @ [q]) s = (0, s')" "made s ?ks s'" by blast
  have "made s {take i (key s q) | i. length d \<le> i} s'"
    using made_insert_old [OF s'(2) assms(1)] unfolding ks .
  with s'(1) show ?thesis by blast
qed

end

end
