(* ===== verification/File_System.thy ===== *)
theory File_System
  imports Paths
begin

text \<open>
  The file functions of soaagent/util.c on a model of the system calls they use (\<open>access\<close>,
  \<open>mkdir\<close>, \<open>fopen\<close>, \<open>fread\<close>, \<open>fwrite\<close>, \<open>fstat\<close>).  The file system is a map from entries to
  directories and files, with the working directory that relative paths start from.  Left out:
  links, \<open>..\<close> in paths, permissions other than the owner's write permission on a directory, a
  full disk.
\<close>

section \<open>System calls\<close>

text \<open>A directory that accepts entries or not; a file with its content and its modification time.\<close>

datatype inode = Dir bool | File string nat

record filesystem =
  cwd :: "string list"
  tree :: "string list \<rightharpoonup> inode"
  fs_time :: nat

definition PATH_MAX :: nat where "PATH_MAX = 4096"

definition absolute :: "string \<Rightarrow> bool" where
  "absolute p \<longleftrightarrow> take 1 p = ''/''"

definition resolve :: "filesystem \<Rightarrow> string \<Rightarrow> string list" where
  "resolve s p = (if absolute p then [] else cwd s) @ comps p"

definition mkdir :: "string \<Rightarrow> nat \<Rightarrow> filesystem \<Rightarrow> int \<times> filesystem" where
  "mkdir p mode s =
     (let k = resolve s p in
      if p = [] \<or> k = [] \<or> tree s k \<noteq> None then (-1, s)
      else if tree s (butlast k) = Some (Dir True)
      then (0, s\<lparr>tree := (tree s)(k \<mapsto> Dir (bit mode 7))\<rparr>)
      else (-1, s))"

text \<open>\<open>fopen(p, "w")\<close> and \<open>fwrite\<close> of the whole content: \<open>None\<close> when the file cannot be opened.\<close>

definition write_file :: "string \<Rightarrow> string \<Rightarrow> filesystem \<Rightarrow> filesystem option" where
  "write_file p content s =
     (let k = resolve s p; s' = s\<lparr>tree := (tree s)(k \<mapsto> File content (fs_time s))\<rparr> in
      if p = [] \<or> last p = CHR ''/'' then None
      else (case tree s k of
              Some (Dir _) \<Rightarrow> None
            | Some (File _ _) \<Rightarrow> Some s'
            | None \<Rightarrow> if k \<noteq> [] \<and> tree s (butlast k) = Some (Dir True) then Some s' else None))"

definition read_file :: "string \<Rightarrow> filesystem \<Rightarrow> string option" where
  "read_file p s = (case tree s (resolve s p) of Some (File content _) \<Rightarrow> Some content | _ \<Rightarrow> None)"

text \<open>\<open>fopen(p, "a")\<close>.\<close>

definition open_append :: "string \<Rightarrow> filesystem \<Rightarrow> filesystem option" where
  "open_append p s = (case read_file p s of Some _ \<Rightarrow> Some s | None \<Rightarrow> write_file p [] s)"

section \<open>Paths of files\<close>

definition is_path_exist :: "filesystem \<Rightarrow> string \<Rightarrow> bool" where
  "is_path_exist s file_path \<longleftrightarrow> file_path \<noteq> [] \<and> tree s (resolve s file_path) \<noteq> None"

text \<open>The result code with what was stored in the buffer, if anything.\<close>

definition get_dir_path :: "string \<Rightarrow> nat \<Rightarrow> int \<times> string option" where
  "get_dir_path file_path len =
     (case strrchr CHR ''/'' file_path of
        None \<Rightarrow> (-1, None)
      | Some found_pos \<Rightarrow> (0, Some (snprintf_s len (take found_pos file_path))))"

definition get_file_name :: "string \<Rightarrow> nat \<Rightarrow> int \<times> string option" where
  "get_file_name file_path len =
     (case strrchr CHR ''/'' file_path of
        None \<Rightarrow> (-1, None)
      | Some found_pos \<Rightarrow> (0, Some (snprintf_s len (drop (found_pos + 1) file_path))))"

text \<open>The address \<open>host:port\<close>: the search for the colon starts at the second character.\<close>

definition parse_addr :: "string \<Rightarrow> nat \<Rightarrow> (string \<times> int) option" where
  "parse_addr addr ip_buf_len =
     (let path = snprintf_s PATH_MAX addr in
      case strchr CHR '':'' (drop 1 path) of
        Some k \<Rightarrow> Some (snprintf_s ip_buf_len (take (Suc k) path), atoi (drop (Suc (Suc k)) path))
      | None \<Rightarrow> None)"

definition get_file_last_modified :: "string \<Rightarrow> filesystem \<Rightarrow> nat" where
  "get_file_last_modified file_path s =
     (case tree s (resolve s file_path) of
        Some (File _ st_mtime) \<Rightarrow> st_mtime
      | _ \<Rightarrow> 0)"

section \<open>Creating directories\<close>

definition make_sure_dir :: "string option \<Rightarrow> nat \<Rightarrow> filesystem \<Rightarrow> int \<times> filesystem" where
  "make_sure_dir file_path mode s =
     (case file_path of
        None \<Rightarrow> (-1, s)
      | Some file_path \<Rightarrow>
          if length file_path \<le> 1 then (-1, s)
          else
            let path = snprintf_s PATH_MAX file_path in
            ensure_all is_path_exist (\<lambda>p. mkdir p mode) (slash_prefixes (take 1 path) (drop 1 path)) s)"

text \<open>The loop over the characters: the status, the last separator and the state.\<close>

fun mkdirs_loop :: "nat \<Rightarrow> string \<Rightarrow> nat list \<Rightarrow> int \<Rightarrow> filesystem \<Rightarrow> int \<times> int \<times> filesystem" where
  "mkdirs_loop mode ptr [] sepPos s = (0, sepPos, s)"
| "mkdirs_loop mode ptr (index # indices) sepPos s =
     (if ptr ! index = CHR ''/'' \<and> index \<noteq> 0 then
        (if \<not> is_path_exist s (take index ptr) then
           (let (r, s) = mkdir (take index ptr) mode s in
            if r = 0 then mkdirs_loop mode ptr indices (int index) s else (-1, int index, s))
         else mkdirs_loop mode ptr indices (int index) s)
      else mkdirs_loop mode ptr indices sepPos s)"

definition mkdirs :: "string \<Rightarrow> nat \<Rightarrow> filesystem \<Rightarrow> int \<times> filesystem" where
  "mkdirs dir_path mode s =
     (let (status, sepPos, s) = mkdirs_loop mode dir_path [0 ..< length dir_path] (-1) s in
      if status \<noteq> 0 then (-1, s)
      else if sepPos \<noteq> int (length dir_path) - 1 \<and> \<not> is_path_exist s dir_path then
        (let (r, s) = mkdir dir_path mode s in if r = 0 then (0, s) else (-1, s))
      else (0, s))"

section \<open>Contents\<close>

text \<open>An empty file is an error: \<open>fread\<close> of one object of size 0 returns 0.\<close>

definition read_content_from_file :: "string option \<Rightarrow> filesystem \<Rightarrow> string option" where
  "read_content_from_file filename s =
     (case filename of
        None \<Rightarrow> None
      | Some filename \<Rightarrow>
          (case read_file filename s of
             None \<Rightarrow> None
           | Some content \<Rightarrow> if length content = 0 then None else Some content))"

definition write_content_to_file :: "string \<Rightarrow> string \<Rightarrow> filesystem \<Rightarrow> int \<times> filesystem" where
  "write_content_to_file file_path buffer s =
     (case write_file file_path buffer s of None \<Rightarrow> (-1, s) | Some s \<Rightarrow> (0, s))"

definition MODE_775 :: nat where "MODE_775 = 0x1FD"
definition MODE_755 :: nat where "MODE_755 = 0x1ED"

definition write_pid :: "int \<Rightarrow> string \<Rightarrow> filesystem \<Rightarrow> int \<times> filesystem" where
  "write_pid pid pid_file_path s =
     (let dir_path = (case snd (get_dir_path pid_file_path PATH_MAX) of Some d \<Rightarrow> d | None \<Rightarrow> []);
          s = snd (mkdirs dir_path MODE_775 s);
          buffer = snprintf_s 20 (show_int pid)
      in case write_file pid_file_path buffer s of None \<Rightarrow> (-1, s) | Some s \<Rightarrow> (0, s))"

section \<open>The file system is a path store\<close>

lemma comps_Cons: "comps (c # x) = (if c = CHR ''/'' then comps x else comps (c # x))"
  by simp

text \<open>An entry is as before, or a new directory.\<close>

definition grown :: "filesystem \<Rightarrow> filesystem \<Rightarrow> string list \<Rightarrow> bool" where
  "grown s s' k \<longleftrightarrow> tree s' k = tree s k \<or> tree s k = None \<and> tree s' k = Some (Dir True)"

lemma mkdir_store:
  assumes "bit mode 7"
  shows "path_store resolve (\<lambda>s. dom (tree s)) (\<lambda>s k. tree s k = Some (Dir True)) is_path_exist
    (\<lambda>p. mkdir p mode) grown (\<lambda>p. p \<noteq> [])"
proof
  fix s p
  show "p \<noteq> [] \<Longrightarrow> is_path_exist s p \<longleftrightarrow> resolve s p \<in> dom (tree s)" by (auto simp: is_path_exist_def)
  assume p: "p \<noteq> []" "resolve s p \<notin> dom (tree s)" "resolve s p \<noteq> []"
    "butlast (resolve s p) \<in> dom (tree s)" "tree s (butlast (resolve s p)) = Some (Dir True)"
  let ?s = "s\<lparr>tree := (tree s)(resolve s p \<mapsto> Dir True)\<rparr>"
  have "mkdir p mode s = (0, ?s)"
    using p assms by (simp add: mkdir_def Let_def domIff)
  moreover have "resolve ?s = resolve s" by (simp add: resolve_def fun_eq_iff)
  ultimately show "\<exists>s'. mkdir p mode s = (0, s') \<and> resolve s' = resolve s
      \<and> dom (tree s') = insert (resolve s p) (dom (tree s)) \<and> tree s' (resolve s p) = Some (Dir True)
      \<and> (\<forall>k. tree s k = Some (Dir True) \<longrightarrow> tree s' k = Some (Dir True))
      \<and> (\<forall>k. grown s s' k)"
    using p(2) by (intro exI [of _ ?s]) (auto simp: grown_def)
qed (auto simp: grown_def)

interpretation dirs_775: path_store resolve "\<lambda>s. dom (tree s)" "\<lambda>s k. tree s k = Some (Dir True)"
    is_path_exist "\<lambda>p. mkdir p MODE_775" grown "\<lambda>p. p \<noteq> []"
  by (rule mkdir_store) (simp add: MODE_775_def)

interpretation dirs_755: path_store resolve "\<lambda>s. dom (tree s)" "\<lambda>s k. tree s k = Some (Dir True)"
    is_path_exist "\<lambda>p. mkdir p MODE_755" grown "\<lambda>p. p \<noteq> []"
  by (rule mkdir_store) (simp add: MODE_755_def)

text \<open>The loop of \<open>mkdirs\<close> is the walk over the cuts of its path.\<close>

lemma mkdirs_loop_walk:
  "(case mkdirs_loop mode ptr is sepPos s of (status, _, s') \<Rightarrow> (status, s')) =
     ensure_all is_path_exist (\<lambda>p. mkdir p mode)
       (map (\<lambda>i. take i ptr) (filter (\<lambda>i. ptr ! i = CHR ''/'' \<and> i \<noteq> 0) is)) s"
  by (induction mode ptr "is" sepPos s rule: mkdirs_loop.induct) (auto split: prod.splits)

lemma mkdirs_loop_sep:
  "mkdirs_loop mode ptr is sepPos s = (0, sep, s') \<Longrightarrow>
     sep = last (sepPos # map int (filter (\<lambda>i. ptr ! i = CHR ''/'' \<and> i \<noteq> 0) is))"
  by (induction mode ptr "is" sepPos s rule: mkdirs_loop.induct) (auto split: prod.splits if_splits)

lemma ensure_all_status: "ensure_all has add ps s = (r, s') \<Longrightarrow> r = 0 \<or> r = -1"
  by (induction has add ps s rule: ensure_all.induct) (auto split: prod.splits if_splits)

lemma ensure_all_append:
  "ensure_all has add (ps @ qs) s =
     (case ensure_all has add ps s of (r, s') \<Rightarrow> if r = 0 then ensure_all has add qs s' else (r, s'))"
  by (induction has add ps s rule: ensure_all.induct) (auto split: prod.splits)

lemma last_sep:
  assumes "p \<noteq> []"
  shows "last (-1 # map int (filter (\<lambda>i. p ! i = CHR ''/'' \<and> i \<noteq> 0) [0 ..< length p])) = int (length p) - 1
    \<longleftrightarrow> last p = CHR ''/'' \<and> 1 < length p"
proof -
  obtain q c where p: "p = q @ [c]" using assms by (cases p rule: rev_cases) auto
  let ?f = "filter (\<lambda>i. p ! i = CHR ''/'' \<and> i \<noteq> 0) [0 ..< length q]"
  have lt: "last (-1 # map int ?f) < int (length q)"
  proof (cases "?f = []")
    case False
    then have "last ?f \<in> set ?f" by (rule last_in_set)
    with False show ?thesis by (simp add: last_map)
  qed simp
  show ?thesis using lt by (auto simp: p)
qed

lemma mkdirs_walk:
  assumes "p \<noteq> []"
  shows "mkdirs p mode s = ensure_all is_path_exist (\<lambda>p. mkdir p mode)
    (slash_cuts p @ (if last p = CHR ''/'' \<and> 1 < length p then [] else [p])) s"
proof -
  obtain status sep s1 where loop: "mkdirs_loop mode p [0 ..< length p] (-1) s = (status, sep, s1)"
    by (metis prod_cases3)
  then have walk: "ensure_all is_path_exist (\<lambda>p. mkdir p mode) (slash_cuts p) s = (status, s1)"
    using mkdirs_loop_walk [of mode p "[0 ..< length p]" "-1" s] by (simp add: slash_cuts_def)
  show ?thesis
  proof (cases "status = 0")
    case True
    then have "sep = int (length p) - 1 \<longleftrightarrow> last p = CHR ''/'' \<and> 1 < length p"
      using mkdirs_loop_sep [of mode p "[0 ..< length p]" "-1" s sep s1] loop last_sep [OF assms] by simp
    then show ?thesis
      using True loop walk by (auto simp: mkdirs_def ensure_all_append split: prod.splits)
  next
    case False
    then show ?thesis
      using loop walk ensure_all_status [OF walk] by (simp add: mkdirs_def ensure_all_append)
  qed
qed

section \<open>Directories on the way to a file\<close>

definition base :: "filesystem \<Rightarrow> string \<Rightarrow> string list" where
  "base s p = (if absolute p then [] else cwd s)"

text \<open>Where nothing is in the way: a missing entry has no parent yet, or one that accepts it.\<close>

definition entry_clear :: "filesystem \<Rightarrow> string list \<Rightarrow> bool" where
  "entry_clear s k \<longleftrightarrow>
     k = [] \<or> tree s k \<noteq> None \<or> tree s (butlast k) = None \<or> tree s (butlast k) = Some (Dir True)"

definition way_clear :: "filesystem \<Rightarrow> string \<Rightarrow> bool" where
  "way_clear s p \<longleftrightarrow> tree s (base s p) \<noteq> None \<and>
     list_all (\<lambda>i. entry_clear s (take i (resolve s p))) [length (base s p) ..< Suc (length (resolve s p))]"

text \<open>What the walk leaves behind: the directories \<open>ks\<close> exist, all else is as before.\<close>

definition dirs_made :: "filesystem \<Rightarrow> string list set \<Rightarrow> filesystem \<Rightarrow> bool" where
  "dirs_made s ks s' \<longleftrightarrow> (\<forall>k. tree s' k = (if k \<in> ks \<and> tree s k = None then Some (Dir True) else tree s k))"

definition way :: "filesystem \<Rightarrow> string \<Rightarrow> string list set" where
  "way s p = {take i (resolve s p) | i. length (base s p) \<le> i}"

lemma resolve_base: "resolve s p = base s p @ comps p"
  by (simp add: resolve_def base_def)

lemma base_prefix: "q \<noteq> [] \<Longrightarrow> base s (q @ x) = base s q"
  by (cases q) (simp_all add: base_def absolute_def)

lemma chain_base:
  assumes "chain [] (map comps ps)" and "\<forall>q \<in> set ps. base s q = b"
  shows "chain b (map (resolve s) ps)"
proof -
  have "map (resolve s) ps = map ((@) b) (map comps ps)" using assms(2) by (simp add: resolve_base)
  then show ?thesis using chain_map [OF assms(1), of b] by (simp only: append_Nil2)
qed

lemma way_clearD:
  assumes "way_clear s p" and "k \<in> way s p"
  shows "entry_clear s k"
proof -
  obtain i where i: "k = take i (resolve s p)" "length (base s p) \<le> i" using assms(2) by (auto simp: way_def)
  let ?i = "min i (length (resolve s p))"
  have "k = take ?i (resolve s p)" using i(1) by (simp add: min_def)
  moreover have "?i \<in> set [length (base s p) ..< Suc (length (resolve s p))]"
    using i(2) by (auto simp: resolve_base)
  ultimately show ?thesis using assms(1) by (auto simp: way_clear_def list_all_iff)
qed

lemma clear_775: "entry_clear s k \<Longrightarrow> dirs_775.clear_for s k"
  by (auto simp: entry_clear_def dirs_775.clear_for_def)

lemma clear_755: "entry_clear s k \<Longrightarrow> dirs_755.clear_for s k"
  by (auto simp: entry_clear_def dirs_755.clear_for_def)

lemma dirs_made_grown:
  "dom (tree s') = dom (tree s) \<union> ks \<Longrightarrow> \<forall>k. grown s s' k \<Longrightarrow> dirs_made s ks s'"
  unfolding dirs_made_def grown_def by (metis Un_iff domIff option.discI)

lemma dirs_made_775: "dirs_775.made s ks s' \<Longrightarrow> resolve s' = resolve s \<and> dirs_made s ks s'"
  by (simp add: dirs_775.made_def dirs_made_grown)

lemma dirs_made_755: "dirs_755.made s ks s' \<Longrightarrow> resolve s' = resolve s \<and> dirs_made s ks s'"
  by (simp add: dirs_755.made_def dirs_made_grown)

lemma comps_trailing [simp]: "comps (q @ ''/'') = comps q"
  using comps_slash [of q "[]"] by simp

lemma mkdirs_creates:
  assumes "p \<noteq> []" and "way_clear s p"
  shows "\<exists>s'. mkdirs p MODE_775 s = (0, s') \<and> resolve s' = resolve s \<and> dirs_made s (way s p) s'"
proof -
  define q where "q = (if last p = CHR ''/'' \<and> 1 < length p then butlast p else p)"
  have pq: "p = (if last p = CHR ''/'' \<and> 1 < length p then q @ ''/'' else q)"
    by (auto simp: q_def) (metis append_butlast_last_id assms(1))
  have q: "q \<noteq> []" using assms(1) by (cases p rule: rev_cases) (auto simp: q_def)
  have "slash_cuts p = (if last p = CHR ''/'' \<and> 1 < length p then slash_cuts q @ [q] else slash_cuts q)"
    using pq q slash_cuts_snoc [of q "CHR ''/''"] by (auto split: if_splits)
  then have walk: "mkdirs p MODE_775 s = ensure_all is_path_exist (\<lambda>p. mkdir p MODE_775) (slash_cuts q @ [q]) s"
    using pq by (auto simp: mkdirs_walk [OF assms(1)] split: if_splits)
  have b: "base s q = base s p" using pq q base_prefix [of q s "''/''"] by (auto split: if_splits)
  moreover have "comps q = comps p" using pq comps_trailing [of q] by (metis (full_types))
  ultimately have k: "resolve s q = resolve s p" by (simp add: resolve_base)
  have pre: "\<forall>x \<in> set (slash_cuts q @ [q]). x \<noteq> [] \<and> base s x = base s p"
    using slash_cuts_prefix [of _ q] base_prefix b q by fastforce
  have "\<exists>s'. ensure_all is_path_exist (\<lambda>p. mkdir p MODE_775) (slash_cuts q @ [q]) s = (0, s')
      \<and> dirs_775.made s {take i (resolve s q) | i. length (base s p) \<le> i} s'"
  proof (rule dirs_775.walk_reaches)
    show "base s p \<in> dom (tree s)" using assms(2) by (auto simp: way_clear_def)
    show "chain (base s p) (map (resolve s) (slash_cuts q @ [q]))"
      using slash_cuts_chain [of q] pre by (intro chain_base) auto
    show "\<forall>x \<in> set (slash_cuts q @ [q]). x \<noteq> []" using pre by blast
    show "\<forall>i \<ge> length (base s p). dirs_775.clear_for s (take i (resolve s q))"
      using way_clearD [OF assms(2)] k by (auto intro!: clear_775 simp: way_def)
  qed
  then show ?thesis using walk dirs_made_775 k by (auto simp: way_def)
qed

lemma write_file_ok:
  assumes "p \<noteq> []" and "last p \<noteq> CHR ''/''"
    and "tree s (resolve s p) = None \<and> resolve s p \<noteq> [] \<and> tree s (butlast (resolve s p)) = Some (Dir True)
      \<or> (\<exists>c m. tree s (resolve s p) = Some (File c m))"
  shows "write_file p content s = Some (s\<lparr>tree := (tree s)(resolve s p \<mapsto> File content (fs_time s))\<rparr>)"
  using assms by (auto simp: write_file_def Let_def)

text \<open>
  \<open>write_pid\<close> leaves the process id in its file.  Whatever part of the path exists, as long
  as nothing on the way is a file or a directory that accepts no entries, the missing
  directories are created, the file holds the decimal id, and every other entry is untouched.
\<close>

theorem write_pid_creates:
  assumes "pid_file = dir @ CHR ''/'' # name" and "dir \<noteq> []" and "CHR ''/'' \<notin> set name" and "comps name = [name]"
    and "length pid_file < PATH_MAX" and "0 \<le> pid" and "pid < 2 ^ 31"
    and "way_clear s pid_file" and "\<nexists>w. tree s (resolve s pid_file) = Some (Dir w)"
  shows "\<exists>s'. write_pid pid pid_file s = (0, s') \<and> read_file pid_file s' = Some (show_int pid)
    \<and> (\<forall>k. k \<noteq> resolve s pid_file \<longrightarrow>
          tree s' k = (if k \<in> way s dir \<and> tree s k = None then Some (Dir True) else tree s k))"
proof -
  let ?k = "resolve s pid_file"
  have b: "base s pid_file = base s dir" using assms(1,2) base_prefix by simp
  then have k: "?k = resolve s dir @ [name]" using assms(1,4) by (simp add: resolve_base)
  have clear: "way_clear s dir"
  proof -
    have "entry_clear s (take i (resolve s dir))"
      if "i \<in> set [length (base s dir) ..< Suc (length (resolve s dir))]" for i
    proof (rule way_clearD [OF assms(8)])
      have "take i (resolve s dir) = take i ?k" using that k by auto
      then show "take i (resolve s dir) \<in> way s pid_file" using that b by (auto simp: way_def)
    qed
    then show ?thesis using assms(8) b by (simp add: way_clear_def list_all_iff)
  qed
  then obtain s1 where s1: "mkdirs dir MODE_775 s = (0, s1)" "resolve s1 = resolve s" "dirs_made s (way s dir) s1"
    using mkdirs_creates [OF assms(2)] by blast
  have "resolve s dir \<in> way s dir" by (auto simp: way_def resolve_base intro!: exI [of _ "length (resolve s dir)"])
  moreover have "?k \<notin> way s dir" using k by (auto simp: way_def dest: arg_cong [of _ _ length])
  moreover have "entry_clear s ?k"
    by (rule way_clearD [OF assms(8)]) (auto simp: way_def b resolve_base intro!: exI [of _ "length ?k"])
  ultimately have ready: "tree s1 ?k = None \<and> tree s1 (resolve s dir) = Some (Dir True) \<or> (\<exists>c m. tree s1 ?k = Some (File c m))"
    using assms(9) s1(3) k unfolding dirs_made_def entry_clear_def
    by (cases "tree s ?k") (auto split: if_splits, metis inode.exhaust)
  have "get_dir_path pid_file PATH_MAX = (0, Some dir)"
    using assms(1,3,5) by (simp add: get_dir_path_def strrchr_append snprintf_s_fits)
  moreover have "length (show_int pid) < 20"
  proof -
    have "nat pid < 10 ^ Suc 10" using assms(6,7) by simp
    then show ?thesis using length_dec_nat [of "nat pid" 10] assms(6) by (simp add: show_int_def)
  qed
  moreover have "last pid_file \<noteq> CHR ''/''"
    using assms(1,3,4) by (cases name rule: rev_cases) auto
  moreover have "pid_file \<noteq> []" "butlast ?k = resolve s dir" "?k \<noteq> []" using assms(1) k by simp_all
  ultimately have "write_pid pid pid_file s = (0, s1\<lparr>tree := (tree s1)(?k \<mapsto> File (show_int pid) (fs_time s1))\<rparr>)"
    using s1(1,2) ready
    by (simp add: write_pid_def write_file_ok [of pid_file s1] snprintf_s_fits)
  moreover have "read_file pid_file (s1\<lparr>tree := (tree s1)(?k \<mapsto> File (show_int pid) (fs_time s1))\<rparr>) = Some (show_int pid)"
  proof -
    have "resolve (s1\<lparr>tree := x\<rparr>) pid_file = ?k" for x
      using s1(2) by (metis resolve_def filesystem.ext_inject filesystem.surjective filesystem.update_convs(2))
    then show ?thesis by (simp add: read_file_def)
  qed
  ultimately show ?thesis using s1(3) by (simp add: dirs_made_def)
qed

definition empty_fs :: filesystem where
  "empty_fs = \<lparr>cwd = [], tree = [[] \<mapsto> Dir True], fs_time = 0\<rparr>"

theorem write_pid_creates_witness:
  "\<exists>s'. write_pid 42 ''/var/run/a.pid'' empty_fs = (0, s') \<and> read_file ''/var/run/a.pid'' s' = Some ''42''
     \<and> tree s' [''var''] = Some (Dir True)"
proof -
  have c: "comps ''/var/run/a.pid'' = [''var'', ''run'', ''a.pid'']" by code_simp
  have 3: "[0 ..< Suc 3] = [0, 1, 2, 3]" by code_simp
  have b: "base empty_fs ''/var/run/a.pid'' = []" by code_simp
  have "resolve empty_fs ''/var/run/a.pid'' = [''var'', ''run'', ''a.pid'']" unfolding resolve_base b c by simp
  then have "way_clear empty_fs ''/var/run/a.pid''"
    unfolding way_clear_def b by (simp add: upt_rec entry_clear_def empty_fs_def)
  moreover have "\<nexists>w. tree empty_fs (resolve empty_fs ''/var/run/a.pid'') = Some (Dir w)"
    unfolding resolve_base c by (simp add: empty_fs_def)
  moreover have "comps ''a.pid'' = [''a.pid'']" by code_simp
  ultimately obtain s' where s': "write_pid 42 ''/var/run/a.pid'' empty_fs = (0, s')"
    "read_file ''/var/run/a.pid'' s' = Some (show_int 42)"
    "\<forall>k. k \<noteq> resolve empty_fs ''/var/run/a.pid'' \<longrightarrow> tree s' k =
       (if k \<in> way empty_fs ''/var/run'' \<and> tree empty_fs k = None then Some (Dir True) else tree empty_fs k)"
    using write_pid_creates [of "''/var/run/a.pid''" "''/var/run''" "''a.pid''" 42 empty_fs]
    by (auto simp: PATH_MAX_def)
  have r: "comps ''/var/run'' = [''var'', ''run'']" "base empty_fs ''/var/run'' = []" by code_simp+
  have "[''var''] \<in> way empty_fs ''/var/run''"
    unfolding way_def resolve_base r by (auto intro!: exI [of _ 1])
  then have "tree s' [''var''] = Some (Dir True)"
    using s'(3) unfolding resolve_base b c by (simp add: empty_fs_def)
  moreover have "show_int 42 = ''42''" by code_simp
  ultimately show ?thesis using s' by auto
qed

section \<open>make_sure_dir\<close>

text \<open>No empty component: neither a slash at an end nor two adjacent ones.\<close>

fun tidy_from :: "bool \<Rightarrow> string \<Rightarrow> bool" where
  "tidy_from at_start [] \<longleftrightarrow> \<not> at_start"
| "tidy_from at_start (c # s) \<longleftrightarrow> (if c = CHR ''/'' then \<not> at_start \<and> tidy_from True s else tidy_from False s)"

definition tidy :: "string \<Rightarrow> bool" where
  "tidy d \<longleftrightarrow> tidy_from True d"

lemma tidy_from_name: "CHR ''/'' \<notin> set n \<Longrightarrow> tidy_from b (n @ CHR ''/'' # d) \<longleftrightarrow> (n \<noteq> [] \<or> \<not> b) \<and> tidy d"
  by (induction n arbitrary: b) (auto simp: tidy_def)

lemma slash_prefixes_tidy:
  assumes "tidy d" and "CHR ''/'' \<notin> set name"
  shows "\<exists>qs. slash_prefixes pre (d @ CHR ''/'' # name) = qs @ [pre @ d]"
  using assms(1)
proof (induction "length d" arbitrary: d pre rule: less_induct)
  case less
  show ?case
  proof (cases "CHR ''/'' \<in> set d")
    case False
    moreover have "d \<noteq> []" using less.prems by (auto simp: tidy_def)
    ultimately show ?thesis using assms(2) by (simp add: slash_prefixes_step slash_prefixes_stop)
  next
    case True
    then obtain n d' where d: "d = n @ CHR ''/'' # d'" "CHR ''/'' \<notin> set n" by (meson split_list_first)
    then have n: "n \<noteq> []" "tidy d'" using less.prems tidy_from_name [of n True d'] by (simp_all add: tidy_def)
    then obtain qs where "slash_prefixes (pre @ n @ ''/'') (d' @ CHR ''/'' # name) = qs @ [(pre @ n @ ''/'') @ d']"
      using less.hyps [of d' "pre @ n @ ''/''"] d(1) by auto
    then show ?thesis
      using slash_prefixes_step [of n pre "d' @ CHR ''/'' # name"] n(1) d by auto
  qed
qed

text \<open>
  \<open>make_sure_dir\<close> creates every missing directory above a file, for an absolute path without
  empty components, and touches nothing else.
\<close>

theorem make_sure_dir_creates:
  assumes "tidy d" and "CHR ''/'' \<notin> set name" and "length (CHR ''/'' # d @ CHR ''/'' # name) < PATH_MAX"
    and "way_clear s (CHR ''/'' # d)"
  shows "\<exists>s'. make_sure_dir (Some (CHR ''/'' # d @ CHR ''/'' # name)) MODE_755 s = (0, s')
    \<and> dirs_made s (way s (CHR ''/'' # d)) s'"
proof -
  let ?path = "CHR ''/'' # d @ CHR ''/'' # name" and ?q = "CHR ''/'' # d"
  obtain ps where ps: "slash_prefixes ''/'' (d @ CHR ''/'' # name) = ps @ [?q]"
    using slash_prefixes_tidy [OF assms(1,2), of "''/''"] by auto
  have pre: "x \<noteq> [] \<and> base s x = base s ?q" if "x \<in> set (ps @ [?q])" for x
    using slash_prefixes_nonempty [of "''/''" x "d @ CHR ''/'' # name"] that ps by (auto simp: base_def absolute_def)
  have "comps ''/'' = []" by simp
  then have "chain [] (map comps (ps @ [?q]))"
    using slash_prefixes_chain [of "''/''" "[]" "d @ CHR ''/'' # name"] unfolding ps by (simp only: append_Nil)
  then have chain: "chain (base s ?q) (map (resolve s) (ps @ [?q]))"
    using chain_base [where b = "base s ?q"] pre by blast
  have "\<exists>s'. ensure_all is_path_exist (\<lambda>p. mkdir p MODE_755) (ps @ [?q]) s = (0, s')
      \<and> dirs_755.made s {take i (resolve s ?q) | i. length (base s ?q) \<le> i} s'"
  proof (rule dirs_755.walk_reaches [OF _ chain])
    show "base s ?q \<in> dom (tree s)" using assms(4) by (auto simp: way_clear_def)
    show "\<forall>x \<in> set (ps @ [?q]). x \<noteq> []" using pre by blast
    show "\<forall>i \<ge> length (base s ?q). dirs_755.clear_for s (take i (resolve s ?q))"
      using way_clearD [OF assms(4)] by (auto intro!: clear_755 simp: way_def)
  qed
  moreover have "make_sure_dir (Some ?path) MODE_755 s = ensure_all is_path_exist (\<lambda>p. mkdir p MODE_755) (ps @ [?q]) s"
    using assms(3) ps by (simp add: make_sure_dir_def snprintf_s_fits)
  ultimately show ?thesis using dirs_made_755 by (auto simp: way_def)
qed

theorem make_sure_dir_creates_witness:
  "\<exists>s'. make_sure_dir (Some ''/tmp/soa/zkc.log'') MODE_755 empty_fs = (0, s') \<and> tree s' [''tmp'', ''soa''] = Some (Dir True)"
proof -
  have c: "comps ''/tmp/soa'' = [''tmp'', ''soa'']" by code_simp
  have b: "base empty_fs ''/tmp/soa'' = []" by code_simp
  have "way_clear empty_fs ''/tmp/soa''"
    unfolding way_clear_def resolve_base b c by (simp add: upt_rec entry_clear_def empty_fs_def)
  moreover have "tidy ''tmp/soa''" by code_simp
  ultimately obtain s' where s': "make_sure_dir (Some ''/tmp/soa/zkc.log'') MODE_755 empty_fs = (0, s')"
    "dirs_made empty_fs (way empty_fs ''/tmp/soa'') s'"
    using make_sure_dir_creates [of "''tmp/soa''" "''zkc.log''" empty_fs] by (auto simp: PATH_MAX_def)
  have "[''tmp'', ''soa''] \<in> way empty_fs ''/tmp/soa''"
    unfolding way_def resolve_base b c by (auto intro!: exI [of _ 2])
  then show ?thesis using s' by (auto simp: dirs_made_def empty_fs_def)
qed

text \<open>A relative path whose first component has one character, as in \<open>./logs/a\<close>, is taken to be done at once.\<close>

lemma make_sure_dir_dot:
  "length (c # CHR ''/'' # rest) < PATH_MAX \<Longrightarrow> make_sure_dir (Some (c # CHR ''/'' # rest)) mode s = (0, s)"
  by (simp add: make_sure_dir_def snprintf_s_fits slash_prefixes_stop)

section \<open>Contents are read back\<close>

lemma write_file_read:
  "write_file p content s = Some s' \<Longrightarrow> read_file p s' = Some content"
  by (auto simp: write_file_def read_file_def resolve_def Let_def split: if_splits option.splits inode.splits)

lemma content_roundtrip:
  assumes "write_content_to_file p content s = (0, s')"
  shows "read_content_from_file (Some p) s' = (if content = [] then None else Some content)"
  using assms write_file_read [of p content s]
  by (auto simp: write_content_to_file_def read_content_from_file_def split: option.splits)

end
