(* ===== verification/Iniparser.thy ===== *)
theory Iniparser
  imports Dictionary File_System
begin

text \<open>
  soaagent/iniparser.c, the reader of the configuration file: lines of at most 1023 bytes with
  continuations, sections, keys and values, kept in a dictionary under \<open>section:key\<close>.  Memory is
  never exhausted; \<open>iniparser_getdouble\<close> is left out.
\<close>

definition ASCIILINESZ :: nat where "ASCIILINESZ = 1024"

definition NL :: char where "NL = CHR 0x0A"

section \<open>Strings\<close>

definition strlwc :: "string \<Rightarrow> string" where
  "strlwc s = map tolower s"

definition rstrip :: "string \<Rightarrow> string" where
  "rstrip s = rev (dropWhile isspace (rev s))"

text \<open>The end is searched down to the first byte that is no blank, which the first loop found.\<close>

definition strstrip :: "string \<Rightarrow> string" where
  "strstrip s = rstrip (dropWhile isspace s)"

section \<open>One line\<close>

datatype line_status =
    LINE_ERROR
  | LINE_EMPTY
  | LINE_COMMENT
  | LINE_SECTION string
  | LINE_VALUE string string

text \<open>
  The formats of \<open>sscanf\<close>: \<open>%[^=] = \<close>, that is a key, an equals sign and blanks, and what
  follows; \<open>%[...]\<close> takes at least one character.
\<close>

definition scan_key :: "string \<Rightarrow> (string \<times> string) option" where
  "scan_key line =
     (let key = takeWhile (\<lambda>c. c \<noteq> CHR ''='') line; r = drop (length key) line in
      if key = [] \<or> r = [] then None else Some (key, dropWhile isspace (tl r)))"

definition scan_set :: "(char \<Rightarrow> bool) \<Rightarrow> string \<Rightarrow> string option" where
  "scan_set p s = (let v = takeWhile p s in if v = [] then None else Some v)"

definition scan_quoted :: "char \<Rightarrow> string \<Rightarrow> string option" where
  "scan_quoted q s = (case s of [] \<Rightarrow> None | c # cs \<Rightarrow> if c = q then scan_set (\<lambda>c. c \<noteq> q) cs else None)"

text \<open>The three usual forms of a value, then the two special ones.\<close>

definition scan_value :: "string \<Rightarrow> (string \<times> string) option" where
  "scan_value line =
     (case scan_key line of
        None \<Rightarrow> None
      | Some (key, r) \<Rightarrow>
          (case scan_quoted (CHR 0x22) r of
             Some v \<Rightarrow> Some (key, v)
           | None \<Rightarrow>
               (case scan_quoted (CHR 0x27) r of
                  Some v \<Rightarrow> Some (key, v)
                | None \<Rightarrow> map_option (\<lambda>v. (key, v)) (scan_set (\<lambda>c. c \<noteq> CHR '';'' \<and> c \<noteq> CHR ''#'') r))))"

definition scan_empty :: "string \<Rightarrow> string option" where
  "scan_empty line =
     (case scan_key line of
        None \<Rightarrow> None
      | Some (key, r) \<Rightarrow> Some key)"

text \<open>
  The buffer \<open>key\<close> has room for what precedes an equals sign, if there is one; the name of a
  section that is longer is written past its end.
\<close>

definition iniparser_line :: "string \<Rightarrow> fault + line_status" where
  "iniparser_line input_line =
     (let line = strstrip input_line; equals = strchr CHR ''='' line in
      if line = [] then Inr LINE_EMPTY
      else if line ! 0 = CHR ''#'' \<or> line ! 0 = CHR '';'' then Inr LINE_COMMENT
      else if line ! 0 = CHR ''['' \<and> last line = CHR '']'' then
        (let key = takeWhile (\<lambda>c. c \<noteq> CHR '']'') (tl line) in
         if (case equals of Some i \<Rightarrow> i + 1 < length key + 1 | None \<Rightarrow> False) then Inl OutOfBounds
         else Inr (LINE_SECTION (strlwc (strstrip key))))
      else
        (case (if equals = None then None else scan_value line) of
           Some (key, value) \<Rightarrow>
             let value = strstrip value in
             Inr (LINE_VALUE (strlwc (strstrip key))
                    (if value = [CHR 0x22, CHR 0x22] \<or> value = [CHR 0x27, CHR 0x27] then [] else value))
         | None \<Rightarrow>
             (case (if equals = None then None else scan_empty line) of
                Some key \<Rightarrow> Inr (LINE_VALUE (strlwc (strstrip key)) [])
              | None \<Rightarrow> Inr LINE_ERROR)))"

section \<open>The file\<close>

text \<open>
  \<open>fgets\<close>: at most \<open>ASCIILINESZ - 1\<close> bytes, up to a newline; whether the end of the file was
  seen; and the rest.
\<close>

definition fgets :: "string \<Rightarrow> (string \<times> bool \<times> string) option" where
  "fgets text =
     (if text = [] then None
      else
        let window = take (ASCIILINESZ - 1) text; body = takeWhile (\<lambda>c. c \<noteq> NL) window;
            line = (if length body < length window then body @ [NL] else body)
        in Some (line, length body = length window \<and> length window < ASCIILINESZ - 1, drop (length line) text))"

record load_state =
  ini_section :: string
  full_line :: "string option"
  dict :: dictionary
  errs :: nat

text \<open>What one line does; \<open>None\<close> stops the reading of the file.\<close>

definition load_line :: "string \<Rightarrow> bool \<Rightarrow> load_state \<Rightarrow> fault + load_state option" where
  "load_line line feof s =
     (let line = takeWhile (\<lambda>c. c \<noteq> CHR 0x00) line in
      if line = [] then Inl OutOfBounds
      else if length line = 1 then Inr (Some s)
      else if last line \<noteq> NL \<and> \<not> feof then Inr None
      else
        let line = rstrip line; multi_line = (line \<noteq> [] \<and> last line = CHR 0x5C);
            line = (if multi_line then butlast line else line);
            full = (case full_line s of None \<Rightarrow> [] | Some prev_line \<Rightarrow> prev_line) @ line
        in if multi_line then Inr (Some (s\<lparr>full_line := Some full\<rparr>))
           else
             after (iniparser_line full) (\<lambda>st.
               let s = s\<lparr>full_line := None\<rparr> in
               Inr (Some (case st of
                  LINE_SECTION name \<Rightarrow> s\<lparr>errs := 0, dict := dictionary_put (dict s) name None, ini_section := name\<rparr>
                | LINE_VALUE key val \<Rightarrow>
                    s\<lparr>errs := 0, dict := dictionary_put (dict s) (ini_section s @ CHR '':'' # key) (Some val)\<rparr>
                | LINE_ERROR \<Rightarrow> s\<lparr>errs := errs s + 1\<rparr>
                | _ \<Rightarrow> s))))"

function load_lines :: "string \<Rightarrow> load_state \<Rightarrow> fault + dictionary option" where
  "load_lines text s =
     (case fgets text of
        None \<Rightarrow> Inr (if errs s \<noteq> 0 then None else Some (dict s))
      | Some (line, feof, text') \<Rightarrow>
          (case load_line line feof s of
             Inl f \<Rightarrow> Inl f
           | Inr None \<Rightarrow> Inr None
           | Inr (Some s) \<Rightarrow> load_lines text' s))"
  by pat_completeness auto
termination
proof (relation "measure (\<lambda>(content, s). length content)")
  fix content line content' :: string and feof :: bool and x r and s s' :: load_state
  assume "fgets content = Some x" "(line, r) = x" "(feof, content') = r"
  then have "content' = drop (length line) content" "content \<noteq> []" "line \<noteq> []"
    by (auto simp: fgets_def Let_def ASCIILINESZ_def split: if_splits)
  then show "((content', s'), content, s) \<in> measure (\<lambda>(content, s). length content)"
    by (cases content) auto
qed simp

declare load_lines.simps [simp del]

definition load_start :: load_state where
  "load_start = \<lparr>ini_section = [], full_line = None, dict = dictionary_new 0, errs = 0\<rparr>"

definition iniparser_load :: "filesystem \<Rightarrow> string \<Rightarrow> fault + dictionary option" where
  "iniparser_load fs ininame =
     (case read_file ininame fs of None \<Rightarrow> Inr None | Some text \<Rightarrow> load_lines text load_start)"

section \<open>Access\<close>

text \<open>The entries in the order of the table.\<close>

definition entries :: "dictionary \<Rightarrow> (string \<times> string option) list" where
  "entries d = concat (map (\<lambda>x. case x of None \<Rightarrow> [] | Some (k, v, _) \<Rightarrow> [(k, v)]) (slots d))"

definition section_names :: "dictionary \<Rightarrow> string list" where
  "section_names d = filter (\<lambda>k. CHR '':'' \<notin> set k) (map fst (entries d))"

definition iniparser_getnsec :: "dictionary \<Rightarrow> nat" where
  "iniparser_getnsec d = length (section_names d)"

definition iniparser_getsecname :: "dictionary \<Rightarrow> int \<Rightarrow> string option" where
  "iniparser_getsecname d n =
     (if n < 0 \<or> int (length (section_names d)) \<le> n then None else Some (section_names d ! nat n))"

definition iniparser_getstring :: "dictionary option \<Rightarrow> string option \<Rightarrow> string option \<Rightarrow> string option" where
  "iniparser_getstring d key def =
     (case (d, key) of
        (Some d, Some key) \<Rightarrow> dictionary_get d (strlwc key) def
      | _ \<Rightarrow> def)"

text \<open>
  \<open>iniparser_getstring\<close> with the invalid pointer as default: \<open>None\<close> stands for this pointer,
  \<open>Some None\<close> for NULL, the value of a section.
\<close>

definition getstring_or_invalid :: "dictionary \<Rightarrow> string \<Rightarrow> string option option" where
  "getstring_or_invalid d key = dict_lookup d (strlwc key)"

definition iniparser_find_entry :: "dictionary \<Rightarrow> string \<Rightarrow> bool" where
  "iniparser_find_entry d entry \<longleftrightarrow> getstring_or_invalid d entry \<noteq> None"

definition iniparser_set :: "dictionary \<Rightarrow> string \<Rightarrow> string option \<Rightarrow> dictionary" where
  "iniparser_set d entry val = dictionary_put d (strlwc entry) val"

definition iniparser_unset :: "dictionary \<Rightarrow> string \<Rightarrow> dictionary" where
  "iniparser_unset d entry = dictionary_unset d (Some (strlwc entry))"

definition iniparser_getboolean :: "dictionary \<Rightarrow> string \<Rightarrow> int \<Rightarrow> fault + int" where
  "iniparser_getboolean d key notfound =
     (case getstring_or_invalid d key of
        None \<Rightarrow> Inr notfound
      | Some None \<Rightarrow> Inl NullDeref
      | Some (Some []) \<Rightarrow> Inr notfound
      | Some (Some (c # _)) \<Rightarrow>
          Inr (if c \<in> {CHR ''y'', CHR ''Y'', CHR ''1'', CHR ''t'', CHR ''T''} then 1
               else if c \<in> {CHR ''n'', CHR ''N'', CHR ''0'', CHR ''f'', CHR ''F''} then 0
               else notfound))"

text \<open>\<open>strtol\<close> with base 0: an optional sign, then a hexadecimal, octal or decimal number, clamped to a \<open>long\<close>.\<close>

definition digit_value :: "char \<Rightarrow> nat" where
  "digit_value c =
     (if isdigit c then code c - 48
      else if 97 \<le> code (tolower c) \<and> code (tolower c) \<le> 122 then code (tolower c) - 87 else 99)"

fun strtol_digits :: "nat \<Rightarrow> int \<Rightarrow> string \<Rightarrow> int" where
  "strtol_digits radix acc [] = acc"
| "strtol_digits radix acc (c # cs) =
     (if digit_value c < radix then strtol_digits radix (acc * int radix + int (digit_value c)) cs else acc)"

definition strtol_magnitude :: "string \<Rightarrow> int" where
  "strtol_magnitude s =
     (if take 1 s = ''0'' \<and> map tolower (take 1 (drop 1 s)) = ''x'' \<and> (\<exists>c \<in> set (take 1 (drop 2 s)). digit_value c < 16)
      then strtol_digits 16 0 (drop 2 s)
      else if take 1 s = ''0'' then strtol_digits 8 0 s
      else strtol_digits 10 0 s)"

definition strtol :: "string \<Rightarrow> int" where
  "strtol s =
     (let s = dropWhile isspace s;
          v = (if take 1 s = ''-'' then - strtol_magnitude (tl s)
               else if take 1 s = ''+'' then strtol_magnitude (tl s) else strtol_magnitude s)
      in max (- (2 ^ 63)) (min (2 ^ 63 - 1) v))"

definition iniparser_getint :: "dictionary \<Rightarrow> string \<Rightarrow> int \<Rightarrow> fault + int" where
  "iniparser_getint d key notfound =
     (case getstring_or_invalid d key of
        None \<Rightarrow> Inr notfound
      | Some None \<Rightarrow> Inl NullDeref
      | Some (Some str) \<Rightarrow> Inr (sint (word_of_int (strtol str) :: 32 word)))"

section \<open>Printing\<close>

definition iniparser_dump :: "dictionary \<Rightarrow> string" where
  "iniparser_dump d = concat (map (\<lambda>(k, v). case v of
      Some x \<Rightarrow> ''['' @ k @ '']=['' @ x @ '']'' @ [NL]
    | None \<Rightarrow> ''['' @ k @ '']=UNDEF'' @ [NL]) (entries d))"

text \<open>The keys of a section, those that start with \<open>s:\<close>, without this prefix.\<close>

definition section_entries :: "dictionary \<Rightarrow> string \<Rightarrow> (string \<times> string option) list" where
  "section_entries d s = filter (\<lambda>(k, v). take (length s + 1) k = s @ '':'') (entries d)"

definition iniparser_getsecnkeys :: "dictionary \<Rightarrow> string \<Rightarrow> nat" where
  "iniparser_getsecnkeys d s = (if iniparser_find_entry d s then length (section_entries d s) else 0)"

definition iniparser_getseckeys :: "dictionary \<Rightarrow> string \<Rightarrow> string list option" where
  "iniparser_getseckeys d s = (if iniparser_find_entry d s then Some (map fst (section_entries d s)) else None)"

definition pad30 :: "string \<Rightarrow> string" where
  "pad30 s = s @ replicate (30 - length s) CHR '' ''"

definition iniparser_dumpsection_ini :: "dictionary \<Rightarrow> string \<Rightarrow> string" where
  "iniparser_dumpsection_ini d s =
     (if \<not> iniparser_find_entry d s then []
      else [NL] @ ''['' @ s @ '']'' @ [NL]
        @ concat (map (\<lambda>(k, v). pad30 (drop (length s + 1) k) @ '' = '' @ (case v of Some x \<Rightarrow> x | None \<Rightarrow> []) @ [NL])
            (section_entries d s))
        @ [NL])"

text \<open>Without a section the values are printed as they are; a NULL value cannot be printed.\<close>

definition iniparser_dump_ini :: "dictionary \<Rightarrow> fault + string" where
  "iniparser_dump_ini d =
     (if iniparser_getnsec d < 1 then
        (if list_all (\<lambda>(k, v). v \<noteq> None) (entries d)
         then Inr (concat (map (\<lambda>(k, v). k @ '' = '' @ the v @ [NL]) (entries d)))
         else Inl NullDeref)
      else Inr (concat (map (iniparser_dumpsection_ini d) (section_names d)) @ [NL]))"

section \<open>Reading what was written\<close>

lemma entries_lookup:
  assumes "dict_ok d"
  shows "(k, v) \<in> set (entries d) \<longleftrightarrow> dict_lookup d k = Some v"
proof -
  have "(k, v) \<in> set (entries d) \<longleftrightarrow> (\<exists>h. Some (k, v, h) \<in> set (slots d))"
    by (force simp: entries_def split: option.splits)
  also have "\<dots> \<longleftrightarrow> (\<exists>i h. holds (slots d) i k v h)"
    by (auto simp: holds_def in_set_conv_nth)
  finally show ?thesis using lookup_iff [OF assms] by simp
qed

text \<open>A line that can stand in a file, and the state after it.\<close>

definition plain_line :: "string \<Rightarrow> bool" where
  "plain_line l \<longleftrightarrow> NL \<notin> set l \<and> CHR 0x00 \<notin> set l \<and> length l < ASCIILINESZ - 1
     \<and> (rstrip l \<noteq> [] \<longrightarrow> last (rstrip l) \<noteq> CHR 0x5C)"

definition apply_line :: "line_status \<Rightarrow> load_state \<Rightarrow> load_state" where
  "apply_line st s = (case st of
      LINE_SECTION name \<Rightarrow> s\<lparr>errs := 0, dict := dictionary_put (dict s) name None, ini_section := name\<rparr>
    | LINE_VALUE key val \<Rightarrow> s\<lparr>errs := 0, dict := dictionary_put (dict s) (ini_section s @ CHR '':'' # key) (Some val)\<rparr>
    | LINE_ERROR \<Rightarrow> s\<lparr>errs := errs s + 1\<rparr>
    | _ \<Rightarrow> s)"

lemma rstrip_snoc_space: "isspace c \<Longrightarrow> rstrip (s @ [c]) = rstrip s"
  by (simp add: rstrip_def)

lemma NL_space [simp]: "isspace NL"
  by (simp add: isspace_def NL_def)

lemma rstrip_rstrip [simp]: "rstrip (rstrip s) = rstrip s"
proof -
  have "dropWhile isspace (dropWhile isspace xs) = dropWhile isspace xs" for xs :: string
    by (induction xs) auto
  then show ?thesis by (simp add: rstrip_def)
qed

lemma load_line_plain:
  assumes "plain_line l" and "full_line s = None" and "iniparser_line (rstrip l) = Inr st"
  shows "load_line (l @ [NL]) False s = Inr (Some (apply_line st s))"
proof (cases "l = []")
  case True
  then have "st = LINE_EMPTY" using assms(3) by (simp add: rstrip_def iniparser_line_def strstrip_def)
  then show ?thesis using True by (simp add: load_line_def NL_def apply_line_def)
next
  case False
  have "takeWhile (\<lambda>c. c \<noteq> CHR 0x00) (l @ [NL]) = l @ [NL]"
    using assms(1) by (auto simp: plain_line_def NL_def takeWhile_eq_all_conv)
  moreover have "(rstrip l \<noteq> [] \<and> last (rstrip l) = CHR 0x5C) = False"
    using assms(1) by (auto simp: plain_line_def)
  moreover have "full_line s = None \<Longrightarrow> s\<lparr>full_line := None\<rparr> = s" by simp
  ultimately show ?thesis
    using False assms(2,3) unfolding load_line_def Let_def
    by (simp only: rstrip_snoc_space NL_space if_False)
       (simp add: apply_line_def split: line_status.splits)
qed

lemma fgets_plain:
  assumes "plain_line l"
  shows "fgets (l @ NL # rest) = Some (l @ [NL], False, rest)"
proof -
  let ?w = "take (ASCIILINESZ - 1) (l @ NL # rest)"
  obtain w where w: "?w = l @ NL # w"
    using assms by (cases "ASCIILINESZ - 1 - length l") (auto simp: plain_line_def)
  have "takeWhile (\<lambda>c. c \<noteq> NL) ?w = l"
    using assms unfolding w by (auto simp: plain_line_def takeWhile_append)
  then show ?thesis unfolding fgets_def Let_def w by simp
qed

lemma load_lines_plain:
  "list_all2 (\<lambda>l st. plain_line l \<and> iniparser_line (rstrip l) = Inr st) ls sts \<Longrightarrow> full_line s = None \<Longrightarrow>
     load_lines (concat (map (\<lambda>l. l @ [NL]) ls) @ rest) s = load_lines rest (fold apply_line sts s)"
proof (induction ls sts arbitrary: s rule: list_all2_induct)
  case (Cons l ls st sts)
  have "full_line (apply_line st s) = None" using Cons.prems by (simp add: apply_line_def split: line_status.split)
  from Cons.IH [OF this] show ?case
    using Cons.hyps(1) Cons.prems by (subst load_lines.simps) (simp add: fgets_plain load_line_plain)
qed simp

lemma load_lines_end: "load_lines [] s = Inr (if errs s \<noteq> 0 then None else Some (dict s))"
  by (subst load_lines.simps) (simp add: fgets_def)

section \<open>Lines that are read back\<close>

definition trimmed :: "string \<Rightarrow> bool" where
  "trimmed s \<longleftrightarrow> s = [] \<or> \<not> isspace (hd s) \<and> \<not> isspace (last s)"

definition one_line :: "string \<Rightarrow> bool" where
  "one_line s \<longleftrightarrow> trimmed s \<and> NL \<notin> set s \<and> CHR 0x00 \<notin> set s"

definition name_ok :: "string \<Rightarrow> bool" where
  "name_ok n \<longleftrightarrow> one_line n \<and> strlwc n = n \<and> CHR '']'' \<notin> set n \<and> CHR ''='' \<notin> set n \<and> CHR '':'' \<notin> set n
     \<and> length n + 2 < ASCIILINESZ - 1"

definition key_ok :: "string \<Rightarrow> bool" where
  "key_ok k \<longleftrightarrow> one_line k \<and> k \<noteq> [] \<and> strlwc k = k \<and> CHR ''='' \<notin> set k
     \<and> hd k \<notin> {CHR ''#'', CHR '';'', CHR ''[''}"

definition value_ok :: "string \<Rightarrow> bool" where
  "value_ok v \<longleftrightarrow> one_line v \<and> CHR '';'' \<notin> set v \<and> CHR ''#'' \<notin> set v
     \<and> (v \<noteq> [] \<longrightarrow> hd v \<notin> {CHR 0x22, CHR 0x27} \<and> last v \<noteq> CHR 0x5C)"

lemma rstrip_last: "s \<noteq> [] \<Longrightarrow> \<not> isspace (last s) \<Longrightarrow> rstrip s = s"
  by (cases s rule: rev_cases) (simp_all add: rstrip_def)

lemma rstrip_spaces: "list_all isspace sp \<Longrightarrow> rstrip (s @ sp) = rstrip s"
proof (induction sp rule: rev_induct)
  case (snoc c sp)
  then have "rstrip ((s @ sp) @ [c]) = rstrip (s @ sp)" by (intro rstrip_snoc_space) simp
  then show ?case using snoc by simp
qed simp

lemma strstrip_spaces: "trimmed s \<Longrightarrow> s \<noteq> [] \<Longrightarrow> list_all isspace sp \<Longrightarrow> strstrip (s @ sp) = s"
proof -
  assume s: "trimmed s" "s \<noteq> []" "list_all isspace sp"
  then have "dropWhile isspace (s @ sp) = s @ sp" by (cases s) (auto simp: trimmed_def)
  then show ?thesis using s by (simp add: strstrip_def rstrip_spaces rstrip_last trimmed_def)
qed

lemma strstrip_trimmed [simp]: "trimmed s \<Longrightarrow> strstrip s = s"
  using strstrip_spaces [of s "[]"] by (cases "s = []") (simp_all add: strstrip_def rstrip_def)

lemma rstrip_trimmed: "trimmed s \<Longrightarrow> rstrip s = s"
  by (cases "s = []") (simp_all add: trimmed_def rstrip_last, simp add: rstrip_def)

lemma blank_line: "plain_line [] \<and> iniparser_line (rstrip []) = Inr LINE_EMPTY"
  by (simp add: plain_line_def rstrip_def iniparser_line_def strstrip_def ASCIILINESZ_def)

lemma section_line:
  assumes "name_ok n"
  shows "plain_line (''['' @ n @ '']'') \<and> iniparser_line (rstrip (''['' @ n @ '']'')) = Inr (LINE_SECTION n)"
proof -
  let ?l = "CHR ''['' # n @ [CHR '']'']"
  have t: "trimmed ?l" by (simp add: trimmed_def isspace_def)
  have "takeWhile (\<lambda>c. c \<noteq> CHR '']'') (n @ [CHR '']'']) = n"
    using assms by (auto simp: name_ok_def takeWhile_append)
  moreover have "strchr CHR ''='' ?l = None" using assms by (simp add: strchr_def name_ok_def)
  ultimately have "iniparser_line ?l = Inr (LINE_SECTION n)"
    using assms t by (simp add: iniparser_line_def Let_def name_ok_def one_line_def)
  then show ?thesis
    using assms t by (auto simp: plain_line_def rstrip_trimmed name_ok_def one_line_def NL_def)
qed

lemma scan_key_at:
  assumes "CHR ''='' \<notin> set k" and "k \<noteq> []"
  shows "scan_key (k @ CHR ''='' # r) = Some (k, dropWhile isspace r)"
  using assms by (simp add: scan_key_def takeWhile_neq_append)

lemma rstrip_value:
  assumes "value_ok v"
  shows "rstrip (p @ '' = '' @ v) = (p @ '' '') @ CHR ''='' # (if v = [] then [] else CHR '' '' # v)"
    and "\<not> isspace (last ((p @ '' '') @ CHR ''='' # (if v = [] then [] else CHR '' '' # v)))"
    and "last ((p @ '' '') @ CHR ''='' # (if v = [] then [] else CHR '' '' # v)) \<noteq> CHR 0x5C"
proof -
  let ?l = "(p @ '' '') @ CHR ''='' # (if v = [] then [] else CHR '' '' # v)"
  have sp: "isspace CHR '' ''" by (simp add: isspace_def)
  show last: "\<not> isspace (last ?l)" "last ?l \<noteq> CHR 0x5C"
    using assms by (auto simp: value_ok_def one_line_def trimmed_def isspace_def)
  show "rstrip (p @ '' = '' @ v) = ?l"
  proof (cases "v = []")
    case True
    then have "p @ '' = '' @ v = ?l @ '' ''" by simp
    then have "rstrip (p @ '' = '' @ v) = rstrip ?l" using rstrip_snoc_space [OF sp] by metis
    then show ?thesis using last(1) rstrip_last by auto
  next
    case False
    then have "p @ '' = '' @ v = ?l" by simp
    then show ?thesis using last(1) rstrip_last by auto
  qed
qed

lemma value_line:
  assumes k: "key_ok k" and v: "value_ok v" and len: "length (pad30 k @ '' = '' @ v) < ASCIILINESZ - 1"
  shows "plain_line (pad30 k @ '' = '' @ v) \<and> iniparser_line (rstrip (pad30 k @ '' = '' @ v)) = Inr (LINE_VALUE k v)"
proof -
  let ?k = "pad30 k @ '' ''" and ?r = "if v = [] then [] else CHR '' '' # v"
  let ?l = "?k @ CHR ''='' # ?r"
  have sp: "isspace CHR '' ''" by (simp add: isspace_def)
  have hd: "k \<noteq> []" "\<not> isspace (hd k)" "?k \<noteq> []" "hd ?l = hd k" "?l ! 0 = hd k"
    using k by (auto simp: key_ok_def one_line_def trimmed_def pad30_def nth_append hd_conv_nth)
  have eqs: "CHR ''='' \<notin> set ?k" using k by (auto simp: key_ok_def pad30_def)
  note rs = rstrip_value(1) [OF v, of "pad30 k"] and last = rstrip_value(2,3) [OF v, of "pad30 k"]
  have strip: "strstrip ?l = ?l" using hd(2,4) last(1) by (intro strstrip_trimmed) (simp add: trimmed_def)
  have str: "strchr CHR ''='' ?l \<noteq> None" by (simp add: strchr_None)
  have key: "strlwc (strstrip ?k) = k"
  proof -
    have "strstrip (k @ (replicate (30 - length k) CHR '' '' @ '' '')) = k"
      using k sp by (intro strstrip_spaces) (auto simp: key_ok_def one_line_def list_all_iff)
    then show ?thesis using k by (simp add: pad30_def key_ok_def)
  qed
  have drop: "dropWhile isspace ?r = v"
    using v sp by (cases v) (auto simp: value_ok_def one_line_def trimmed_def)
  have scan: "scan_key ?l = Some (?k, v)" using scan_key_at [OF eqs hd(3), of ?r] drop by simp
  have hash: "?l ! 0 \<noteq> CHR ''#''" "?l ! 0 \<noteq> CHR '';''" "?l ! 0 \<noteq> CHR ''[''"
    using k unfolding hd(5) by (auto simp: key_ok_def)
  have "iniparser_line ?l = Inr (LINE_VALUE k v)"
  proof (cases "v = []")
    case True
    have "scan_value ?l = None" using scan True unfolding scan_value_def by (simp add: scan_quoted_def scan_set_def)
    moreover have "scan_empty ?l = Some ?k" using scan by (simp add: scan_empty_def)
    ultimately show ?thesis
      unfolding iniparser_line_def strip Let_def using str hash key True by simp
  next
    case False
    have q: "scan_quoted (CHR 0x22) v = None" "scan_quoted (CHR 0x27) v = None"
      using v False by (auto simp: scan_quoted_def value_ok_def split: list.splits)
    have "takeWhile (\<lambda>c. c \<noteq> CHR '';'' \<and> c \<noteq> CHR ''#'') v = v"
      using v by (auto simp: value_ok_def takeWhile_eq_all_conv)
    then have "scan_set (\<lambda>c. c \<noteq> CHR '';'' \<and> c \<noteq> CHR ''#'') v = Some v"
      using False unfolding scan_set_def Let_def by (simp only: if_False)
    then have "scan_value ?l = Some (?k, v)" using scan q unfolding scan_value_def by simp
    moreover have "v \<noteq> [CHR 0x22, CHR 0x22]" "v \<noteq> [CHR 0x27, CHR 0x27]" "strstrip v = v"
      using v False by (auto simp: value_ok_def one_line_def)
    ultimately show ?thesis
      unfolding iniparser_line_def strip Let_def using str hash key by simp
  qed
  moreover have "plain_line (pad30 k @ '' = '' @ v)"
    unfolding plain_line_def rs
    using last(2) len k v by (auto simp: key_ok_def value_ok_def one_line_def pad30_def NL_def)
  ultimately show ?thesis unfolding rs by simp
qed

section \<open>Writing and reading a configuration\<close>

text \<open>
  A configuration that the written text can carry: sections, values under the name of a section,
  and neither names, keys nor values that the reader takes apart (the writer quotes nothing).
\<close>

definition config_ok :: "dictionary \<Rightarrow> bool" where
  "config_ok d \<longleftrightarrow> dict_ok d \<and> section_names d \<noteq> []
     \<and> (\<forall>k v. (k, v) \<in> set (entries d) \<longrightarrow>
          (if CHR '':'' \<in> set k
           then \<exists>s key val. k = s @ CHR '':'' # key \<and> v = Some val \<and> (s, None) \<in> set (entries d) \<and> CHR '':'' \<notin> set s
                  \<and> key_ok key \<and> value_ok val \<and> length (pad30 key @ '' = '' @ val) < ASCIILINESZ - 1
           else v = None \<and> name_ok k))"

lemma config_entry:
  assumes "config_ok d" and "(k, v) \<in> set (entries d)"
  shows "CHR '':'' \<notin> set k \<Longrightarrow> v = None \<and> name_ok k"
    and "CHR '':'' \<in> set k \<Longrightarrow> \<exists>s key val. k = s @ CHR '':'' # key \<and> v = Some val \<and> (s, None) \<in> set (entries d)
      \<and> CHR '':'' \<notin> set s \<and> key_ok key \<and> value_ok val \<and> length (pad30 key @ '' = '' @ val) < ASCIILINESZ - 1"
proof -
  have "if CHR '':'' \<in> set k
     then \<exists>s key val. k = s @ CHR '':'' # key \<and> v = Some val \<and> (s, None) \<in> set (entries d) \<and> CHR '':'' \<notin> set s
            \<and> key_ok key \<and> value_ok val \<and> length (pad30 key @ '' = '' @ val) < ASCIILINESZ - 1
     else v = None \<and> name_ok k"
    using assms unfolding config_ok_def by blast
  then show "CHR '':'' \<notin> set k \<Longrightarrow> v = None \<and> name_ok k"
    "CHR '':'' \<in> set k \<Longrightarrow> \<exists>s key val. k = s @ CHR '':'' # key \<and> v = Some val \<and> (s, None) \<in> set (entries d)
      \<and> CHR '':'' \<notin> set s \<and> key_ok key \<and> value_ok val \<and> length (pad30 key @ '' = '' @ val) < ASCIILINESZ - 1"
    by (simp_all only: if_True if_False simp_thms)
qed

text \<open>The lines of a section and of the file, with what each stands for.\<close>

definition value_lines :: "dictionary \<Rightarrow> string \<Rightarrow> (string \<times> string) list" where
  "value_lines d s = map (\<lambda>(k, v). (drop (length s + 1) k, case v of Some x \<Rightarrow> x | None \<Rightarrow> [])) (section_entries d s)"

definition section_lines :: "dictionary \<Rightarrow> string \<Rightarrow> string list" where
  "section_lines d s = [[], ''['' @ s @ '']''] @ map (\<lambda>(k, v). pad30 k @ '' = '' @ v) (value_lines d s) @ [[]]"

definition section_status :: "dictionary \<Rightarrow> string \<Rightarrow> line_status list" where
  "section_status d s = [LINE_EMPTY, LINE_SECTION s] @ map (\<lambda>(k, v). LINE_VALUE k v) (value_lines d s) @ [LINE_EMPTY]"

lemma dump_lines:
  assumes "iniparser_find_entry d s"
  shows "iniparser_dumpsection_ini d s = concat (map (\<lambda>l. l @ [NL]) (section_lines d s))"
  using assms
  by (simp add: iniparser_dumpsection_ini_def section_lines_def value_lines_def o_def case_prod_unfold)

lemma section_entry:
  assumes ok: "config_ok d" and s: "(s, None) \<in> set (entries d)" "CHR '':'' \<notin> set s" and kv: "(k, v) \<in> set (section_entries d s)"
  shows "\<exists>key val. k = s @ CHR '':'' # key \<and> v = Some val \<and> key_ok key \<and> value_ok val
    \<and> length (pad30 key @ '' = '' @ val) < ASCIILINESZ - 1"
proof -
  have e: "(k, v) \<in> set (entries d)" and p: "take (length s + 1) k = s @ '':''"
    using kv by (auto simp: section_entries_def)
  have k: "k = s @ CHR '':'' # drop (length s + 1) k" using p append_take_drop_id [of "length s + 1" k] by simp
  then have "CHR '':'' \<in> set k" by (metis in_set_conv_decomp)
  then obtain s' key val where *: "k = s' @ CHR '':'' # key" "v = Some val" "CHR '':'' \<notin> set s'"
    "key_ok key" "value_ok val" "length (pad30 key @ '' = '' @ val) < ASCIILINESZ - 1"
    using config_entry(2) [OF ok e] by blast
  then have "s' = s \<and> key = drop (length s + 1) k" using k s(2) append_sep_inject [of "CHR '':''" s' s key "drop (length s + 1) k"] by simp
  then show ?thesis using * by blast
qed

lemma section_line_statuses:
  assumes "config_ok d" and "(s, None) \<in> set (entries d)" and "CHR '':'' \<notin> set s"
  shows "list_all2 (\<lambda>l st. plain_line l \<and> iniparser_line (rstrip l) = Inr st) (section_lines d s) (section_status d s)"
proof -
  have "name_ok s" using config_entry(1) [OF assms(1,2)] assms(3) by blast
  moreover have "plain_line (pad30 k @ '' = '' @ v) \<and> iniparser_line (rstrip (pad30 k @ '' = '' @ v)) = Inr (LINE_VALUE k v)"
    if "(k, v) \<in> set (value_lines d s)" for k v
    using section_entry [OF assms] that value_line by (fastforce simp: value_lines_def)
  ultimately show ?thesis
    using blank_line section_line
    by (simp add: section_lines_def section_status_def list_all2_append list_all2_map1 list_all2_map2 list.rel_refl_strong split_beta)
qed

text \<open>What a section leaves in the dictionary.\<close>

definition put_all :: "(string \<times> string option) list \<Rightarrow> dictionary \<Rightarrow> dictionary" where
  "put_all kvs d = fold (\<lambda>(k, v) d. dictionary_put d k v) kvs d"

lemma apply_values:
  "fold apply_line (map (\<lambda>(k, v). LINE_VALUE k v) kvs) s =
     (if kvs = [] then s
      else s\<lparr>errs := 0, dict := put_all (map (\<lambda>(k, v). (ini_section s @ CHR '':'' # k, Some v)) kvs) (dict s)\<rparr>)"
  by (induction kvs arbitrary: s) (auto simp: apply_line_def put_all_def)

lemma apply_section:
  assumes "config_ok d" and "(s, None) \<in> set (entries d)" and "CHR '':'' \<notin> set s"
  shows "fold apply_line (section_status d s) st =
    st\<lparr>errs := 0, ini_section := s, dict := put_all ((s, None) # section_entries d s) (dict st)\<rparr>"
proof -
  have "map (\<lambda>(k, v). (s @ CHR '':'' # k, Some v)) (value_lines d s) = section_entries d s"
    unfolding value_lines_def map_map
  proof (rule map_idI)
    fix kv assume e: "kv \<in> set (section_entries d s)"
    obtain k v where kv: "kv = (k, v)" by fastforce
    show "((\<lambda>(k, v). (s @ CHR '':'' # k, Some v)) \<circ> (\<lambda>(k, v). (drop (length s + 1) k, case v of Some x \<Rightarrow> x | None \<Rightarrow> []))) kv = kv"
      using section_entry [OF assms, of k v] e by (auto simp: kv)
  qed
  moreover have "value_lines d s = [] \<longleftrightarrow> section_entries d s = []" by (simp add: value_lines_def)
  ultimately show ?thesis
    by (simp add: section_status_def apply_values apply_line_def put_all_def)
qed

lemma put_all_lookup:
  assumes "dict_ok d" and "\<forall>(k, v) \<in> set kvs. m k = Some v"
  shows "dict_ok (put_all kvs d) \<and> dict_lookup (put_all kvs d) = (\<lambda>k. if k \<in> fst ` set kvs then m k else dict_lookup d k)"
  using assms
proof (induction kvs arbitrary: d)
  case (Cons kv kvs)
  obtain k v where kv: "kv = (k, v)" by fastforce
  have "put_all (kv # kvs) d = put_all kvs (dictionary_put d k v)" by (simp add: put_all_def kv)
  then show ?case
    using Cons.IH [of "dictionary_put d k v"] put_keeps [OF Cons.prems(1), of k v] Cons.prems(2)
    by (auto simp: kv fun_eq_iff)
qed (simp add: put_all_def)

definition file_entries :: "dictionary \<Rightarrow> string list \<Rightarrow> (string \<times> string option) list" where
  "file_entries d names = concat (map (\<lambda>s. (s, None) # section_entries d s) names)"

lemma load_sections:
  assumes ok: "config_ok d" and names: "\<forall>s \<in> set names. (s, None) \<in> set (entries d) \<and> CHR '':'' \<notin> set s"
  shows "full_line st = None \<Longrightarrow> errs st = 0 \<Longrightarrow> \<exists>sec.
    load_lines (concat (map (iniparser_dumpsection_ini d) names) @ rest) st
      = load_lines rest (st\<lparr>ini_section := sec, dict := put_all (file_entries d names) (dict st)\<rparr>)"
  using names
proof (induction names arbitrary: st)
  case Nil
  then show ?case by (intro exI [of _ "ini_section st"]) (simp add: put_all_def file_entries_def)
next
  case (Cons s names)
  have s: "(s, None) \<in> set (entries d)" "CHR '':'' \<notin> set s" using Cons.prems by auto
  then have "name_ok s" using config_entry(1) [OF ok] by blast
  moreover have "dict_lookup d s = Some None" using s ok entries_lookup by (simp add: config_ok_def)
  ultimately have "iniparser_find_entry d s" by (simp add: iniparser_find_entry_def getstring_or_invalid_def name_ok_def)
  note dump = dump_lines [OF this]
  let ?st = "st\<lparr>errs := 0, ini_section := s, dict := put_all ((s, None) # section_entries d s) (dict st)\<rparr>"
  obtain sec where "load_lines (concat (map (iniparser_dumpsection_ini d) names) @ rest) ?st
      = load_lines rest (?st\<lparr>ini_section := sec, dict := put_all (file_entries d names) (dict ?st)\<rparr>)"
    using Cons.IH [of ?st] Cons.prems by auto
  moreover have "put_all (file_entries d names) (dict ?st) = put_all (file_entries d (s # names)) (dict st)"
    by (simp add: put_all_def file_entries_def)
  moreover have "?st\<lparr>ini_section := sec, dict := x\<rparr> = st\<lparr>ini_section := sec, dict := x\<rparr>" for x
    using Cons.prems(2) by simp
  ultimately show ?case
    using load_lines_plain [OF section_line_statuses [OF ok s] Cons.prems(1)] apply_section [OF ok s]
    by (auto simp: dump)
qed

lemma section_names_entries:
  assumes "config_ok d"
  shows "s \<in> set (section_names d) \<longleftrightarrow> (s, None) \<in> set (entries d) \<and> CHR '':'' \<notin> set s"
proof
  assume "s \<in> set (section_names d)"
  then obtain v where v: "(s, v) \<in> set (entries d)" "CHR '':'' \<notin> set s" by (auto simp: section_names_def)
  then have "v = None" using config_entry(1) [OF assms] by blast
  then show "(s, None) \<in> set (entries d) \<and> CHR '':'' \<notin> set s" using v by simp
qed (force simp: section_names_def)

lemma file_entries_all:
  assumes ok: "config_ok d"
  shows "set (file_entries d (section_names d)) = set (entries d)"
proof (intro set_eqI iffI)
  fix kv assume "kv \<in> set (file_entries d (section_names d))"
  then show "kv \<in> set (entries d)"
    using section_names_entries [OF ok] by (auto simp: file_entries_def section_entries_def)
next
  fix kv assume kv: "kv \<in> set (entries d)"
  obtain k v where [simp]: "kv = (k, v)" by fastforce
  have e: "(k, v) \<in> set (entries d)" using kv by simp
  show "kv \<in> set (file_entries d (section_names d))"
  proof (cases "CHR '':'' \<in> set k")
    case True
    then obtain s key where "k = s @ CHR '':'' # key" "(s, None) \<in> set (entries d)" "CHR '':'' \<notin> set s"
      using config_entry(2) [OF ok e] by blast
    then have "s \<in> set (section_names d)" "(k, v) \<in> set (section_entries d s)"
      using section_names_entries [OF ok] kv by (simp_all add: section_entries_def)
    then show ?thesis by (auto simp: file_entries_def)
  next
    case False
    then have "k \<in> set (section_names d)" "v = None"
      using config_entry(1) [OF ok e] e section_names_entries [OF ok] by auto
    then show ?thesis by (auto simp: file_entries_def)
  qed
qed

text \<open>
  C22: a configuration of the shape \<open>config_ok\<close> that is written with \<open>iniparser_dump_ini\<close> and
  read with \<open>iniparser_load\<close> comes back: the load succeeds, every key has the value it had, and
  no key is added.  The shape: there is at least one section, and every key is \<open>section:key\<close> for a
  section of the dictionary; section names and keys are lower case, trimmed and of one line, without
  \<open>=\<close> (a section name also without \<open>]\<close> and \<open>:\<close>), and a key starts with none of \<open>#\<close>, \<open>;\<close>,
  \<open>[\<close>; values are trimmed and of one line, hold neither \<open>;\<close> nor \<open>#\<close>, do not start with a quote
  and do not end with a backslash; and each written line fits the reader's buffer.  Outside the
  shape the text does not come back: the writer quotes nothing, so \<open>a;b\<close> is read as \<open>a\<close>.
\<close>

theorem ini_roundtrip:
  assumes "config_ok d" and "iniparser_dump_ini d = Inr content" and "read_file path fs = Some content"
  shows "\<exists>d'. iniparser_load fs path = Inr (Some d') \<and> dict_lookup d' = dict_lookup d"
proof -
  have content: "content = concat (map (iniparser_dumpsection_ini d) (section_names d)) @ [NL]"
    using assms(1,2) by (simp add: iniparser_dump_ini_def iniparser_getnsec_def config_ok_def split: if_splits)
  let ?d = "put_all (file_entries d (section_names d)) (dictionary_new 0)"
  obtain sec where "load_lines content load_start
      = load_lines [NL] (load_start\<lparr>ini_section := sec, dict := ?d\<rparr>)"
    using load_sections [OF assms(1), of "section_names d" load_start "[NL]"] section_names_entries [OF assms(1)]
    unfolding content by (auto simp: load_start_def)
  moreover have "load_lines [NL] s = Inr (if errs s \<noteq> 0 then None else Some (dict s))" if "full_line s = None" for s
    using load_lines_plain [of "[[]]" "[LINE_EMPTY]" s "[]"] blank_line that
    by (simp add: load_lines_end apply_line_def)
  ultimately have "iniparser_load fs path = Inr (Some ?d)"
    using assms(3) by (simp add: iniparser_load_def load_start_def)
  moreover have "dict_lookup ?d = dict_lookup d"
  proof -
    have ok: "dict_ok d" using assms(1) by (simp add: config_ok_def)
    have "\<forall>(k, v) \<in> set (file_entries d (section_names d)). dict_lookup d k = Some v"
      unfolding file_entries_all [OF assms(1)] using entries_lookup [OF ok] by auto
    from put_all_lookup [OF dict_ok_new this, of 0]
    have "dict_lookup ?d = (\<lambda>k. if k \<in> fst ` set (entries d) then dict_lookup d k else None)"
      by (simp add: file_entries_all [OF assms(1)] dict_lookup_new cong: if_cong)
    moreover have "k \<in> fst ` set (entries d) \<longleftrightarrow> dict_lookup d k \<noteq> None" for k
      using entries_lookup [OF ok] by force
    ultimately show ?thesis by (auto simp: fun_eq_iff)
  qed
  ultimately show ?thesis by blast
qed

definition small_config :: dictionary where
  "small_config = dictionary_put (dictionary_put (dictionary_put (dictionary_new 0) ''server'' None)
     ''server:thread_num'' (Some ''10'')) ''server:cwd'' (Some ''/tmp'')"

lemma small_config_lookup:
  "dict_ok small_config"
  "dict_lookup small_config k = (if k = ''server:cwd'' then Some (Some ''/tmp'')
     else if k = ''server:thread_num'' then Some (Some ''10'') else if k = ''server'' then Some None else None)"
  using dict_ok_new [of 0] put_keeps by (simp_all add: small_config_def dict_lookup_new)

lemma small_config_ok: "config_ok small_config"
proof -
  have "key_ok ''cwd'' \<and> value_ok ''/tmp'' \<and> length (pad30 ''cwd'' @ '' = '' @ ''/tmp'') < ASCIILINESZ - 1"
    "key_ok ''thread_num'' \<and> value_ok ''10'' \<and> length (pad30 ''thread_num'' @ '' = '' @ ''10'') < ASCIILINESZ - 1"
    "name_ok ''server''" by code_simp+
  moreover have "''server:cwd'' = ''server'' @ CHR '':'' # ''cwd''" "''server:thread_num'' = ''server'' @ CHR '':'' # ''thread_num''"
    by simp_all
  moreover have "''server'' \<in> set (section_names small_config)"
    using entries_lookup [OF small_config_lookup(1)] by (force simp: section_names_def small_config_lookup(2))
  moreover have "CHR '':'' \<in> set ''server:cwd''" "CHR '':'' \<in> set ''server:thread_num''" "CHR '':'' \<notin> set ''server''"
    by simp_all
  ultimately show ?thesis
    unfolding config_ok_def entries_lookup [OF small_config_lookup(1)] small_config_lookup(2)
    using small_config_lookup(1) by (auto split: if_splits)
qed

theorem ini_roundtrip_witness:
  "\<exists>content d'. iniparser_dump_ini small_config = Inr content
     \<and> iniparser_load \<lparr>cwd = [], tree = [[] \<mapsto> Dir True, [''c''] \<mapsto> File content 0], fs_time = 0\<rparr> ''/c'' = Inr (Some d')
     \<and> dict_lookup d' ''server:thread_num'' = Some (Some ''10'')"
proof -
  obtain content where c: "iniparser_dump_ini small_config = Inr content"
    using small_config_ok by (simp add: iniparser_dump_ini_def iniparser_getnsec_def config_ok_def)
  have "comps ''/c'' = [''c'']" by code_simp
  then have "read_file ''/c'' \<lparr>cwd = [], tree = [[] \<mapsto> Dir True, [''c''] \<mapsto> File content 0], fs_time = 0\<rparr> = Some content"
    by (simp add: read_file_def resolve_def absolute_def)
  from ini_roundtrip [OF small_config_ok c this] show ?thesis using c small_config_lookup(2) by auto
qed

section \<open>Errors of the reader\<close>

definition significant :: "line_status \<Rightarrow> bool" where
  "significant st \<longleftrightarrow> st \<noteq> LINE_EMPTY \<and> st \<noteq> LINE_COMMENT"

lemma errs_apply: "0 < errs (apply_line st s) \<longleftrightarrow> (if significant st then st = LINE_ERROR else 0 < errs s)"
  by (cases st) (simp_all add: apply_line_def significant_def)

lemma errs_after:
  "errs (fold apply_line sts s) \<noteq> 0 \<longleftrightarrow>
     (if filter significant sts = [] then errs s \<noteq> 0 else last (filter significant sts) = LINE_ERROR)"
proof (induction sts rule: rev_induct)
  case (snoc st sts)
  then show ?case by (cases "significant st") (simp_all add: errs_apply)
qed simp

text \<open>
  The count of syntax errors is overwritten by every line that is stored, so a file is
  rejected exactly when the last of its lines that are not blank or a comment is a syntax error;
  any syntax error before a stored line goes unnoticed.
\<close>

theorem ini_errors_overwritten:
  assumes "list_all2 (\<lambda>l st. plain_line l \<and> iniparser_line (rstrip l) = Inr st) ls sts"
    and "read_file path fs = Some (concat (map (\<lambda>l. l @ [NL]) ls))"
  shows "iniparser_load fs path = Inr (if filter significant sts \<noteq> [] \<and> last (filter significant sts) = LINE_ERROR
     then None else Some (dict (fold apply_line sts load_start)))"
  using assms(2) load_lines_plain [OF assms(1), of load_start "[]"] errs_after [of sts load_start]
  by (simp add: iniparser_load_def load_lines_end load_start_def)

theorem ini_errors_overwritten_witness:
  "\<exists>d. iniparser_load \<lparr>cwd = [], tree = [[] \<mapsto> Dir True, [''c''] \<mapsto> File (''oops'' @ [NL] @ ''[server]'' @ [NL]) 0], fs_time = 0\<rparr> ''/c''
     = Inr (Some d)"
proof -
  let ?fs = "\<lparr>cwd = [], tree = [[] \<mapsto> Dir True, [''c''] \<mapsto> File (''oops'' @ [NL] @ ''[server]'' @ [NL]) 0], fs_time = 0\<rparr>"
  have "comps ''/c'' = [''c'']" by code_simp
  then have "read_file ''/c'' ?fs = Some (concat (map (\<lambda>l. l @ [NL]) [''oops'', ''[server]'']))"
    by (simp add: read_file_def resolve_def absolute_def)
  moreover have "list_all2 (\<lambda>l st. plain_line l \<and> iniparser_line (rstrip l) = Inr st) [''oops'', ''[server]''] [LINE_ERROR, LINE_SECTION ''server'']"
    by code_simp
  ultimately show ?thesis
    using ini_errors_overwritten [of "[''oops'', ''[server]'']" "[LINE_ERROR, LINE_SECTION ''server'']" "''/c''" ?fs]
    by (simp add: significant_def)
qed

text \<open>
  A section whose name holds an equals sign with something behind it is copied into a buffer
  that was sized by this sign, and overruns it.
\<close>

theorem ini_section_overflow:
  assumes "CHR '']'' \<notin> set (a @ b)" and "CHR ''='' \<notin> set a" and "b \<noteq> []"
    and "plain_line (''['' @ a @ ''='' @ b @ '']'')"
    and "read_file path fs = Some (''['' @ a @ ''='' @ b @ '']'' @ NL # rest)"
  shows "iniparser_load fs path = Inl OutOfBounds"
proof -
  let ?n = "a @ CHR ''='' # b"
  let ?l = "CHR ''['' # ?n @ '']''"
  have t: "trimmed ?l" by (simp add: trimmed_def isspace_def)
  have "takeWhile (\<lambda>c. c \<noteq> CHR '']'') (?n @ '']'') = ?n"
    using assms(1) by (auto simp: takeWhile_append)
  moreover have "?l = (CHR ''['' # a) @ CHR ''='' # b @ '']''" by simp
  then have "strchr CHR ''='' ?l = Some (length (CHR ''['' # a))"
    using strchr_append [of "CHR ''=''" "CHR ''['' # a"] assms(2) by simp
  ultimately have "iniparser_line ?l = Inl OutOfBounds"
    using assms(3) t by (simp add: iniparser_line_def Let_def)
  moreover have "rstrip ?l = ?l" using t by (rule rstrip_trimmed)
  moreover have "last ?l \<noteq> CHR 0x5C" by simp
  moreover have "takeWhile (\<lambda>c. c \<noteq> CHR 0x00) (?l @ [NL]) = ?l @ [NL]"
    using assms(4) by (auto simp: plain_line_def NL_def takeWhile_eq_all_conv)
  ultimately have "load_line (?l @ [NL]) False load_start = Inl OutOfBounds"
    unfolding load_line_def Let_def
    by (simp only: rstrip_snoc_space NL_space) (simp add: load_start_def)
  then show ?thesis
    using assms(4,5) fgets_plain [of ?l rest]
    by (simp add: iniparser_load_def load_lines.simps [of "CHR ''['' # a @ CHR ''='' # b @ CHR '']'' # NL # rest"])
qed

theorem ini_section_overflow_witness:
  "iniparser_load \<lparr>cwd = [], tree = [[] \<mapsto> Dir True, [''c''] \<mapsto> File (''[a=bc]'' @ [NL]) 0], fs_time = 0\<rparr> ''/c'' = Inl OutOfBounds"
proof -
  have "comps ''/c'' = [''c'']" by code_simp
  moreover have "plain_line (''['' @ ''a'' @ ''='' @ ''bc'' @ '']'')" by code_simp
  ultimately show ?thesis
    by (intro ini_section_overflow [of "''a''" "''bc''" _ _ "[]"]) (simp_all add: read_file_def resolve_def absolute_def)
qed

end
