(* ===== verification/Substitute.thy ===== *)
theory Substitute
  imports Prelude
begin

text \<open>
  \<open>substitute\<close> of soaagent/util.c, which replaces every occurrence of a placeholder while copying
  a string into a buffer of \<open>output_len\<close> bytes.  Sizes are C \<open>int\<close>s; a copy of a negative
  number of bytes is the fault \<open>OutOfBounds\<close>.
\<close>

fun strstr :: "string \<Rightarrow> string \<Rightarrow> nat option" where
  "strstr sub [] = (if sub = [] then Some 0 else None)"
| "strstr sub (c # s) = (if take (length sub) (c # s) = sub then Some 0 else map_option Suc (strstr sub s))"

text \<open>
  The loop over the occurrences; an empty placeholder may keep it running, so it is partial.  The
  result is the rest of the input, what was stored, and the bytes left.
\<close>

partial_function (option) substitute_loop ::
  "string \<Rightarrow> string \<Rightarrow> string \<Rightarrow> string \<Rightarrow> int \<Rightarrow> (string \<times> string \<times> int) option" where
  "substitute_loop pSrc pDst pi out nLeft =
     (case strstr pSrc pi of
        None \<Rightarrow> Some (pi, out, nLeft)
      | Some nLen \<Rightarrow>
          if nLeft - int nLen < int (length pDst) then Some (pi, out, nLeft)
          else substitute_loop pSrc pDst (drop (nLen + length pSrc) pi) (out @ take nLen pi @ pDst)
                 (nLeft - int nLen - int (length pDst)))"

text \<open>The copy of the rest, with its NUL.\<close>

definition copy_rest :: "string \<Rightarrow> int \<Rightarrow> fault + string" where
  "copy_rest pi nLeft =
     (let nCopy = (if nLeft > int (length pi) then int (length pi) else nLeft - 1)
      in if nCopy < 0 then Inl OutOfBounds else Inr (take (nat nCopy) pi))"

definition substitute :: "string \<Rightarrow> nat \<Rightarrow> string \<Rightarrow> string \<Rightarrow> (fault + string) option" where
  "substitute pInput output_len pSrc pDst =
     map_option (\<lambda>(pi, out, nLeft). map_sum id ((@) out) (copy_rest pi nLeft))
       (substitute_loop pSrc pDst pInput [] (int output_len))"

section \<open>Replacement without a buffer\<close>

lemma strstr_Some: "strstr sub s = Some k \<Longrightarrow> s = take k s @ sub @ drop (k + length sub) s \<and> k + length sub \<le> length s"
proof (induction s arbitrary: k)
  case Nil
  then show ?case by (simp split: if_splits)
next
  case (Cons c s)
  show ?case
  proof (cases "take (length sub) (c # s) = sub")
    case True
    then have "length sub \<le> length (c # s)" by (metis length_take min.absorb_iff2 nat_le_linear take_all)
    moreover have "c # s = sub @ drop (length sub) (c # s)" using True append_take_drop_id by metis
    moreover have "k = 0" using Cons.prems True by simp
    ultimately show ?thesis by simp
  next
    case False
    then obtain j where "strstr sub s = Some j" "k = Suc j" using Cons.prems by auto
    with Cons.IH show ?thesis by simp
  qed
qed

function replace_all :: "string \<Rightarrow> string \<Rightarrow> string \<Rightarrow> string" where
  "replace_all src dst s =
     (if src = [] then s
      else (case strstr src s of
              None \<Rightarrow> s
            | Some k \<Rightarrow> take k s @ dst @ replace_all src dst (drop (k + length src) s)))"
  by pat_completeness auto
termination
proof (relation "measure (\<lambda>(src, dst, s). length s)")
  fix src dst s :: string and k
  assume src: "src \<noteq> []" and k: "strstr src s = Some k"
  have "k + length src \<le> length s" using strstr_Some [OF k] by blast
  then show "((src, dst, drop (k + length src) s), src, dst, s) \<in> measure (\<lambda>(src, dst, s). length s)"
    using src by (cases src) auto
qed simp

declare replace_all.simps [simp del]

lemma substitute_loop_fits:
  assumes "src \<noteq> []" and "int (length (replace_all src dst s)) < nLeft"
  shows "\<exists>pi out' n. substitute_loop src dst s out nLeft = Some (pi, out @ out', n)
    \<and> out' @ pi = replace_all src dst s \<and> int (length pi) < n"
  using assms
proof (induction "length s" arbitrary: s out nLeft rule: less_induct)
  case less
  show ?case
  proof (cases "strstr src s")
    case None
    then show ?thesis
      using less.prems by (subst substitute_loop.simps) (simp add: replace_all.simps [of src dst s])
  next
    case (Some k)
    let ?r = "drop (k + length src) s" and ?n = "nLeft - int k - int (length dst)"
    have k: "k + length src \<le> length s" using strstr_Some [OF Some] by blast
    have rep: "replace_all src dst s = take k s @ dst @ replace_all src dst ?r"
      using less.prems Some by (simp add: replace_all.simps [of src dst s])
    then have fit: "int (length (replace_all src dst ?r)) < ?n" using less.prems(2) k by simp
    moreover have "length ?r < length s" using k less.prems(1) by (cases src) auto
    ultimately obtain pi out' n where IH:
      "substitute_loop src dst ?r (out @ take k s @ dst) ?n = Some (pi, (out @ take k s @ dst) @ out', n)"
      "out' @ pi = replace_all src dst ?r" "int (length pi) < n"
      using less.hyps less.prems(1) by blast
    have "\<not> nLeft - int k < int (length dst)" using fit by linarith
    then have "substitute_loop src dst s out nLeft = substitute_loop src dst ?r (out @ take k s @ dst) ?n"
      using Some by (subst substitute_loop.simps) simp
    then show ?thesis
      using IH rep by (intro exI [of _ pi] exI [of _ "take k s @ dst @ out'"] exI [of _ n]) simp
  qed
qed

text \<open>
  \<open>substitute\<close> returns the string with every placeholder replaced whenever the result and its
  NUL fit the buffer; but it crashes when the text up to and including a replacement fills the
  buffer exactly.
\<close>

theorem substitute_spec:
  assumes "src \<noteq> []"
  shows "(length (replace_all src dst s) < output_len \<longrightarrow>
      substitute s output_len src dst = Some (Inr (replace_all src dst s)))
    \<and> (strstr src s = Some k \<and> k + length dst = output_len \<and> dst \<noteq> [] \<longrightarrow>
      substitute s output_len src dst = Some (Inl OutOfBounds))"
proof (intro conjI impI)
  assume "length (replace_all src dst s) < output_len"
  then obtain pi out n where "substitute_loop src dst s [] (int output_len) = Some (pi, [] @ out, n)"
    "out @ pi = replace_all src dst s" "int (length pi) < n"
    using substitute_loop_fits [OF assms, of dst s "int output_len" "[]"] by auto
  then show "substitute s output_len src dst = Some (Inr (replace_all src dst s))"
    by (simp add: substitute_def copy_rest_def)
next
  assume k: "strstr src s = Some k \<and> k + length dst = output_len \<and> dst \<noteq> []"
  have neg: "0 - int x < int (length dst)" for x using k by (cases dst) auto
  have full: "substitute_loop src dst pi out 0 = Some (pi, out, 0)" for pi out
    by (cases "strstr src pi"; subst substitute_loop.simps; simp only: neg option.case if_True)
  have "substitute_loop src dst s [] (int output_len)
      = substitute_loop src dst (drop (k + length src) s) (take k s @ dst) 0"
    using k by (subst substitute_loop.simps) auto
  then show "substitute s output_len src dst = Some (Inl OutOfBounds)"
    by (simp add: full substitute_def copy_rest_def)
qed

theorem substitute_spec_witness:
  "substitute ''a${H}/b'' 9 ''${H}'' ''/opt'' = Some (Inr ''a/opt/b'')
     \<and> substitute ''a${H}/b'' 5 ''${H}'' ''/opt'' = Some (Inl OutOfBounds)"
proof -
  have r: "replace_all ''${H}'' ''/opt'' ''a${H}/b'' = ''a/opt/b''" by code_simp
  have s: "strstr ''${H}'' ''a${H}/b'' = Some 1" by code_simp
  show ?thesis
    using substitute_spec [of "''${H}''" "''/opt''" "''a${H}/b''" 9 1]
      substitute_spec [of "''${H}''" "''/opt''" "''a${H}/b''" 5 1]
    by (simp add: r s del: strstr.simps)
qed

end
