(* ===== verification/Conf.thy ===== *)
theory Conf
  imports Iniparser Substitute
begin

text \<open>
  soaagent/conf.c: the configuration items.  \<open>global_config_dictionary\<close> is the argument \<open>ini\<close>,
  the environment variable \<open>AGENT_HOME\<close> the argument \<open>home\<close>.
\<close>

definition config_init :: "filesystem \<Rightarrow> string \<Rightarrow> fault + int \<times> dictionary option" where
  "config_init fs config_file_path =
     after (iniparser_load fs config_file_path) (\<lambda>ini.
       Inr (if ini = None then -1 else 0, ini))"

text \<open>
  What is stored in the buffer of \<open>len\<close> bytes.  \<open>None\<close> is a replacement that does not end.
\<close>

definition get_config_item ::
  "dictionary option \<Rightarrow> string option \<Rightarrow> string \<Rightarrow> nat \<Rightarrow> string \<Rightarrow> (fault + string) option" where
  "get_config_item ini home config_item_name len default_value =
     (case iniparser_getstring ini (Some config_item_name) None of
        Some s \<Rightarrow>
          (case home of
             Some proxy_home_value \<Rightarrow> substitute s len ''${AGENT_HOME}'' proxy_home_value
           | None \<Rightarrow> Some (Inr (snprintf_s len s)))
      | None \<Rightarrow> Some (Inr (snprintf_s len default_value)))"

text \<open>The tokens \<open>strtok_r\<close> returns one after the other.\<close>

fun tokens :: "char \<Rightarrow> string \<Rightarrow> string \<Rightarrow> string list" where
  "tokens d cur [] = (if cur = [] then [] else [cur])"
| "tokens d cur (c # s) =
     (if c = d then (if cur = [] then tokens d [] s else cur # tokens d [] s) else tokens d (cur @ [c]) s)"

fun multiply :: "int \<Rightarrow> string list \<Rightarrow> fault + int" where
  "multiply result_value [] = Inr result_value"
| "multiply result_value (t # ts) =
     (if int_ok (atoi t) \<and> int_ok (result_value * atoi t) then multiply (result_value * atoi t) ts
      else Inl IntOverflow)"

text \<open>A value of 200 bytes leaves no room for the NUL in \<open>str\<close>; a longer one runs past it.\<close>

definition get_config_item_int :: "dictionary option \<Rightarrow> string \<Rightarrow> int \<Rightarrow> fault + int" where
  "get_config_item_int ini config_item_name default_value =
     (case iniparser_getstring ini (Some config_item_name) None of
        Some value \<Rightarrow>
          if 200 \<le> length value then Inl OutOfBounds else multiply 1 (tokens CHR ''*'' [] value)
      | None \<Rightarrow> Inr default_value)"

section \<open>Products\<close>

fun join :: "char \<Rightarrow> string list \<Rightarrow> string" where
  "join d [] = []"
| "join d [s] = s"
| "join d (s # ss) = s @ d # join d ss"

lemma tokens_append: "d \<notin> set s \<Longrightarrow> tokens d cur (s @ r) = tokens d (cur @ s) r"
  by (induction s arbitrary: cur) auto

lemma tokens_join:
  "\<forall>s \<in> set ss. s \<noteq> [] \<and> d \<notin> set s \<Longrightarrow> tokens d [] (join d ss) = ss"
proof (induction d ss rule: join.induct)
  case (2 d s)
  then show ?case using tokens_append [of d s "[]" "[]"] by simp
next
  case (3 d s s2 ss)
  then show ?case using tokens_append [of d s "[]" "d # join d (s2 # ss)"] by simp
qed simp

lemma show_int_token: "show_int i \<noteq> [] \<and> CHR ''*'' \<notin> set (show_int i)"
  using show_int_chars [of "CHR ''*''" i] by (auto simp: show_int_def isdigit_def)

text \<open>All the products on the way stay in the range of \<open>int\<close>.\<close>

definition products_ok :: "int list \<Rightarrow> bool" where
  "products_ok ns \<longleftrightarrow> list_all int_ok ns \<and> (\<forall>k \<le> length ns. int_ok (prod_list (take k ns)))"

lemma multiply_products:
  "list_all int_ok ns \<Longrightarrow> \<forall>k \<le> length ns. int_ok (p * prod_list (take k ns)) \<Longrightarrow>
     multiply p (map show_int ns) = Inr (p * prod_list ns)"
proof (induction ns arbitrary: p)
  case (Cons n ns)
  have "int_ok (p * n)" using Cons.prems(2) by (force dest: spec [of _ 1])
  moreover have "int_ok (p * n * prod_list (take k ns))" if "k \<le> length ns" for k
    using Cons.prems(2) that by (auto dest!: spec [of _ "Suc k"] simp: mult.assoc)
  ultimately show ?case using Cons.IH [of "p * n"] Cons.prems(1) by (simp add: atoi_show_int mult.assoc)
qed simp

text \<open>
  An integer item of the configuration that is written as a product of decimal numbers, as in
  \<open>1024*1024*100\<close>, is read as this product while every partial product is an \<open>int\<close>; the default
  is used exactly when the item is absent; a value of 200 bytes or more runs past a buffer.
\<close>

theorem get_config_item_int_spec:
  assumes "products_ok ns" and "iniparser_getstring ini (Some name) None = Some (join CHR ''*'' (map show_int ns))"
  shows "get_config_item_int ini name dflt =
    (if length (join CHR ''*'' (map show_int ns)) < 200 then Inr (prod_list ns) else Inl OutOfBounds)"
  using tokens_join [of "map show_int ns" "CHR ''*''"] show_int_token multiply_products [of ns 1] assms
  by (auto simp: get_config_item_int_def products_ok_def)

theorem get_config_item_int_spec_witness:
  "get_config_item_int (Some (dictionary_put (dictionary_new 0) ''log:size'' (Some ''1024*1024*100''))) ''log:SIZE'' 7 = Inr 104857600"
proof -
  let ?d = "dictionary_put (dictionary_new 0) ''log:size'' (Some ''1024*1024*100'')"
  have "dict_ok ?d" "dict_lookup ?d ''log:size'' = Some (Some ''1024*1024*100'')"
    using put_keeps [OF dict_ok_new [of 0]] by auto
  moreover have "strlwc ''log:SIZE'' = ''log:size''" by code_simp
  moreover have join: "join CHR ''*'' (map show_int [1024, 1024, 100]) = ''1024*1024*100''" by code_simp
  ultimately have "iniparser_getstring (Some ?d) (Some ''log:SIZE'') None = Some (join CHR ''*'' (map show_int [1024, 1024, 100]))"
    by (simp add: iniparser_getstring_def dictionary_get_lookup)
  moreover have "products_ok [1024, 1024, 100]"
    by (auto simp: products_ok_def int_ok_def le_Suc_eq numeral_3_eq_3)
  ultimately show ?thesis
    using get_config_item_int_spec [of "[1024, 1024, 100]" "Some ?d" "''log:SIZE''" 7] unfolding join by simp
qed

end
