(* ===== verification/Socket_IO.thy ===== *)
theory Socket_IO
  imports Prelude
begin

text \<open>
  The socket and clock helpers of soaagent/util.c (the same code is in soaregister/util.c):
  \<open>socket_send\<close>, \<open>socket_receive\<close>, \<open>next_identifier\<close>, \<open>get_time_difference\<close>.

  The kernel is the environment: for each connection it is a script of the results that the
  next \<open>send\<close>, \<open>select\<close> and \<open>recv\<close> calls return, and the bytes the peer has sent.  A loop
  that runs out of script is still blocked in a system call, which is the value \<open>None\<close>.
  A script in which the kernel reports more bytes than were asked for has no run.
\<close>

section \<open>Time\<close>

record timeval =
  tv_sec :: int
  tv_usec :: int

definition millis :: "timeval \<Rightarrow> int" where
  "millis t = tv_sec t * 1000 + tv_usec t div 1000"

text \<open>The difference of two \<open>long\<close> values, stored in an \<open>unsigned int\<close>.\<close>

definition get_time_difference :: "timeval \<Rightarrow> timeval \<Rightarrow> u32" where
  "get_time_difference begin_time end_time = word_of_int (millis end_time - millis begin_time)"

definition next_identifier :: "u32 \<Rightarrow> u32 \<times> u32" where
  "next_identifier counter = (counter + 1, counter + 1)"

lemma get_time_difference_exact:
  assumes "millis b \<le> millis e" and "millis e - millis b < 2 ^ 32"
  shows "uint (get_time_difference b e) = millis e - millis b"
  using assms by (simp add: get_time_difference_def uint_word_of_int del: of_int_diff)

section \<open>The kernel's answers\<close>

datatype errno = EINTR | EAGAIN | EPIPE | ECONNRESET | ETIMEDOUT

datatype send_ev = Sent nat | SendErr errno
datatype recv_ev = Recv nat | RecvErr errno
datatype select_ev = SelReady | SelTimeout | SelErr errno

record channel =
  ch_send :: "send_ev list"
  ch_sel :: "select_ev list"
  ch_recv :: "recv_ev list"
  ch_in :: "byte list"
  ch_out :: "byte list"

definition retryable :: "errno \<Rightarrow> bool" where
  "retryable e \<longleftrightarrow> e = EINTR \<or> e = EAGAIN"

section \<open>Operations\<close>

fun send_loop :: "send_ev list \<Rightarrow> byte list \<Rightarrow> (int \<times> byte list \<times> send_ev list) option" where
  "send_loop [] p = None"
| "send_loop (SendErr e # evs) p =
     (if retryable e then send_loop evs p else Some (-1, [], evs))"
| "send_loop (Sent tmp # evs) p =
     (if tmp = length p then Some (0, p, evs)
      else if length p < tmp then None
      else (case send_loop evs (drop tmp p) of
              None \<Rightarrow> None
            | Some (r, out, evs') \<Rightarrow> Some (r, take tmp p @ out, evs')))"

definition socket_send :: "channel \<Rightarrow> byte list \<Rightarrow> (int \<times> channel) option" where
  "socket_send ch buffer =
     (case send_loop (ch_send ch) buffer of
        None \<Rightarrow> None
      | Some (r, out, evs) \<Rightarrow> Some (r, ch\<lparr>ch_send := evs, ch_out := ch_out ch @ out\<rparr>))"

text \<open>\<open>do ret = select(...) while (ret < 0 && errno == EINTR)\<close>\<close>

fun select_loop :: "select_ev list \<Rightarrow> (int \<times> select_ev list) option" where
  "select_loop [] = None"
| "select_loop (SelErr e # evs) = (if e = EINTR then select_loop evs else Some (-1, evs))"
| "select_loop (SelTimeout # evs) = Some (0, evs)"
| "select_loop (SelReady # evs) = Some (1, evs)"

fun recv_loop ::
  "recv_ev list \<Rightarrow> byte list \<Rightarrow> nat \<Rightarrow> (int \<times> byte list \<times> recv_ev list \<times> byte list) option" where
  "recv_loop [] st need = None"
| "recv_loop (RecvErr e # evs) st need =
     (if retryable e then recv_loop evs st need else Some (-1, [], evs, st))"
| "recv_loop (Recv tmp # evs) st need =
     (if tmp = 0 then Some (-2, [], evs, st)
      else if need < tmp \<or> length st < tmp then None
      else if tmp = need then Some (0, take tmp st, evs, drop tmp st)
      else (case recv_loop evs (drop tmp st) (need - tmp) of
              None \<Rightarrow> None
            | Some (r, out, evs', st') \<Rightarrow> Some (r, take tmp st @ out, evs', st')))"

text \<open>\<open>socket_receive\<close> behind its \<open>FD_SET\<close>: the wait for data and the loop of \<open>recv\<close>.\<close>

definition receive_ready :: "channel \<Rightarrow> nat \<Rightarrow> int \<Rightarrow> (int \<times> byte list \<times> channel) option" where
  "receive_ready ch buf_len timeout_secs =
     (case (if timeout_secs > 0 then select_loop (ch_sel ch) else Some (1, ch_sel ch)) of
        None \<Rightarrow> None
      | Some (ret, sel) \<Rightarrow>
          if ret = 0 then Some (-1, [], ch\<lparr>ch_sel := sel\<rparr>)
          else if ret < 0 then Some (-1, [], ch\<lparr>ch_sel := sel\<rparr>)
          else (case recv_loop (ch_recv ch) (ch_in ch) buf_len of
                  None \<Rightarrow> None
                | Some (r, out, evs, st) \<Rightarrow>
                    Some (r, out, ch\<lparr>ch_sel := sel, ch_recv := evs, ch_in := st\<rparr>)))"

text \<open>
  With a timeout the descriptor is entered into an \<open>fd_set\<close> of the stack, which has \<open>FD_SETSIZE\<close>
  bits: \<open>FD_SET\<close> of any other descriptor writes outside it.
\<close>

definition FD_SETSIZE :: int where "FD_SETSIZE = 1024"

definition selectable :: "int \<Rightarrow> bool" where
  "selectable sockfd \<longleftrightarrow> 0 \<le> sockfd \<and> sockfd < FD_SETSIZE"

definition socket_receive :: "int \<Rightarrow> channel \<Rightarrow> nat \<Rightarrow> int \<Rightarrow> fault + (int \<times> byte list \<times> channel) option" where
  "socket_receive sockfd ch buf_len timeout_secs =
     (if timeout_secs > 0 \<and> \<not> selectable sockfd then Inl OutOfBounds
      else Inr (receive_ready ch buf_len timeout_secs))"

section \<open>Sending\<close>

lemma send_loop_result:
  "send_loop evs p = Some (r, out, evs') \<Longrightarrow>
     (r = 0 \<and> out = p) \<or> (r = -1 \<and> (\<exists>rest. p = out @ rest))"
proof (induction evs p arbitrary: r out rule: send_loop.induct)
  case (3 tmp evs p)
  show ?case
  proof (cases "tmp = length p \<or> length p < tmp")
    case False
    with "3.prems" obtain out' where
      *: "send_loop evs (drop tmp p) = Some (r, out', evs')" "out = take tmp p @ out'"
      by (auto split: option.splits)
    with "3.IH" False have "(r = 0 \<and> out' = drop tmp p) \<or> (r = -1 \<and> (\<exists>rest. drop tmp p = out' @ rest))"
      by blast
    with *(2) show ?thesis by (metis append.assoc append_take_drop_id)
  qed (use "3.prems" in auto)
qed (auto split: if_splits)

text \<open>
  \<open>socket_send\<close> reports success only when every byte of the buffer has gone out, in
  order and once; when it reports failure a prefix has gone out and nothing else.
\<close>

theorem socket_send_spec:
  assumes "socket_send ch buffer = Some (r, ch')"
  shows "(r = 0 \<and> ch_out ch' = ch_out ch @ buffer)
    \<or> (r = -1 \<and> (\<exists>sent rest. buffer = sent @ rest \<and> ch_out ch' = ch_out ch @ sent))"
proof -
  from assms obtain out evs where loop: "send_loop (ch_send ch) buffer = Some (r, out, evs)"
    and ch': "ch' = ch\<lparr>ch_send := evs, ch_out := ch_out ch @ out\<rparr>"
    by (auto simp: socket_send_def split: option.splits)
  from send_loop_result [OF loop] show ?thesis by (auto simp: ch')
qed

theorem socket_send_spec_witness:
  "\<exists>ch'. socket_send \<lparr>ch_send = [Sent 1, SendErr EINTR, Sent 2], ch_sel = [], ch_recv = [],
       ch_in = [], ch_out = []\<rparr> [7, 8, 9] = Some (0, ch') \<and> ch_out ch' = [7, 8, 9]"
proof -
  let ?ch = "\<lparr>ch_send = [Sent 1, SendErr EINTR, Sent 2], ch_sel = [], ch_recv = [],
       ch_in = [], ch_out = []\<rparr>"
  obtain ch' where run: "socket_send ?ch [7, 8, 9] = Some (0, ch')"
    by (auto simp: socket_send_def retryable_def)
  from socket_send_spec [OF run] run show ?thesis by auto
qed

section \<open>Receiving\<close>

text \<open>A script that delivers exactly \<open>need\<close> bytes, in any pieces, with interruptions.\<close>

fun delivers :: "recv_ev list \<Rightarrow> nat \<Rightarrow> bool" where
  "delivers [] need \<longleftrightarrow> False"
| "delivers (RecvErr e # evs) need \<longleftrightarrow> retryable e \<and> delivers evs need"
| "delivers (Recv n # evs) need \<longleftrightarrow>
     0 < n \<and> n \<le> need \<and> (if n = need then evs = [] else delivers evs (need - n))"

lemma recv_loop_delivers:
  "delivers evs need \<Longrightarrow> need \<le> length st \<Longrightarrow>
     recv_loop (evs @ later) st need = Some (0, take need st, later, drop need st)"
proof (induction evs need arbitrary: st rule: delivers.induct)
  case (3 n evs need)
  show ?case
  proof (cases "n = need")
    case False
    with "3" have "recv_loop (evs @ later) (drop n st) (need - n)
        = Some (0, take (need - n) (drop n st), later, drop (need - n) (drop n st))" by simp
    moreover have "take need st = take n st @ take (need - n) (drop n st)"
      using "3.prems" by (metis delivers.simps(3) le_add_diff_inverse take_add)
    ultimately show ?thesis using "3.prems" False by simp
  qed (use "3.prems" in simp)
qed auto

lemma recv_loop_result:
  "recv_loop evs st need = Some (r, out, evs', st') \<Longrightarrow>
     st = out @ st' \<and> (r = 0 \<longrightarrow> length out = need) \<and> length out \<le> need \<and> r \<in> {0, -1, -2}"
proof (induction evs st need arbitrary: r out rule: recv_loop.induct)
  case (3 tmp evs st need)
  show ?case
  proof (cases "tmp = 0 \<or> need < tmp \<or> length st < tmp \<or> tmp = need")
    case False
    with "3.prems" obtain out' where
      *: "recv_loop evs (drop tmp st) (need - tmp) = Some (r, out', evs', st')" "out = take tmp st @ out'"
      by (auto split: option.splits)
    with "3.IH" False have
      "drop tmp st = out' @ st' \<and> (r = 0 \<longrightarrow> length out' = need - tmp) \<and> length out' \<le> need - tmp
       \<and> r \<in> {0, -1, -2}" by blast
    moreover have "st = take tmp st @ drop tmp st" by simp
    ultimately have "st = out @ st'" using *(2) by (metis append.assoc)
    moreover have "length (take tmp st) = tmp" using False by simp
    ultimately show ?thesis using *(2) False
      \<open>drop tmp st = out' @ st' \<and> _\<close> by auto
  qed (use "3.prems" in \<open>auto split: if_splits\<close>)
qed (auto split: if_splits)

lemma receive_ready_result:
  assumes "receive_ready ch need t = Some (r, out, ch')"
  shows "ch_in ch = out @ ch_in ch' \<and> (r = 0 \<longrightarrow> length out = need) \<and> length out \<le> need
    \<and> r \<in> {0, -1, -2}"
proof -
  from assms obtain ret sel where
    "(if t > 0 then select_loop (ch_sel ch) else Some (1, ch_sel ch)) = Some (ret, sel)"
    by (auto simp: receive_ready_def split: option.splits)
  with assms show ?thesis
    by (auto simp: receive_ready_def split: if_splits option.splits dest: recv_loop_result)
qed

lemma socket_receive_result:
  assumes "socket_receive sockfd ch need t = Inr (Some (r, out, ch'))"
  shows "ch_in ch = out @ ch_in ch' \<and> (r = 0 \<longrightarrow> length out = need) \<and> length out \<le> need
    \<and> r \<in> {0, -1, -2}"
  using assms receive_ready_result by (auto simp: socket_receive_def split: if_splits)

lemma socket_receive_delivers:
  assumes "selectable sockfd" and "t > 0" and "ch_sel ch = SelReady # sel" and "ch_recv ch = evs @ later"
    and "delivers evs need" and "need \<le> length (ch_in ch)"
  shows "socket_receive sockfd ch need t = Inr (Some (0, take need (ch_in ch),
     ch\<lparr>ch_sel := sel, ch_recv := later, ch_in := drop need (ch_in ch)\<rparr>))"
  using assms by (simp add: socket_receive_def receive_ready_def recv_loop_delivers)

text \<open>
  \<open>socket_receive\<close> writes outside its \<open>fd_set\<close> exactly when it has a timeout and a descriptor of
  1024 or more (or none at all); otherwise it never takes more than \<open>buf_len\<close> bytes off the stream,
  returns the next bytes of the stream in order, and reports success only when the buffer is full.
\<close>

theorem socket_receive_spec:
  "case socket_receive sockfd ch need t of
     Inl f \<Rightarrow> f = OutOfBounds \<and> t > 0 \<and> \<not> selectable sockfd
   | Inr None \<Rightarrow> \<not> (t > 0 \<and> \<not> selectable sockfd)
   | Inr (Some (r, out, ch')) \<Rightarrow> \<not> (t > 0 \<and> \<not> selectable sockfd) \<and> ch_in ch = out @ ch_in ch' \<and> length out \<le> need
       \<and> (r = 0 \<longrightarrow> length out = need)"
  using receive_ready_result [of ch need t] by (auto simp: socket_receive_def split: option.split)

end
