(* ===== verification/Utlist.thy ===== *)
theory Utlist
  imports Prelude
begin

text \<open>
  The singly linked list macros of soaagent/utlist.h over a heap of \<open>next\<close> fields, and their
  refinement: on a heap that holds the list \<open>xs\<close> they compute \<open>xs @ [x]\<close>, \<open>remove1 x xs\<close>
  and \<open>length xs\<close>.  A loop that never ends is the value \<open>None\<close>.  The connection pools work on
  the lists themselves, through \<open>list_append\<close> and \<open>list_delete\<close>.
\<close>

type_synonym addr = nat
type_synonym next_heap = "addr \<Rightarrow> addr option"

section \<open>The macros\<close>

text \<open>\<open>while (_tmp->next) { _tmp = _tmp->next; }\<close>\<close>

partial_function (option) ll_last :: "next_heap \<Rightarrow> addr \<Rightarrow> addr option" where
  "ll_last nx tmp = (case nx tmp of None \<Rightarrow> Some tmp | Some tmp' \<Rightarrow> ll_last nx tmp')"

definition ll_append :: "next_heap \<Rightarrow> addr option \<Rightarrow> addr \<Rightarrow> (next_heap \<times> addr option) option" where
  "ll_append nx head add =
     (let nx = nx(add := None) in
      case head of
        Some h \<Rightarrow> (case ll_last nx h of
                     None \<Rightarrow> None
                   | Some tmp \<Rightarrow> Some (nx(tmp := Some add), head))
      | None \<Rightarrow> Some (nx, Some add))"

text \<open>\<open>while (_tmp->next && (_tmp->next != (del))) { _tmp = _tmp->next; }\<close>\<close>

partial_function (option) ll_before :: "next_heap \<Rightarrow> addr \<Rightarrow> addr \<Rightarrow> addr option" where
  "ll_before nx tmp del =
     (case nx tmp of
        None \<Rightarrow> Some tmp
      | Some tmp' \<Rightarrow> if tmp' \<noteq> del then ll_before nx tmp' del else Some tmp)"

definition ll_delete ::
  "next_heap \<Rightarrow> addr option \<Rightarrow> addr \<Rightarrow> (fault + next_heap \<times> addr option) option" where
  "ll_delete nx head del =
     (if head = Some del then Some (Inr (nx, nx del))
      else (case head of
              None \<Rightarrow> Some (Inl NullDeref)
            | Some h \<Rightarrow>
                (case ll_before nx h del of
                   None \<Rightarrow> None
                 | Some tmp \<Rightarrow>
                     Some (Inr (if nx tmp \<noteq> None then nx(tmp := nx del) else nx, head)))))"

partial_function (option) ll_count :: "next_heap \<Rightarrow> addr option \<Rightarrow> nat \<Rightarrow> nat option" where
  "ll_count nx el counter =
     (case el of None \<Rightarrow> Some counter | Some e \<Rightarrow> ll_count nx (nx e) (counter + 1))"

declare ll_last.simps [code] ll_before.simps [code] ll_count.simps [code]

section \<open>The lists they stand for\<close>

definition list_append :: "addr list \<Rightarrow> addr \<Rightarrow> addr list" where
  "list_append xs x = xs @ [x]"

definition list_delete :: "addr list \<Rightarrow> addr \<Rightarrow> fault + addr list" where
  "list_delete xs x = (if xs = [] then Inl NullDeref else Inr (remove1 x xs))"

fun ll :: "next_heap \<Rightarrow> addr option \<Rightarrow> addr list \<Rightarrow> bool" where
  "ll nx p [] \<longleftrightarrow> p = None"
| "ll nx p (x # xs) \<longleftrightarrow> p = Some x \<and> ll nx (nx x) xs"

lemma ll_frame: "a \<notin> set xs \<Longrightarrow> ll (nx(a := v)) p xs = ll nx p xs"
  by (induction xs arbitrary: p) auto

lemma ll_head: "ll nx p xs \<Longrightarrow> xs \<noteq> [] \<Longrightarrow> p = Some (hd xs)"
  by (cases xs) auto

lemma ll_last_ll:
  "ll nx (Some x) (x # xs) \<Longrightarrow> ll_last nx x = Some (last (x # xs))"
  by (induction xs arbitrary: x) (subst ll_last.simps, simp)+

lemma ll_snoc:
  "ll nx p (xs @ [y]) \<Longrightarrow> distinct (xs @ [y]) \<Longrightarrow> z \<notin> set (xs @ [y]) \<Longrightarrow> nx z = None \<Longrightarrow>
     ll (nx(y := Some z)) p (xs @ [y, z])"
  by (induction xs arbitrary: p) auto

text \<open>
  \<open>LL_APPEND\<close> of a node that is in neither list turns the list \<open>xs\<close> into \<open>xs @ [x]\<close> and
  leaves every other list of the heap as it is.
\<close>

theorem ll_append_refines:
  assumes "ll nx head xs" and "distinct xs" and "x \<notin> set xs"
  shows "\<exists>nx' head'. ll_append nx head x = Some (nx', head') \<and> ll nx' head' (list_append xs x)
    \<and> (set ys \<inter> (insert x (set xs)) = {} \<longrightarrow> ll nx q ys \<longrightarrow> ll nx' q ys)"
proof (cases xs rule: rev_cases)
  case Nil
  then show ?thesis using assms
    by (auto simp: ll_append_def list_append_def Let_def ll_frame)
next
  case (snoc zs y)
  let ?nx = "nx(x := None)"
  define h where "h = hd xs"
  have h: "head = Some h" "xs = h # tl xs"
    using ll_head [OF assms(1)] snoc by (simp_all add: h_def)
  have xs: "ll ?nx head xs" using assms by (simp add: ll_frame)
  then have "ll_last ?nx h = Some (last xs)"
    using ll_last_ll [of ?nx h "tl xs"] h by simp
  then have "ll_append nx head x = Some (?nx(y := Some x), head)"
    using h snoc by (simp add: ll_append_def Let_def)
  moreover have "ll (?nx(y := Some x)) head (list_append xs x)"
    using ll_snoc [of ?nx head zs y x] xs assms snoc by (simp add: list_append_def)
  moreover have "ll (?nx(y := Some x)) q ys"
    if "set ys \<inter> (insert x (set xs)) = {}" "ll nx q ys"
    using that snoc by (simp add: ll_frame)
  ultimately show ?thesis by blast
qed

theorem ll_append_refines_witness:
  "\<exists>nx' head'. ll_append (\<lambda>a. if a = 1 then Some 2 else None) (Some 1) 3 = Some (nx', head')
     \<and> ll nx' head' [1, 2, 3]"
proof -
  have "ll (\<lambda>a. if a = 1 then Some 2 else None) (Some 1) [1, 2]" by simp
  from ll_append_refines [OF this, of 3 "[]" None] show ?thesis
    by (auto simp: list_append_def)
qed

lemma ll_before_ll:
  "ll nx (Some y) (y # ys @ d # zs) \<Longrightarrow> d \<notin> set ys \<Longrightarrow> ll_before nx y d = Some (last (y # ys))"
proof (induction ys arbitrary: y)
  case Nil
  then show ?case by (subst ll_before.simps) simp
next
  case (Cons u us)
  then show ?case by (subst ll_before.simps) auto
qed

lemma ll_unlink:
  "ll nx p (xs @ y # d # zs) \<Longrightarrow> distinct (xs @ y # d # zs) \<Longrightarrow>
     ll (nx(y := nx d)) p (xs @ y # zs)"
  by (induction xs arbitrary: p) (auto simp: ll_frame)

text \<open>
  \<open>LL_DELETE\<close> of a member turns the list \<open>xs\<close> into \<open>remove1 x xs\<close> and leaves the other
  lists of the heap alone.
\<close>

theorem ll_delete_refines:
  assumes "ll nx head xs" and "distinct xs" and "x \<in> set xs"
  shows "\<exists>nx' head'. ll_delete nx head x = Some (Inr (nx', head')) \<and> ll nx' head' (remove1 x xs)
    \<and> (set ys \<inter> set xs = {} \<longrightarrow> ll nx q ys \<longrightarrow> ll nx' q ys)"
proof -
  obtain us vs where xs: "xs = us @ x # vs" "x \<notin> set us"
    using split_list_first [OF assms(3)] by blast
  show ?thesis
  proof (cases us rule: rev_cases)
    case Nil
    then show ?thesis using assms xs by (auto simp: ll_delete_def)
  next
    case (snoc ws y)
    define h where "h = hd us"
    have h: "head = Some h" "us = h # tl us"
      using ll_head [OF assms(1)] snoc xs by (simp_all add: h_def hd_append)
    have neq: "h \<noteq> x" using h(2) xs(2) by (metis list.set_intros(1))
    have "ll_before nx h x = Some (last us)"
      using ll_before_ll [of nx h "tl us" x vs] assms(1) xs h
      by (metis append_Cons list.set_intros(2))
    moreover have nxy: "nx y = Some x"
    proof -
      have "ll nx p (ws @ y # x # vs) \<Longrightarrow> nx y = Some x" for p
        by (induction ws arbitrary: p) auto
      then show ?thesis using assms(1) xs snoc by auto
    qed
    ultimately have "ll_delete nx head x = Some (Inr (nx(y := nx x), head))"
      using h neq snoc by (simp add: ll_delete_def)
    moreover have "ll (nx(y := nx x)) head (remove1 x xs)"
      using ll_unlink [of nx head ws y x vs] assms xs snoc by (simp add: remove1_append)
    ultimately show ?thesis
      using xs snoc by (auto simp: ll_frame)
  qed
qed

theorem ll_delete_refines_witness:
  "\<exists>nx' head'. ll_delete (\<lambda>a. if a = 1 then Some 2 else None) (Some 1) 2 = Some (Inr (nx', head'))
     \<and> ll nx' head' [1]"
proof -
  have "ll (\<lambda>a. if a = 1 then Some 2 else None) (Some 1) [1, 2]" by simp
  from ll_delete_refines [OF this, of 2 "[]" None] show ?thesis by auto
qed

lemma ll_count_ll: "ll nx p xs \<Longrightarrow> ll_count nx p c = Some (c + length xs)"
  by (induction xs arbitrary: p c) (subst ll_count.simps, simp)+

lemma ll_count_proper:
  assumes "ll_count nx p c = Some n"
  shows "\<exists>xs. ll nx p xs"
proof (rule ll_count.raw_induct [where P = "\<lambda>nx p c n. \<exists>xs. ll nx p xs", OF _ assms])
  fix count :: "next_heap \<Rightarrow> addr option \<Rightarrow> nat \<Rightarrow> nat option" and nx el c n
  assume IH: "\<And>nx el c n. count nx el c = Some n \<Longrightarrow> \<exists>xs. ll nx el xs"
    and run: "(case el of None \<Rightarrow> Some c | Some e \<Rightarrow> count nx (nx e) (c + 1)) = Some n"
  show "\<exists>xs. ll nx el xs"
  proof (cases el)
    case None
    then show ?thesis by (intro exI [of _ "[]"]) simp
  next
    case (Some e)
    with run have "count nx (nx e) (c + 1) = Some n" by simp
    then obtain xs where "ll nx (nx e) xs" using IH by blast
    with Some show ?thesis by (intro exI [of _ "e # xs"]) simp
  qed
qed

text \<open>
  \<open>LL_COUNT\<close> ends exactly on the heaps that hold a list, and returns its length.
\<close>

theorem ll_count_length: "ll_count nx head 0 = Some n \<longleftrightarrow> (\<exists>xs. ll nx head xs \<and> length xs = n)"
  using ll_count_proper [of nx head 0 n] ll_count_ll [of nx head _ 0] by fastforce

lemma ll_self_loop: "nx x = Some x \<Longrightarrow> \<not> ll nx (Some x) zs"
  by (induction zs) auto

lemma ll_suffix:
  "ll nx p (us @ [x]) \<Longrightarrow> x \<notin> set us \<Longrightarrow> ll (nx(x := v)) p ys \<Longrightarrow> \<exists>zs. ll (nx(x := v)) (Some x) zs"
proof (induction us arbitrary: p ys)
  case (Cons u us)
  then show ?case by (cases ys) (auto split: if_splits)
qed auto

text \<open>
  Appending a node that is already in the list (a connection released twice) ties the
  list into a cycle, after which counting its connections never ends.
\<close>

theorem ll_append_twice_hangs:
  assumes "ll nx head xs" and "x \<in> set xs"
  shows "\<exists>nx' head'. ll_append nx head x = Some (nx', head') \<and> ll_count nx' head' 0 = None"
proof -
  obtain us vs where xs: "xs = us @ x # vs" "x \<notin> set us"
    using split_list_first [OF assms(2)] by blast
  let ?nx = "nx(x := None)"
  have cut: "ll ?nx head (us @ [x])"
  proof -
    have "ll nx p (us @ x # vs) \<Longrightarrow> ll ?nx p (us @ [x])" for p
      using xs(2) by (induction us arbitrary: p) auto
    with assms(1) xs show ?thesis by blast
  qed
  define h where "h = hd (us @ [x])"
  have h: "head = Some h" "us @ [x] = h # tl (us @ [x])"
    using ll_head [OF cut] by (simp_all add: h_def)
  then have "ll_last ?nx h = Some x"
    using ll_last_ll [of ?nx h "tl (us @ [x])"] cut by (metis last_snoc)
  with h have run: "ll_append nx head x = Some (?nx(x := Some x), head)"
    by (simp add: ll_append_def Let_def)
  have "ll_count (?nx(x := Some x)) head 0 \<noteq> Some n" for n
  proof
    assume "ll_count (?nx(x := Some x)) head 0 = Some n"
    then obtain ys where "ll (?nx(x := Some x)) head ys" using ll_count_proper by blast
    with ll_suffix [OF cut xs(2)] obtain zs where "ll (?nx(x := Some x)) (Some x) zs" by blast
    then show False using ll_self_loop [of "?nx(x := Some x)" x zs] by simp
  qed
  with run show ?thesis by blast
qed

theorem ll_append_twice_hangs_witness:
  "\<exists>nx' head'. ll_append (\<lambda>a. if a = 1 then Some 2 else None) (Some 1) 1 = Some (nx', head')
     \<and> ll_count nx' head' 0 = None"
proof -
  have "ll (\<lambda>a. if a = 1 then Some 2 else None) (Some 1) [1, 2]" by simp
  from ll_append_twice_hangs [OF this, of 1] show ?thesis by simp
qed

end
