(* ===== verification/Conn_Pool.thy ===== *)
theory Conn_Pool
  imports Socket_IO Utlist
begin

text \<open>
  The connection pool of soaagent/conn_pool.c.  Connections are objects on a heap; the pool
  holds two lists of their addresses (theory Utlist relates these lists to the \<open>next\<close> fields).
  The operating system is part of the state: the open descriptors of the process and their
  limit, the network, which answers the n-th \<open>connect\<close> and gives the connection it makes
  the channel \<open>peers n\<close>, the channel of each connected descriptor, and the clock, which answers the n-th reading.  Each operation of the pool runs between \<open>pool_lock\<close> and \<open>pool_unlock\<close>, so it
  is one atomic step on this state.
\<close>

section \<open>Connections and the system they live in\<close>

record conn_obj =
  sock_fd :: int
  conn_host :: string
  conn_port :: int
  conn_timeout_secs :: int
  last_used_time :: timeval
  last_check_time :: timeval
  connected :: bool
  error_occured :: bool

record world =
  heap :: "addr \<Rightarrow> conn_obj option"
  next_addr :: addr
  junk :: conn_obj
  open_fds :: "nat list"
  fd_limit :: nat
  net :: "nat \<Rightarrow> string \<Rightarrow> int \<Rightarrow> bool"
  attempts :: nat
  peers :: "nat \<Rightarrow> channel"
  lines :: "int \<Rightarrow> channel option"
  clock :: "nat \<Rightarrow> timeval"
  ticks :: nat

definition malloc_conn :: "world \<Rightarrow> addr \<times> world" where
  "malloc_conn w = (next_addr w,
     w\<lparr>heap := (heap w)(next_addr w \<mapsto> junk w), next_addr := Suc (next_addr w)\<rparr>)"

definition free_conn :: "addr \<Rightarrow> world \<Rightarrow> world" where
  "free_conn a w = w\<lparr>heap := (heap w)(a := None)\<rparr>"

definition store_conn :: "addr \<Rightarrow> conn_obj \<Rightarrow> world \<Rightarrow> world" where
  "store_conn a conn w = w\<lparr>heap := (heap w)(a \<mapsto> conn)\<rparr>"

text \<open>\<open>socket\<close> returns the lowest free descriptor, or -1 at the limit of the process.\<close>

definition lowest_free :: "nat list \<Rightarrow> nat" where
  "lowest_free fds = hd (filter (\<lambda>n. n \<notin> set fds) [0 ..< Suc (length fds)])"

definition socket :: "world \<Rightarrow> int \<times> world" where
  "socket w =
     (let fd = lowest_free (open_fds w) in
      if fd < fd_limit w then (int fd, w\<lparr>open_fds := fd # open_fds w\<rparr>) else (-1, w))"

definition connect :: "int \<Rightarrow> string \<Rightarrow> int \<Rightarrow> world \<Rightarrow> int \<times> world" where
  "connect fd host port w =
     (if 0 \<le> fd \<and> net w (attempts w) host port
      then (0, w\<lparr>attempts := Suc (attempts w), lines := (lines w)(fd \<mapsto> peers w (attempts w))\<rparr>)
      else (-1, w\<lparr>attempts := Suc (attempts w), lines := (lines w)(fd := None)\<rparr>))"

definition close_fd :: "int \<Rightarrow> world \<Rightarrow> int \<times> world" where
  "close_fd fd w =
     (if 0 \<le> fd \<and> nat fd \<in> set (open_fds w)
      then (0, w\<lparr>open_fds := removeAll (nat fd) (open_fds w)\<rparr>) else (-1, w))"

definition get_now_time :: "world \<Rightarrow> timeval \<times> world" where
  "get_now_time w = (clock w (ticks w), w\<lparr>ticks := Suc (ticks w)\<rparr>)"

section \<open>Operations on a connection\<close>

definition HOST_NAME_LEN :: nat where "HOST_NAME_LEN = 100"

definition conn_init :: "conn_obj \<Rightarrow> string \<Rightarrow> int \<Rightarrow> int \<Rightarrow> conn_obj" where
  "conn_init conn host port timeoutsecs =
     conn\<lparr>conn_host := snprintf_s HOST_NAME_LEN host, conn_port := port,
          conn_timeout_secs := timeoutsecs, connected := False, error_occured := False\<rparr>"

definition conn_connect :: "conn_obj \<Rightarrow> world \<Rightarrow> int \<times> conn_obj \<times> world" where
  "conn_connect conn w =
     (let (fd, w) = socket w;
          conn = conn\<lparr>sock_fd := fd\<rparr>;
          (ret, w) = connect fd (conn_host conn) (conn_port conn) w
      in if ret \<noteq> 0 then (-1, conn, w)
         else
           let conn = conn\<lparr>connected := True, error_occured := False\<rparr>;
               (t1, w) = get_now_time w;
               (t2, w) = get_now_time w
           in (0, conn\<lparr>last_used_time := t1, last_check_time := t2\<rparr>, w))"

definition conn_disconnect :: "conn_obj \<Rightarrow> world \<Rightarrow> int \<times> conn_obj \<times> world" where
  "conn_disconnect conn w =
     (let conn = conn\<lparr>connected := False, error_occured := False\<rparr>;
          (ret, w) = close_fd (sock_fd conn) w
      in if ret \<noteq> 0 then (-1, conn, w) else (0, conn, w))"

definition conn_reconnect :: "conn_obj \<Rightarrow> world \<Rightarrow> int \<times> conn_obj \<times> world" where
  "conn_reconnect conn w = (let (_, conn, w) = conn_disconnect conn w in conn_connect conn w)"

text \<open>
  The product is one of signed integers, which may overflow; for the comparison it is converted to
  \<open>unsigned int\<close>.
\<close>

definition conn_is_idle_timeout :: "conn_obj \<Rightarrow> int \<Rightarrow> world \<Rightarrow> fault + bool \<times> world" where
  "conn_is_idle_timeout conn max_idle_seconds w =
     (let (cur, w) = get_now_time w;
          passed_milis = get_time_difference (last_used_time conn) cur
      in if int_ok (max_idle_seconds * 1000)
         then Inr (passed_milis > word_of_int (max_idle_seconds * 1000), w)
         else Inl IntOverflow)"

definition conn_is_checked_just_now :: "conn_obj \<Rightarrow> int \<Rightarrow> world \<Rightarrow> fault + bool \<times> world" where
  "conn_is_checked_just_now conn max_idle_seconds w =
     (let (cur, w) = get_now_time w;
          passed_milis = get_time_difference (last_check_time conn) cur
      in if int_ok (max_idle_seconds * 1000)
         then Inr (passed_milis < word_of_int (max_idle_seconds * 1000), w)
         else Inl IntOverflow)"

definition conn_test_its_validation :: "conn_obj \<Rightarrow> (conn_obj \<Rightarrow> int) \<Rightarrow> bool" where
  "conn_test_its_validation conn test_conn_func = (test_conn_func conn \<noteq> 0)"

section \<open>Operations on a pool\<close>

record pool_obj =
  unused_conn_list :: "addr list"
  used_conn_list :: "addr list"
  inited :: bool
  pool_host :: string
  pool_port :: int
  pool_timeout_secs :: int
  init_conn_num :: int
  min_conn_num :: int
  max_conn_num :: int
  max_idle_secs :: int

text \<open>One iteration of the loop of \<open>pool_init\<close>.\<close>

definition add_new_conn :: "pool_obj \<times> world \<Rightarrow> pool_obj \<times> world" where
  "add_new_conn = (\<lambda>(pool, w).
     let (a, w) = malloc_conn w;
         conn = conn_init (junk w) (pool_host pool) (pool_port pool) (pool_timeout_secs pool);
         (ret, conn, w) = conn_connect conn w
     in if ret = 0
        then (pool\<lparr>unused_conn_list := list_append (unused_conn_list pool) a\<rparr>, store_conn a conn w)
        else (pool, free_conn a w))"

definition pool_init ::
  "string \<Rightarrow> int \<Rightarrow> int \<Rightarrow> int \<Rightarrow> int \<Rightarrow> int \<Rightarrow> int \<Rightarrow> world \<Rightarrow> pool_obj \<times> world" where
  "pool_init host port timeoutsecs initial minimal maximal idle_secs w =
     (let pool = \<lparr>unused_conn_list = [], used_conn_list = [], inited = False,
            pool_host = snprintf_s HOST_NAME_LEN host, pool_port = port,
            pool_timeout_secs = timeoutsecs, init_conn_num = initial, min_conn_num = minimal,
            max_conn_num = maximal, max_idle_secs = idle_secs\<rparr>;
          (pool, w) = (add_new_conn ^^ nat initial) (pool, w)
      in (pool\<lparr>inited := True\<rparr>, w))"

definition pool_get_idle_conn_num :: "pool_obj \<Rightarrow> int" where
  "pool_get_idle_conn_num pool = int (length (unused_conn_list pool))"

definition pool_get_used_conn_num :: "pool_obj \<Rightarrow> int" where
  "pool_get_used_conn_num pool = int (length (used_conn_list pool))"

definition pool_get_total_conn_num :: "pool_obj \<Rightarrow> int" where
  "pool_get_total_conn_num pool = pool_get_idle_conn_num pool + pool_get_used_conn_num pool"

text \<open>The loop of \<open>pool_destroy\<close>: each element in turn is the head of the list.\<close>

fun destroy_conns :: "addr list \<Rightarrow> pool_obj \<Rightarrow> world \<Rightarrow> fault + pool_obj \<times> world" where
  "destroy_conns [] pool w = Inr (pool, w)"
| "destroy_conns (elt # elts) pool w =
     (case (list_delete (unused_conn_list pool) elt, heap w elt) of
        (Inr unused, Some conn) \<Rightarrow>
          let (_, _, w) = conn_disconnect conn w
          in destroy_conns elts (pool\<lparr>unused_conn_list := unused\<rparr>) (free_conn elt w)
      | (Inl f, _) \<Rightarrow> Inl f
      | (_, None) \<Rightarrow> Inl OutOfBounds)"

definition pool_destroy :: "pool_obj \<Rightarrow> world \<Rightarrow> fault + int \<times> pool_obj \<times> world" where
  "pool_destroy pool w =
     (let count = pool_get_used_conn_num pool in
      if count > 0 then Inr (-1, pool, w)
      else (case destroy_conns (unused_conn_list pool) pool w of
              Inl f \<Rightarrow> Inl f
            | Inr (pool, w) \<Rightarrow> Inr (0, pool, w)))"

definition pool_require_connection :: "pool_obj \<Rightarrow> world \<Rightarrow> fault + addr option \<times> pool_obj \<times> world" where
  "pool_require_connection pool w =
     (let count = pool_get_idle_conn_num pool in
      if count > 0 then
        (let conn = hd (unused_conn_list pool) in
         case list_delete (unused_conn_list pool) conn of
           Inl f \<Rightarrow> Inl f
         | Inr unused \<Rightarrow>
             Inr (Some conn, pool\<lparr>unused_conn_list := unused,
                                  used_conn_list := list_append (used_conn_list pool) conn\<rparr>, w))
      else
        (let total_count = pool_get_used_conn_num pool + count in
         if total_count < max_conn_num pool then
           (let (a, w) = malloc_conn w;
                conn = conn_init (junk w) (pool_host pool) (pool_port pool) (pool_timeout_secs pool);
                (ret, conn, w) = conn_connect conn w
            in if ret = 0
               then Inr (Some a, pool\<lparr>used_conn_list := list_append (used_conn_list pool) a\<rparr>, store_conn a conn w)
               else Inr (None, pool, free_conn a w))
         else Inr (None, pool, w)))"

definition pool_release_connection ::
  "pool_obj \<Rightarrow> addr option \<Rightarrow> bool \<Rightarrow> world \<Rightarrow> fault + pool_obj \<times> world" where
  "pool_release_connection pool conn release_as_normal w =
     (case conn of
        None \<Rightarrow> Inr (pool, w)
      | Some a \<Rightarrow>
          (case (list_delete (used_conn_list pool) a, heap w a) of
             (Inr used, Some c) \<Rightarrow>
               let pool = pool\<lparr>used_conn_list := used,
                               unused_conn_list := list_append (unused_conn_list pool) a\<rparr>
               in if release_as_normal
                  then (let (t, w) = get_now_time w in Inr (pool, store_conn a (c\<lparr>last_used_time := t\<rparr>) w))
                  else Inr (pool, store_conn a (c\<lparr>error_occured := True\<rparr>) w)
           | (Inl f, _) \<Rightarrow> Inl f
           | (_, None) \<Rightarrow> Inl OutOfBounds))"

text \<open>The loop of \<open>pool_check\<close>: it stops at the first connection it closes.\<close>

fun close_idle :: "addr list \<Rightarrow> pool_obj \<Rightarrow> world \<Rightarrow> fault + pool_obj \<times> world" where
  "close_idle [] pool w = Inr (pool, w)"
| "close_idle (elt # elts) pool w =
     (case heap w elt of
        None \<Rightarrow> Inl OutOfBounds
      | Some conn \<Rightarrow>
          if \<not> int_ok (max_idle_secs pool * 2) then Inl IntOverflow
          else
            (case conn_is_idle_timeout conn (max_idle_secs pool * 2) w of
               Inl f \<Rightarrow> Inl f
             | Inr (expired, w) \<Rightarrow>
                 if expired then
                   (case list_delete (unused_conn_list pool) elt of
                      Inl f \<Rightarrow> Inl f
                    | Inr unused \<Rightarrow>
                        let (_, _, w) = conn_disconnect conn w
                        in Inr (pool\<lparr>unused_conn_list := unused\<rparr>, free_conn elt w))
                 else close_idle elts pool w))"

definition pool_check :: "pool_obj \<Rightarrow> world \<Rightarrow> fault + pool_obj \<times> world" where
  "pool_check pool w =
     (let used_conn_num = pool_get_used_conn_num pool in
      if used_conn_num = 0 then
        (let idle_conn_num = pool_get_idle_conn_num pool;
             can_close_num = idle_conn_num - min_conn_num pool
         in if can_close_num > 0 then close_idle (unused_conn_list pool) pool w else Inr (pool, w))
      else Inr (pool, w))"

definition pool_status :: "pool_obj \<Rightarrow> nat \<Rightarrow> string" where
  "pool_status pool buf_len =
     snprintf_s buf_len
       (''host:'' @ pool_host pool @ '', port:'' @ show_int (pool_port pool)
        @ '', idle:'' @ show_int (pool_get_idle_conn_num pool)
        @ '', used:'' @ show_int (pool_get_used_conn_num pool)
        @ '', min:'' @ show_int (min_conn_num pool) @ '', max:'' @ show_int (max_conn_num pool))"

section \<open>The invariant\<close>

definition world_ok :: "world \<Rightarrow> bool" where
  "world_ok w \<longleftrightarrow> (\<forall>a. heap w a \<noteq> None \<longrightarrow> a < next_addr w)"

text \<open>
  Connections have descriptors below the limit of the process.  (It is not part of the invariant,
  but kept; a limit of at most \<open>FD_SETSIZE\<close> then keeps \<open>FD_SET\<close> inside its set.)
\<close>

definition fds_ok :: "world \<Rightarrow> bool" where
  "fds_ok w \<longleftrightarrow> (\<forall>a c. heap w a = Some c \<longrightarrow> sock_fd c < int (fd_limit w))"

definition fds_fit :: "world \<Rightarrow> bool" where
  "fds_fit w \<longleftrightarrow> fds_ok w \<and> int (fd_limit w) \<le> FD_SETSIZE"

text \<open>The configured idle time can be doubled and turned into milliseconds.\<close>

definition idle_secs_ok :: "int \<Rightarrow> bool" where
  "idle_secs_ok secs \<longleftrightarrow> int_ok (secs * 2 * 1000)"

lemma idle_secs_ok_double: "idle_secs_ok secs \<Longrightarrow> int_ok (secs * 2)"
  by (auto simp: idle_secs_ok_def int_ok_def)

definition conns :: "pool_obj \<Rightarrow> addr set" where
  "conns pool = set (unused_conn_list pool) \<union> set (used_conn_list pool)"

text \<open>No address is listed twice, and each is a live connection to the pool's own endpoint.\<close>

definition pool_ok :: "world \<Rightarrow> pool_obj \<Rightarrow> bool" where
  "pool_ok w pool \<longleftrightarrow> length (pool_host pool) < HOST_NAME_LEN
     \<and> distinct (unused_conn_list pool @ used_conn_list pool)
     \<and> (\<forall>a \<in> conns pool. \<exists>c. heap w a = Some c \<and> conn_host c = pool_host pool \<and> conn_port c = pool_port pool)"

text \<open>
  What an operation on one pool leaves alone: every object that is neither the pool's nor new.
\<close>

definition only_touches :: "world \<Rightarrow> pool_obj \<Rightarrow> world \<Rightarrow> pool_obj \<Rightarrow> bool" where
  "only_touches w pool w' pool' \<longleftrightarrow> next_addr w \<le> next_addr w'
     \<and> fd_limit w' = fd_limit w \<and> (fds_ok w \<longrightarrow> fds_ok w')
     \<and> (\<forall>a. a \<notin> conns pool \<longrightarrow> a < next_addr w \<longrightarrow> heap w' a = heap w a)
     \<and> conns pool' \<subseteq> conns pool \<union> {next_addr w ..< next_addr w'}"

definition same_target :: "pool_obj \<Rightarrow> pool_obj \<Rightarrow> bool" where
  "same_target pool pool' \<longleftrightarrow> pool_host pool' = pool_host pool \<and> pool_port pool' = pool_port pool
     \<and> max_conn_num pool' = max_conn_num pool \<and> min_conn_num pool' = min_conn_num pool
     \<and> max_idle_secs pool' = max_idle_secs pool"

lemmas pool_defs = pool_ok_def conns_def only_touches_def same_target_def world_ok_def

lemma only_touches_refl [simp]: "only_touches w pool w pool" "same_target pool pool"
  by (auto simp: pool_defs)

lemma only_touches_trans:
  "only_touches w p w1 p1 \<Longrightarrow> only_touches w1 p1 w2 p2 \<Longrightarrow> only_touches w p w2 p2"
  unfolding only_touches_def
  by (intro conjI allI impI) (auto simp: subset_iff, (metis atLeastLessThan_iff not_le order_less_le_trans)+)

lemma pool_ok_frame:
  assumes "pool_ok w q" and "only_touches w p w' p'" and "conns q \<inter> conns p = {}" and "world_ok w"
  shows "pool_ok w' q"
  using assms unfolding pool_ok_def only_touches_def world_ok_def
  by (metis disjoint_iff option.distinct(1))

section \<open>Descriptors\<close>

lemma lowest_free_in: "lowest_free fds \<in> {n. n \<notin> set fds \<and> n \<le> length fds}"
proof -
  let ?ns = "filter (\<lambda>n. n \<notin> set fds) [0 ..< Suc (length fds)]"
  have "?ns \<noteq> []"
  proof
    assume "?ns = []"
    then have "{0 ..< Suc (length fds)} \<subseteq> set fds"
      unfolding filter_empty_conv set_upt by blast
    then have "card {0 ..< Suc (length fds)} \<le> card (set fds)" by (rule card_mono [rotated]) simp
    also have "\<dots> \<le> length fds" by (rule card_length)
    finally show False by simp
  qed
  then have "hd ?ns \<in> set ?ns" by (rule hd_in_set)
  then show ?thesis unfolding lowest_free_def by auto
qed

lemma conn_connect_props:
  assumes "conn_connect conn w = (ret, conn', w')"
  shows "heap w' = heap w \<and> next_addr w' = next_addr w \<and> junk w' = junk w \<and> net w' = net w
    \<and> fd_limit w' = fd_limit w
    \<and> conn_host conn' = conn_host conn \<and> conn_port conn' = conn_port conn
    \<and> (ret = 0 \<longrightarrow> connected conn' \<and> 0 \<le> sock_fd conn')
    \<and> open_fds w' = (if lowest_free (open_fds w) < fd_limit w
                     then lowest_free (open_fds w) # open_fds w else open_fds w)
    \<and> sock_fd conn' = (if lowest_free (open_fds w) < fd_limit w then int (lowest_free (open_fds w)) else -1)
    \<and> (ret = 0 \<longleftrightarrow> 0 \<le> sock_fd conn' \<and> net w (attempts w) (conn_host conn) (conn_port conn))"
  using assms
  by (auto simp: conn_connect_def socket_def connect_def get_now_time_def Let_def split: if_splits prod.splits)

lemma conn_disconnect_props:
  assumes "conn_disconnect conn w = (ret, conn', w')"
  shows "heap w' = heap w \<and> next_addr w' = next_addr w
    \<and> conn_host conn' = conn_host conn \<and> conn_port conn' = conn_port conn
    \<and> fd_limit w' = fd_limit w
    \<and> open_fds w' = (if 0 \<le> sock_fd conn then removeAll (nat (sock_fd conn)) (open_fds w) else open_fds w)"
  using assms
  by (auto simp: conn_disconnect_def close_fd_def Let_def removeAll_id split: if_splits prod.splits)

lemma conn_init_props [simp]:
  "conn_host (conn_init c h p t) = snprintf_s HOST_NAME_LEN h" "conn_port (conn_init c h p t) = p"
  by (simp_all add: conn_init_def)

section \<open>Each operation keeps the invariant\<close>

definition keeps :: "world \<Rightarrow> pool_obj \<Rightarrow> world \<Rightarrow> pool_obj \<Rightarrow> bool" where
  "keeps w pool w' pool' \<longleftrightarrow> world_ok w' \<and> pool_ok w' pool' \<and> only_touches w pool w' pool'
     \<and> same_target pool pool'"

lemma keeps_refl: "world_ok w \<Longrightarrow> pool_ok w p \<Longrightarrow> keeps w p w p"
  by (simp add: keeps_def)

lemma keeps_trans: "keeps w p w1 p1 \<Longrightarrow> keeps w1 p1 w2 p2 \<Longrightarrow> keeps w p w2 p2"
  unfolding keeps_def same_target_def using only_touches_trans by fastforce

text \<open>The new connection of \<open>pool_init\<close> and \<open>pool_require_connection\<close>.\<close>

lemma new_conn_keeps:
  assumes inv: "world_ok w" "pool_ok w p"
    and run: "conn_connect (conn_init (junk w) (pool_host p) (pool_port p) t) (snd (malloc_conn w)) = (ret, c, w')"
  shows "keeps w p (free_conn (next_addr w) w') p"
    and "next_addr w \<notin> conns p"
    and "keeps w p (store_conn (next_addr w) c w') (p\<lparr>unused_conn_list := unused_conn_list p @ [next_addr w]\<rparr>)"
    and "keeps w p (store_conn (next_addr w) c w') (p\<lparr>used_conn_list := used_conn_list p @ [next_addr w]\<rparr>)"
proof -
  have w': "heap w' = (heap w)(next_addr w \<mapsto> junk w)" "next_addr w' = Suc (next_addr w)"
    "conn_host c = pool_host p" "conn_port c = pool_port p" "fd_limit w' = fd_limit w" "sock_fd c < int (fd_limit w)"
    using conn_connect_props [OF run] inv
    by (auto simp: malloc_conn_def pool_ok_def snprintf_s_fits)
  show new: "next_addr w \<notin> conns p"
    using inv unfolding pool_ok_def world_ok_def by (metis less_irrefl option.distinct(1))
  have old: "a \<in> conns p \<Longrightarrow> a < next_addr w" for a
    using inv unfolding pool_ok_def world_ok_def by (metis option.distinct(1))
  show "keeps w p (free_conn (next_addr w) w') p"
    using inv new w' unfolding keeps_def pool_ok_def
    by (auto simp: free_conn_def world_ok_def only_touches_def same_target_def fds_ok_def less_Suc_eq)
  let ?w = "store_conn (next_addr w) c w'"
  have added: "keeps w p ?w p'"
    if "same_target p p'" "conns p' = insert (next_addr w) (conns p)"
      "distinct (unused_conn_list p' @ used_conn_list p')" for p'
  proof -
    have "world_ok ?w"
      using inv w' by (auto simp: store_conn_def world_ok_def less_Suc_eq)
    moreover have "pool_ok ?w p'"
      using that inv w' new by (auto simp: pool_ok_def store_conn_def same_target_def)
    moreover have "only_touches w p ?w p'"
      using that w' by (auto simp: only_touches_def store_conn_def fds_ok_def)
    ultimately show ?thesis using that by (simp add: keeps_def)
  qed
  show "keeps w p ?w (p\<lparr>unused_conn_list := unused_conn_list p @ [next_addr w]\<rparr>)"
    using inv new by (intro added) (auto simp: conns_def same_target_def pool_ok_def)
  show "keeps w p ?w (p\<lparr>used_conn_list := used_conn_list p @ [next_addr w]\<rparr>)"
    using inv new by (intro added) (auto simp: conns_def same_target_def pool_ok_def)
qed

lemma add_new_conn_keeps:
  assumes "world_ok w" and "pool_ok w p" and run: "add_new_conn (p, w) = (p', w')"
  shows "keeps w p w' p' \<and> used_conn_list p' = used_conn_list p
    \<and> length (unused_conn_list p') \<le> Suc (length (unused_conn_list p))"
proof -
  obtain ret c w1 where conn: "conn_connect (conn_init (junk w) (pool_host p) (pool_port p) (pool_timeout_secs p))
      (snd (malloc_conn w)) = (ret, c, w1)" by (metis prod_cases3)
  note new = new_conn_keeps [OF assms(1,2) conn]
  have junk: "junk (snd (malloc_conn w)) = junk w" by (simp add: malloc_conn_def)
  show ?thesis
  proof (cases "ret = 0")
    case True
    with run conn junk have "p' = p\<lparr>unused_conn_list := unused_conn_list p @ [next_addr w]\<rparr>"
      "w' = store_conn (next_addr w) c w1"
      by (auto simp: add_new_conn_def list_append_def malloc_conn_def Let_def)
    with new(3) show ?thesis by simp
  next
    case False
    with run conn junk have "p' = p" "w' = free_conn (next_addr w) w1"
      by (simp_all add: add_new_conn_def list_append_def malloc_conn_def Let_def)
    with new(1) show ?thesis by simp
  qed
qed

lemma add_new_conns_keep:
  "world_ok w \<Longrightarrow> pool_ok w p \<Longrightarrow> (add_new_conn ^^ n) (p, w) = (p', w') \<Longrightarrow>
     keeps w p w' p' \<and> used_conn_list p' = used_conn_list p
     \<and> length (unused_conn_list p') \<le> n + length (unused_conn_list p)"
proof (induction n arbitrary: p' w')
  case (Suc n)
  obtain p1 w1 where one: "(add_new_conn ^^ n) (p, w) = (p1, w1)" by (metis surj_pair)
  with Suc have IH: "keeps w p w1 p1" "used_conn_list p1 = used_conn_list p"
    "length (unused_conn_list p1) \<le> n + length (unused_conn_list p)" by auto
  have "add_new_conn (p1, w1) = (p', w')" using Suc.prems one by simp
  from add_new_conn_keeps [OF _ _ this] IH(1) have
    "keeps w1 p1 w' p'" "used_conn_list p' = used_conn_list p1"
    "length (unused_conn_list p') \<le> Suc (length (unused_conn_list p1))" by (auto simp: keeps_def)
  with IH keeps_trans show ?case by fastforce
qed (auto intro: keeps_refl)

lemma pool_init_keeps:
  assumes "world_ok w" and run: "pool_init host port t i mn mx idle w = (pool, w')"
  shows "world_ok w' \<and> pool_ok w' pool \<and> used_conn_list pool = []
    \<and> length (unused_conn_list pool) \<le> nat i \<and> max_conn_num pool = mx
    \<and> (pool_ok w q \<longrightarrow> pool_ok w' q \<and> conns q \<inter> conns pool = {})
    \<and> max_idle_secs pool = idle \<and> fd_limit w' = fd_limit w \<and> (fds_ok w \<longrightarrow> fds_ok w')"
proof -
  define p0 where "p0 = \<lparr>unused_conn_list = [], used_conn_list = [], inited = False,
      pool_host = snprintf_s HOST_NAME_LEN host, pool_port = port,
      pool_timeout_secs = t, init_conn_num = i, min_conn_num = mn,
      max_conn_num = mx, max_idle_secs = idle\<rparr>"
  obtain p1 where loop: "(add_new_conn ^^ nat i) (p0, w) = (p1, w')" and pool: "pool = p1\<lparr>inited := True\<rparr>"
    using run by (auto simp: pool_init_def p0_def Let_def split: prod.splits)
  have p0: "pool_ok w p0" "conns p0 = {}" "used_conn_list p0 = []" "unused_conn_list p0 = []" "max_conn_num p0 = mx"
    "max_idle_secs p0 = idle"
    by (simp_all add: p0_def pool_ok_def conns_def length_snprintf_s HOST_NAME_LEN_def)
  from add_new_conns_keep [OF assms(1) p0(1) loop] p0
  have k: "keeps w p0 w' p1" "used_conn_list p1 = []" "length (unused_conn_list p1) \<le> nat i" by simp_all
  have same: "conns pool = conns p1" "pool_ok w' pool = pool_ok w' p1" "max_conn_num pool = max_conn_num p1"
    "max_idle_secs pool = max_idle_secs p1"
    "used_conn_list pool = used_conn_list p1" "unused_conn_list pool = unused_conn_list p1"
    by (simp_all add: pool conns_def pool_ok_def)
  have "pool_ok w' q \<and> conns q \<inter> conns pool = {}" if q: "pool_ok w q"
  proof
    show "pool_ok w' q"
      using pool_ok_frame [OF q _ _ assms(1), of p0 w' p1] k(1) p0(2) by (simp add: keeps_def)
    have "a < next_addr w" if "a \<in> conns q" for a
      using that q assms(1) unfolding pool_ok_def world_ok_def by (metis option.distinct(1))
    then show "conns q \<inter> conns pool = {}"
      using k(1) p0(2) same(1) unfolding keeps_def only_touches_def by fastforce
  qed
  with k same p0 show ?thesis by (auto simp: keeps_def same_target_def only_touches_def)
qed

text \<open>
  A sample state: three descriptors are open, the second connection attempt is refused; and
  the pool that \<open>pool_init\<close> builds in it.
\<close>

definition sample_channel :: channel where
  "sample_channel = \<lparr>ch_send = [], ch_sel = [], ch_recv = [], ch_in = [], ch_out = []\<rparr>"

definition sample_world :: world where
  "sample_world = \<lparr>heap = (\<lambda>a. None), next_addr = 0,
     junk = \<lparr>sock_fd = 77, conn_host = [], conn_port = 0, conn_timeout_secs = 0,
       last_used_time = \<lparr>tv_sec = 0, tv_usec = 0\<rparr>, last_check_time = \<lparr>tv_sec = 0, tv_usec = 0\<rparr>,
       connected = False, error_occured = False\<rparr>,
     open_fds = [0, 1, 2], fd_limit = 10, net = (\<lambda>n host port. n \<noteq> 1), attempts = 0,
     peers = (\<lambda>n. sample_channel), lines = (\<lambda>fd. None),
     clock = (\<lambda>n. \<lparr>tv_sec = 100 * int n, tv_usec = 0\<rparr>), ticks = 0\<rparr>"

definition sample :: "pool_obj \<times> world" where
  "sample = pool_init ''10.0.0.1'' 80 3 3 1 5 60 sample_world"

lemma sample_world_ok: "world_ok sample_world"
  by (simp add: sample_world_def world_ok_def)

lemma sample_values:
  "unused_conn_list (fst sample) = [0, 2]" "used_conn_list (fst sample) = []" "min_conn_num (fst sample) = 1"
  by code_simp+

lemma sample_ok: "world_ok (snd sample)" "pool_ok (snd sample) (fst sample)"
  using pool_init_keeps [OF sample_world_ok, of "''10.0.0.1''" 80 3 3 1 5 60 "fst sample" "snd sample"]
  by (simp_all add: sample_def)

lemma sample_idle: "idle_secs_ok (max_idle_secs (fst sample))"
  by code_simp

text \<open>
  \<open>pool_init\<close> makes a well-formed pool with nothing in use and at most the configured
  number of connections, and touches no connection of another pool.
\<close>

theorem pool_init_ok:
  assumes "world_ok w" and run: "pool_init host port t i mn mx idle w = (pool, w')"
  shows "world_ok w' \<and> pool_ok w' pool \<and> used_conn_list pool = []
    \<and> length (unused_conn_list pool) \<le> nat i \<and> max_conn_num pool = mx
    \<and> (pool_ok w q \<longrightarrow> pool_ok w' q \<and> conns q \<inter> conns pool = {})"
  using pool_init_keeps [OF assms] by simp

theorem pool_init_ok_witness:
  "world_ok sample_world \<and> pool_ok (snd sample) (fst sample) \<and> unused_conn_list (fst sample) = [0, 2]"
proof -
  have "pool_init ''10.0.0.1'' 80 3 3 1 5 60 sample_world = (fst sample, snd sample)"
    by (simp add: sample_def)
  from pool_init_ok [OF sample_world_ok this] sample_world_ok sample_values(1) show ?thesis by simp
qed

section \<open>Taking and returning a connection\<close>

lemma pool_require_keeps:
  assumes "world_ok w" and "pool_ok w pool"
  shows "\<exists>res pool' w'. pool_require_connection pool w = Inr (res, pool', w')
    \<and> keeps w pool w' pool'
    \<and> (case res of
         Some a \<Rightarrow> a \<notin> set (used_conn_list pool) \<and> used_conn_list pool' = used_conn_list pool @ [a]
           \<and> (if unused_conn_list pool = [] then unused_conn_list pool' = [] \<and> a \<notin> conns pool
                \<and> pool_get_total_conn_num pool' \<le> max_conn_num pool
              else unused_conn_list pool = a # unused_conn_list pool')
       | None \<Rightarrow> pool' = pool \<and> unused_conn_list pool = [])"
proof (cases "unused_conn_list pool")
  case (Cons a us)
  let ?p = "pool\<lparr>unused_conn_list := us, used_conn_list := used_conn_list pool @ [a]\<rparr>"
  have run: "pool_require_connection pool w = Inr (Some a, ?p, w)"
    using Cons by (simp add: pool_require_connection_def pool_get_idle_conn_num_def list_delete_def list_append_def)
  have "conns ?p = conns pool" using Cons by (auto simp: conns_def)
  then have "keeps w pool w ?p"
    using assms Cons by (auto simp: keeps_def pool_ok_def only_touches_def same_target_def)
  with run Cons assms(2) show ?thesis by (simp add: pool_ok_def)
next
  case Nil
  obtain ret c w1 where conn: "conn_connect (conn_init (junk w) (pool_host pool) (pool_port pool)
      (pool_timeout_secs pool)) (snd (malloc_conn w)) = (ret, c, w1)" by (metis prod_cases3)
  note new = new_conn_keeps [OF assms conn]
  have junk: "junk (snd (malloc_conn w)) = junk w" by (simp add: malloc_conn_def)
  let ?p = "pool\<lparr>used_conn_list := used_conn_list pool @ [next_addr w]\<rparr>"
  consider "\<not> pool_get_used_conn_num pool < max_conn_num pool" | "pool_get_used_conn_num pool < max_conn_num pool" "ret \<noteq> 0"
    | "pool_get_used_conn_num pool < max_conn_num pool" "ret = 0" by blast
  then show ?thesis
  proof cases
    case 1
    then have "pool_require_connection pool w = Inr (None, pool, w)"
      using Nil by (simp add: pool_require_connection_def pool_get_idle_conn_num_def)
    with Nil assms keeps_refl show ?thesis by simp
  next
    case 2
    then have "pool_require_connection pool w = Inr (None, pool, free_conn (next_addr w) w1)"
      using Nil conn junk
      by (simp add: pool_require_connection_def pool_get_idle_conn_num_def malloc_conn_def Let_def)
    with Nil new(1) show ?thesis by simp
  next
    case 3
    then have run: "pool_require_connection pool w = Inr (Some (next_addr w), ?p, store_conn (next_addr w) c w1)"
      using Nil conn junk
      by (simp add: pool_require_connection_def pool_get_idle_conn_num_def malloc_conn_def list_append_def Let_def)
    show ?thesis
      using run new(2,4) Nil 3
      by (simp add: conns_def pool_get_total_conn_num_def pool_get_idle_conn_num_def pool_get_used_conn_num_def)
  qed
qed

text \<open>
  \<open>pool_require_connection\<close> hands out an idle connection of the pool, or a newly
  connected one while the pool is below its maximum, and marks it used; it fails only when a
  new connection was refused or the maximum is reached.  No connection is ever handed out
  twice and the pool's maximum is respected.
\<close>

theorem pool_require_connection_spec:
  assumes "world_ok w" and "pool_ok w pool"
  shows "\<exists>res pool' w'. pool_require_connection pool w = Inr (res, pool', w')
    \<and> keeps w pool w' pool'
    \<and> (case res of
         Some a \<Rightarrow> a \<notin> set (used_conn_list pool) \<and> used_conn_list pool' = used_conn_list pool @ [a]
           \<and> (if unused_conn_list pool = [] then unused_conn_list pool' = [] \<and> a \<notin> conns pool
                \<and> pool_get_total_conn_num pool' \<le> max_conn_num pool
              else unused_conn_list pool = a # unused_conn_list pool')
       | None \<Rightarrow> pool' = pool \<and> unused_conn_list pool = [])"
  using assms by (rule pool_require_keeps)

theorem pool_require_connection_spec_witness:
  "\<exists>pool' w'. pool_require_connection (fst sample) (snd sample) = Inr (Some 0, pool', w')
     \<and> unused_conn_list pool' = [2] \<and> used_conn_list pool' = [0]"
  using pool_require_connection_spec [OF sample_ok] by (auto simp: sample_values split: option.splits)

lemma pool_ok_conn:
  assumes "pool_ok w p" and "a \<in> set (unused_conn_list p) \<or> a \<in> set (used_conn_list p)"
  obtains c where "heap w a = Some c" "conn_host c = pool_host p" "conn_port c = pool_port p"
  using assms unfolding pool_ok_def conns_def by blast

lemma keeps_same_heap:
  "world_ok w \<Longrightarrow> pool_ok w p \<Longrightarrow> heap w' = heap w \<Longrightarrow> next_addr w' = next_addr w \<Longrightarrow> fd_limit w' = fd_limit w
     \<Longrightarrow> keeps w p w' p"
  by (auto simp: keeps_def pool_ok_def only_touches_def same_target_def world_ok_def fds_ok_def)

lemma remove_keeps:
  assumes "world_ok w" and "pool_ok w p" and a: "a \<in> set (unused_conn_list p)"
    and "heap w' = (heap w)(a := None)" and "next_addr w' = next_addr w" and "fd_limit w' = fd_limit w"
  shows "keeps w p w' (p\<lparr>unused_conn_list := remove1 a (unused_conn_list p)\<rparr>)"
  using assms by (auto simp: keeps_def pool_defs fds_ok_def)

lemma pool_release_keeps:
  assumes "world_ok w" and "pool_ok w pool" and "a \<in> set (used_conn_list pool)"
  shows "\<exists>pool' w'. pool_release_connection pool (Some a) normal w = Inr (pool', w')
    \<and> keeps w pool w' pool' \<and> used_conn_list pool' = remove1 a (used_conn_list pool)
    \<and> unused_conn_list pool' = unused_conn_list pool @ [a]"
proof -
  obtain c where c: "heap w a = Some c" "conn_host c = pool_host pool" "conn_port c = pool_port pool"
    using assms(2,3) pool_ok_conn by metis
  let ?p = "pool\<lparr>used_conn_list := remove1 a (used_conn_list pool),
      unused_conn_list := unused_conn_list pool @ [a]\<rparr>"
  have del: "list_delete (used_conn_list pool) a = Inr (remove1 a (used_conn_list pool))"
    using assms(3) by (auto simp: list_delete_def)
  have conns: "conns ?p = conns pool"
    using assms(2,3) by (auto simp: conns_def pool_ok_def)
  have keep: "keeps w pool w' ?p"
    if "heap w' = (heap w)(a \<mapsto> c')" "next_addr w' = next_addr w" "conn_host c' = conn_host c"
      "conn_port c' = conn_port c" "fd_limit w' = fd_limit w" "sock_fd c' = sock_fd c" for w' c'
  proof -
    have "a \<in> conns pool" using assms(3) by (simp add: conns_def)
    with that c assms conns show ?thesis
      by (auto simp: keeps_def pool_ok_def only_touches_def same_target_def world_ok_def fds_ok_def)
  qed
  show ?thesis
  proof (cases normal)
    case True
    have "keeps w pool (store_conn a (c\<lparr>last_used_time := clock w (ticks w)\<rparr>) (w\<lparr>ticks := Suc (ticks w)\<rparr>)) ?p"
      by (rule keep [of _ "c\<lparr>last_used_time := clock w (ticks w)\<rparr>"]) (simp_all add: store_conn_def)
    with True del c show ?thesis
      by (simp add: pool_release_connection_def get_now_time_def list_append_def)
  next
    case False
    have "keeps w pool (store_conn a (c\<lparr>error_occured := True\<rparr>) w) ?p"
      by (rule keep [of _ "c\<lparr>error_occured := True\<rparr>"]) (simp_all add: store_conn_def)
    with False del c show ?thesis
      by (simp add: pool_release_connection_def list_append_def)
  qed
qed

text \<open>
  \<open>pool_release_connection\<close> of a connection in use moves it to the end of the idle list
  and changes no other; a released connection can be required again.
\<close>

theorem pool_release_connection_spec:
  assumes "world_ok w" and "pool_ok w pool" and "a \<in> set (used_conn_list pool)"
  shows "\<exists>pool' w'. pool_release_connection pool (Some a) normal w = Inr (pool', w')
    \<and> keeps w pool w' pool' \<and> used_conn_list pool' = remove1 a (used_conn_list pool)
    \<and> unused_conn_list pool' = unused_conn_list pool @ [a]"
  using assms by (rule pool_release_keeps)

theorem pool_release_connection_spec_witness:
  "\<exists>pool' w'. pool_release_connection ((fst sample)\<lparr>unused_conn_list := [2], used_conn_list := [0]\<rparr>) (Some 0) True (snd sample)
     = Inr (pool', w') \<and> unused_conn_list pool' = [2, 0]"
proof -
  have "pool_ok (snd sample) ((fst sample)\<lparr>unused_conn_list := [2], used_conn_list := [0]\<rparr>)"
    using sample_ok(2) by (auto simp: pool_ok_def conns_def sample_values)
  from pool_release_connection_spec [OF sample_ok(1) this, of 0 True] show ?thesis by auto
qed

section \<open>Closing idle connections\<close>

definition idle_expired :: "world \<Rightarrow> pool_obj \<Rightarrow> addr \<Rightarrow> bool" where
  "idle_expired w pool a \<longleftrightarrow> (\<exists>c n. heap w a = Some c \<and> ticks w \<le> n \<and>
     get_time_difference (last_used_time c) (clock w n) > word_of_int (max_idle_secs pool * 2 * 1000))"

lemma close_idle_spec:
  assumes "set elts \<subseteq> set (unused_conn_list p)" and "world_ok w" and "pool_ok w p" and "idle_secs_ok (max_idle_secs p)"
  shows "\<exists>p' w'. close_idle elts p w = Inr (p', w') \<and> keeps w p w' p'
    \<and> (p' = p \<or> (\<exists>a \<in> set elts. idle_expired w p a \<and> heap w' a = None
          \<and> p' = p\<lparr>unused_conn_list := remove1 a (unused_conn_list p)\<rparr>))"
  using assms
proof (induction elts arbitrary: w)
  case Nil
  then show ?case by (auto intro: keeps_refl)
next
  case (Cons e es)
  obtain c where c: "heap w e = Some c"
    using Cons.prems pool_ok_conn [of w p e] by auto
  let ?w = "w\<lparr>ticks := Suc (ticks w)\<rparr>"
  note idle = idle_secs_ok_double [OF Cons.prems(4)]
  obtain expired where exp: "conn_is_idle_timeout c (max_idle_secs p * 2) w = Inr (expired, ?w)"
    and expired: "expired \<longleftrightarrow> get_time_difference (last_used_time c) (clock w (ticks w))
        > word_of_int (max_idle_secs p * 2 * 1000)"
    using Cons.prems(4) by (simp add: conn_is_idle_timeout_def get_now_time_def idle_secs_ok_def)
  show ?case
  proof (cases expired)
    case True
    obtain r c' w1 where d: "conn_disconnect c ?w = (r, c', w1)" by (metis prod_cases3)
    have w1: "heap w1 = heap w" "next_addr w1 = next_addr w" "fd_limit w1 = fd_limit w" using conn_disconnect_props [OF d] by simp_all
    have e: "e \<in> set (unused_conn_list p)" "list_delete (unused_conn_list p) e = Inr (remove1 e (unused_conn_list p))"
      using Cons.prems(1) by (auto simp: list_delete_def)
    have "keeps w p (free_conn e w1) (p\<lparr>unused_conn_list := remove1 e (unused_conn_list p)\<rparr>)"
      using Cons.prems e w1 by (intro remove_keeps) (auto simp: free_conn_def)
    moreover have "idle_expired w p e" using True expired c by (auto simp: idle_expired_def)
    moreover have "heap (free_conn e w1) e = None" by (simp add: free_conn_def)
    moreover have "close_idle (e # es) p w
        = Inr (p\<lparr>unused_conn_list := remove1 e (unused_conn_list p)\<rparr>, free_conn e w1)"
      using True c exp d e(2) idle by simp
    ultimately show ?thesis by (metis list.set_intros(1))
  next
    case False
    have ok: "world_ok ?w" "pool_ok ?w p" using Cons.prems by (auto simp: pool_ok_def world_ok_def)
    have weaken: "idle_expired ?w p a \<Longrightarrow> idle_expired w p a" for a
      unfolding idle_expired_def by (auto dest: Suc_leD)
    obtain p' w' where IH: "close_idle es p ?w = Inr (p', w')" "keeps ?w p w' p'"
      "p' = p \<or> (\<exists>a \<in> set es. idle_expired ?w p a \<and> heap w' a = None
          \<and> p' = p\<lparr>unused_conn_list := remove1 a (unused_conn_list p)\<rparr>)"
      using Cons.IH [of ?w] Cons.prems(1,4) ok by auto
    have "close_idle (e # es) p w = Inr (p', w')" using False c exp IH(1) idle by simp
    moreover have "keeps w p w' p'"
      using keeps_trans [OF keeps_same_heap [of w p ?w] IH(2)] Cons.prems by simp
    ultimately show ?thesis using IH(3) weaken by (metis list.set_intros(2))
  qed
qed

lemma pool_check_keeps:
  assumes "world_ok w" and "pool_ok w pool" and "idle_secs_ok (max_idle_secs pool)"
  shows "\<exists>pool' w'. pool_check pool w = Inr (pool', w') \<and> keeps w pool w' pool'
    \<and> (pool' = pool \<or>
        (used_conn_list pool = [] \<and> min_conn_num pool \<le> pool_get_total_conn_num pool' \<and>
         (\<exists>a \<in> set (unused_conn_list pool). idle_expired w pool a \<and> heap w' a = None
            \<and> pool' = pool\<lparr>unused_conn_list := remove1 a (unused_conn_list pool)\<rparr>)))"
proof (cases "used_conn_list pool = [] \<and> pool_get_idle_conn_num pool - min_conn_num pool > 0")
  case True
  then have "pool_check pool w = close_idle (unused_conn_list pool) pool w"
    by (simp add: pool_check_def pool_get_used_conn_num_def)
  moreover have "min_conn_num pool \<le> pool_get_total_conn_num (pool\<lparr>unused_conn_list := remove1 a (unused_conn_list pool)\<rparr>)"
    if "a \<in> set (unused_conn_list pool)" for a
  proof -
    have "0 < length (unused_conn_list pool)" using that by (cases "unused_conn_list pool") auto
    then obtain n where "length (unused_conn_list pool) = Suc n" using gr0_implies_Suc by blast
    with True that show ?thesis
      by (simp add: length_remove1 pool_get_total_conn_num_def pool_get_idle_conn_num_def pool_get_used_conn_num_def)
  qed
  ultimately show ?thesis
    using close_idle_spec [OF subset_refl assms] True by metis
next
  case False
  then have "pool_check pool w = Inr (pool, w)"
    by (auto simp: pool_check_def pool_get_used_conn_num_def Let_def)
  then show ?thesis using assms keeps_refl by auto
qed

text \<open>Otherwise it either finds nothing to close or overflows.\<close>

lemma close_idle_overflow:
  "\<not> idle_secs_ok (max_idle_secs p) \<Longrightarrow> set elts \<subseteq> set (unused_conn_list p) \<Longrightarrow> pool_ok w p \<Longrightarrow>
     close_idle elts p w = (if elts = [] then Inr (p, w) else Inl IntOverflow)"
proof (cases elts)
  case (Cons e es)
  assume "\<not> idle_secs_ok (max_idle_secs p)" "set elts \<subseteq> set (unused_conn_list p)" "pool_ok w p"
  moreover from this obtain c where "heap w e = Some c" using pool_ok_conn [of w p e] Cons by auto
  ultimately show ?thesis
    using Cons by (simp add: conn_is_idle_timeout_def get_now_time_def idle_secs_ok_def)
qed simp

lemma pool_check_cases:
  assumes "world_ok w" and "pool_ok w pool"
  shows "(\<exists>pool' w'. pool_check pool w = Inr (pool', w') \<and> keeps w pool w' pool'
      \<and> used_conn_list pool' = used_conn_list pool)
    \<or> \<not> idle_secs_ok (max_idle_secs pool) \<and> pool_check pool w = Inl IntOverflow"
proof (cases "idle_secs_ok (max_idle_secs pool)")
  case True
  from pool_check_keeps [OF assms this] show ?thesis by auto
next
  case False
  then show ?thesis
    using close_idle_overflow [OF False subset_refl assms(2)] keeps_refl [OF assms]
    by (auto simp: pool_check_def Let_def)
qed

text \<open>
  When the configured idle time can be computed with, \<open>pool_check\<close> returns, closes at most one connection, and only when no connection
  is in use, the closed one has been idle for more than twice the configured time, and at
  least \<open>min_conn_num\<close> connections remain.
\<close>

theorem pool_check_spec:
  assumes "world_ok w" and "pool_ok w pool" and "idle_secs_ok (max_idle_secs pool)"
  shows "\<exists>pool' w'. pool_check pool w = Inr (pool', w') \<and> keeps w pool w' pool'
    \<and> (pool' = pool \<or>
        (used_conn_list pool = [] \<and> min_conn_num pool \<le> pool_get_total_conn_num pool' \<and>
         (\<exists>a \<in> set (unused_conn_list pool). idle_expired w pool a \<and> heap w' a = None
            \<and> pool' = pool\<lparr>unused_conn_list := remove1 a (unused_conn_list pool)\<rparr>)))"
  using assms by (rule pool_check_keeps)

theorem pool_check_spec_witness:
  "\<exists>pool' w'. pool_check (fst sample) (snd sample) = Inr (pool', w') \<and> pool_ok w' pool'
     \<and> 1 \<le> pool_get_total_conn_num pool'"
  using pool_check_spec [OF sample_ok sample_idle]
  by (auto simp: keeps_def sample_values pool_get_total_conn_num_def pool_get_idle_conn_num_def
      pool_get_used_conn_num_def)

section \<open>Destroying a pool\<close>

lemma destroy_conns_spec:
  assumes "world_ok w" and "pool_ok w p" and "unused_conn_list p = elts"
  shows "\<exists>w'. destroy_conns elts p w = Inr (p\<lparr>unused_conn_list := []\<rparr>, w')
    \<and> keeps w p w' (p\<lparr>unused_conn_list := []\<rparr>) \<and> (\<forall>a \<in> set elts. heap w' a = None)
    \<and> open_fds w' = filter (\<lambda>fd. \<forall>a \<in> set elts. \<forall>c. heap w a = Some c \<longrightarrow> sock_fd c \<noteq> int fd) (open_fds w)"
  using assms
proof (induction elts arbitrary: p w)
  case Nil
  then have eq: "p\<lparr>unused_conn_list := []\<rparr> = p" by (cases p) simp
  show ?case unfolding eq using Nil keeps_refl [of w p] by simp
next
  case (Cons e es)
  let ?p = "p\<lparr>unused_conn_list := es\<rparr>"
  obtain c where c: "heap w e = Some c"
    using Cons.prems pool_ok_conn [of w p e] by auto
  obtain r c' w1 where d: "conn_disconnect c w = (r, c', w1)" by (metis prod_cases3)
  let ?w = "free_conn e w1"
  have w1: "heap ?w = (heap w)(e := None)" "next_addr ?w = next_addr w"
    "open_fds ?w = filter (\<lambda>fd. sock_fd c \<noteq> int fd) (open_fds w)"
    "fd_limit ?w = fd_limit w"
    using conn_disconnect_props [OF d]
    by (auto simp: free_conn_def removeAll_filter_not_eq intro!: filter_cong)
  have k: "keeps w p ?w ?p"
    using remove_keeps [OF Cons.prems(1,2), of e ?w] w1 Cons.prems(3) by simp
  have e: "e \<notin> set es" using Cons.prems by (auto simp: pool_ok_def)
  obtain w' where IH: "destroy_conns es ?p ?w = Inr (?p\<lparr>unused_conn_list := []\<rparr>, w')"
    "keeps ?w ?p w' (?p\<lparr>unused_conn_list := []\<rparr>)" "\<forall>a \<in> set es. heap w' a = None"
    "open_fds w' = filter (\<lambda>fd. \<forall>a \<in> set es. \<forall>c. heap ?w a = Some c \<longrightarrow> sock_fd c \<noteq> int fd) (open_fds ?w)"
    using Cons.IH [of ?w ?p] k unfolding keeps_def by auto
  have "destroy_conns (e # es) p w = Inr (p\<lparr>unused_conn_list := []\<rparr>, w')"
    using c d IH(1) Cons.prems(3) by (simp add: list_delete_def)
  moreover have "keeps w p w' (p\<lparr>unused_conn_list := []\<rparr>)"
    using keeps_trans [OF k IH(2)] by simp
  moreover have "heap w' e = None"
    using IH(2) e Cons.prems k w1 unfolding keeps_def only_touches_def world_ok_def
    by (auto simp: conns_def pool_ok_def)
  moreover have "open_fds w' = filter (\<lambda>fd. \<forall>a \<in> set (e # es). \<forall>c. heap w a = Some c \<longrightarrow> sock_fd c \<noteq> int fd) (open_fds w)"
    using IH(4) w1 c e by (auto intro!: filter_cong)
  ultimately show ?case using IH(3) by auto
qed

lemma pool_destroy_keeps:
  assumes "world_ok w" and "pool_ok w pool"
  shows "if used_conn_list pool \<noteq> [] then pool_destroy pool w = Inr (-1, pool, w)
    else \<exists>w'. pool_destroy pool w = Inr (0, pool\<lparr>unused_conn_list := []\<rparr>, w')
      \<and> keeps w pool w' (pool\<lparr>unused_conn_list := []\<rparr>)
      \<and> list_all (\<lambda>a. heap w' a = None) (unused_conn_list pool)
      \<and> open_fds w' = filter (\<lambda>fd. list_all (\<lambda>a. map_option sock_fd (heap w a) \<noteq> Some (int fd))
           (unused_conn_list pool)) (open_fds w)"
proof (cases "used_conn_list pool")
  case Nil
  have "filter (\<lambda>fd. list_all (\<lambda>a. map_option sock_fd (heap w a) \<noteq> Some (int fd)) (unused_conn_list pool)) (open_fds w)
     = filter (\<lambda>fd. \<forall>a \<in> set (unused_conn_list pool). \<forall>c. heap w a = Some c \<longrightarrow> sock_fd c \<noteq> int fd) (open_fds w)"
    by (auto simp: list_all_iff intro!: filter_cong)
  with Nil show ?thesis
    using destroy_conns_spec [OF assms refl]
    by (auto simp: pool_destroy_def pool_get_used_conn_num_def list_all_iff)
next
  case Cons
  then show ?thesis by (simp add: pool_destroy_def pool_get_used_conn_num_def)
qed

text \<open>
  \<open>pool_destroy\<close> refuses to destroy a pool with a connection in use; otherwise it frees
  every connection and closes exactly their descriptors.
\<close>

theorem pool_destroy_spec:
  assumes "world_ok w" and "pool_ok w pool"
  shows "if used_conn_list pool \<noteq> [] then pool_destroy pool w = Inr (-1, pool, w)
    else \<exists>w'. pool_destroy pool w = Inr (0, pool\<lparr>unused_conn_list := []\<rparr>, w')
      \<and> keeps w pool w' (pool\<lparr>unused_conn_list := []\<rparr>)
      \<and> list_all (\<lambda>a. heap w' a = None) (unused_conn_list pool)
      \<and> open_fds w' = filter (\<lambda>fd. list_all (\<lambda>a. map_option sock_fd (heap w a) \<noteq> Some (int fd))
           (unused_conn_list pool)) (open_fds w)"
  using assms by (rule pool_destroy_keeps)

theorem pool_destroy_spec_witness:
  "\<exists>w'. pool_destroy (fst sample) (snd sample) = Inr (0, (fst sample)\<lparr>unused_conn_list := []\<rparr>, w')
     \<and> heap w' 0 = None \<and> heap w' 2 = None"
  using pool_destroy_spec [OF sample_ok] by (auto simp: sample_values)

section \<open>Descriptors are lost when a connection is refused\<close>

text \<open>
  Each time the network refuses the new connection that \<open>pool_require_connection\<close> asks
  for, the socket it opened stays open although no connection refers to it: the process loses
  one descriptor per attempt.
\<close>

theorem pool_require_connection_leaks:
  assumes "unused_conn_list pool = []" and "pool_get_used_conn_num pool < max_conn_num pool"
    and "\<not> net w (attempts w) (snprintf_s HOST_NAME_LEN (pool_host pool)) (pool_port pool)"
    and "lowest_free (open_fds w) < fd_limit w"
  shows "\<exists>w'. pool_require_connection pool w = Inr (None, pool, w')
    \<and> open_fds w' = lowest_free (open_fds w) # open_fds w"
proof -
  obtain ret c w1 where conn: "conn_connect (conn_init (junk w) (pool_host pool) (pool_port pool)
      (pool_timeout_secs pool)) (snd (malloc_conn w)) = (ret, c, w1)" by (metis prod_cases3)
  have mw: "open_fds (snd (malloc_conn w)) = open_fds w" "fd_limit (snd (malloc_conn w)) = fd_limit w"
    "net (snd (malloc_conn w)) = net w" "attempts (snd (malloc_conn w)) = attempts w" "junk (snd (malloc_conn w)) = junk w"
    by (simp_all add: malloc_conn_def)
  from conn_connect_props [OF conn] assms mw
  have "ret \<noteq> 0" "open_fds w1 = lowest_free (open_fds w) # open_fds w" by auto
  then show ?thesis
    using assms(1,2) conn mw(5)
    by (simp add: pool_require_connection_def pool_get_idle_conn_num_def malloc_conn_def free_conn_def Let_def)
qed

theorem pool_require_connection_leaks_witness:
  "let w = sample_world\<lparr>net := (\<lambda>n host port. False)\<rparr>;
       pool = (fst sample)\<lparr>unused_conn_list := []\<rparr>
   in \<exists>w'. pool_require_connection pool w = Inr (None, pool, w') \<and> open_fds w' = [3, 0, 1, 2]"
proof -
  let ?w = "sample_world\<lparr>net := (\<lambda>n host port. False)\<rparr>"
  let ?pool = "(fst sample)\<lparr>unused_conn_list := []\<rparr>"
  have "lowest_free (open_fds ?w) = 3" "fd_limit ?w = 10" "open_fds ?w = [0, 1, 2]" "max_conn_num (fst sample) = 5"
    by code_simp+
  then show ?thesis
    using pool_require_connection_leaks [of ?pool ?w]
    by (simp add: pool_get_used_conn_num_def sample_values)
qed

end
