(* ===== verification/Selector.thy ===== *)
theory Selector
  imports Prelude
begin

text \<open>
  The round-robin contract shared by the node selection of a service (str_array.c) and the
  worker selection of the server (server.c): a counter that runs modulo a limit, reduced
  modulo the number of candidates at each pick.
\<close>

locale selector =
  fixes ok :: "'s \<Rightarrow> bool"
    and pick :: "'s \<Rightarrow> nat \<times> 's"
    and pos :: "'s \<Rightarrow> nat"
    and width :: "'s \<Rightarrow> nat"
    and limit :: nat
  assumes pick_index: "ok s \<Longrightarrow> 0 < width s \<Longrightarrow> fst (pick s) = pos s mod width s"
    and pick_width: "ok s \<Longrightarrow> 0 < width s \<Longrightarrow> width (snd (pick s)) = width s"
    and pick_pos: "ok s \<Longrightarrow> 0 < width s \<Longrightarrow> pos (snd (pick s)) = Suc (pos s) mod limit"
    and pick_ok: "ok s \<Longrightarrow> 0 < width s \<Longrightarrow> ok (snd (pick s))"
    and pos_limit: "ok s \<Longrightarrow> pos s < limit"
begin

fun picks :: "nat \<Rightarrow> 's \<Rightarrow> nat list" where
  "picks 0 s = []"
| "picks (Suc n) s = fst (pick s) # picks n (snd (pick s))"

lemma length_picks [simp]: "length (picks n s) = n"
  by (induction n arbitrary: s) auto

lemma nth_picks:
  "ok s \<Longrightarrow> 0 < width s \<Longrightarrow> k < n \<Longrightarrow> picks n s ! k = ((pos s + k) mod limit) mod width s"
proof (induction n arbitrary: s k)
  case (Suc n)
  show ?case
  proof (cases k)
    case 0
    with Suc.prems pos_limit [of s] show ?thesis by (simp add: pick_index)
  next
    case (Suc k')
    then have "picks n (snd (pick s)) ! k' = ((Suc (pos s) mod limit + k') mod limit) mod width s"
      using Suc.IH [of "snd (pick s)" k'] Suc.prems by (simp add: pick_pos pick_width pick_ok)
    moreover have "(Suc (pos s) mod limit + k') mod limit = (pos s + k) mod limit"
      using Suc by (simp add: mod_add_left_eq)
    ultimately show ?thesis using Suc by simp
  qed
qed simp

lemma picks_in_range: "ok s \<Longrightarrow> 0 < width s \<Longrightarrow> i \<in> set (picks n s) \<Longrightarrow> i < width s"
  by (auto simp: in_set_conv_nth nth_picks)

lemma round_distinct:
  assumes "ok s" and "0 < width s" and "pos s + width s \<le> limit"
  shows "distinct (picks (width s) s)"
proof -
  have "picks (width s) s ! i \<noteq> picks (width s) s ! j" if "i < j" "j < width s" for i j
  proof
    assume "picks (width s) s ! i = picks (width s) s ! j"
    then have "(pos s + i) mod width s = (pos s + j) mod width s"
      using that assms by (simp add: nth_picks)
    then have "width s dvd (pos s + j) - (pos s + i)"
      using that mod_eq_dvd_iff_nat [of "pos s + i" "pos s + j" "width s"] by simp
    with that show False by (auto dest: dvd_imp_le)
  qed
  then show ?thesis
    unfolding distinct_conv_nth by (metis length_picks linorder_less_linear)
qed

lemma round_complete:
  assumes "ok s" and "0 < width s" and "pos s + width s \<le> limit"
  shows "set (picks (width s) s) = {..< width s}"
proof (rule card_subset_eq)
  show "set (picks (width s) s) \<subseteq> {..< width s}" using picks_in_range assms by auto
  show "card (set (picks (width s) s)) = card {..< width s}"
    using distinct_card [OF round_distinct [OF assms]] by simp
qed simp

lemma no_starvation:
  assumes "ok s" and "0 < width s" and "2 * width s \<le> limit" and "j < width s"
  shows "j \<in> set (picks (2 * width s) s)"
proof (cases "pos s + width s \<le> limit")
  case True
  then have "j \<in> set (picks (width s) s)" using round_complete assms by simp
  then obtain k where "k < width s" "picks (width s) s ! k = j"
    by (auto simp: in_set_conv_nth)
  then have "k < 2 * width s" "picks (2 * width s) s ! k = j"
    using assms(1,2) by (simp_all add: nth_picks)
  then show ?thesis by (metis length_picks nth_mem)
next
  case False
  let ?k = "limit - pos s + j"
  have "?k < 2 * width s" using False assms pos_limit [of s] by linarith
  moreover have "(pos s + ?k) mod limit = j" using pos_limit [of s] assms by simp
  then have "picks (2 * width s) s ! ?k = j"
    using calculation assms by (simp add: nth_picks)
  ultimately show ?thesis by (metis length_picks nth_mem)
qed

end

end
