(* ===== verification/Str_Array.thy ===== *)
theory Str_Array
  imports Selector
begin

text \<open>
  The string array of soaagent/str_array.c: a growing array (\<open>UT_array\<close>) of copied strings
  and the counter of its round-robin iterator.  The array is the list of its elements;
  \<open>utarray_push_back\<close> appends, \<open>utarray_erase\<close> of one element closes the gap.
\<close>

record string_array =
  strs :: "string list"
  counter :: u32

definition string_array_init :: string_array where
  "string_array_init = \<lparr>strs = [], counter = 0\<rparr>"

fun find_from :: "int \<Rightarrow> string list \<Rightarrow> string \<Rightarrow> int" where
  "find_from i [] value = -1"
| "find_from i (p # ps) value = (if p = value then i else find_from (i + 1) ps value)"

definition string_array_find :: "string_array \<Rightarrow> string \<Rightarrow> int" where
  "string_array_find array value = find_from 0 (strs array) value"

definition string_array_add :: "string_array \<Rightarrow> string \<Rightarrow> string_array" where
  "string_array_add array value =
     (let idx = string_array_find array value in
      if idx \<noteq> -1 then array else array\<lparr>strs := strs array @ [value]\<rparr>)"

definition string_array_delete :: "string_array \<Rightarrow> string \<Rightarrow> int \<times> string_array" where
  "string_array_delete array value =
     (let idx = string_array_find array value in
      if idx = -1 then (-1, array)
      else (0, array\<lparr>strs := take (nat idx) (strs array) @ drop (nat idx + 1) (strs array)\<rparr>))"

definition next_idx :: "string_array \<Rightarrow> nat" where
  "next_idx array = unat (counter array) mod length (strs array)"

definition string_array_next :: "string_array \<Rightarrow> string option \<times> string_array" where
  "string_array_next array =
     (let count = length (strs array) in
      if count = 0 then (None, array)
      else (Some (strs array ! next_idx array), array\<lparr>counter := counter array + 1\<rparr>))"

definition string_array_walk :: "string_array \<Rightarrow> (string \<Rightarrow> 's \<Rightarrow> 's) option \<Rightarrow> 's \<Rightarrow> 's" where
  "string_array_walk array walk_through_func s =
     (case walk_through_func of None \<Rightarrow> s | Some f \<Rightarrow> fold f (strs array) s)"

definition string_array_content :: "string_array \<Rightarrow> nat \<Rightarrow> string" where
  "string_array_content array buf_len =
     snprintf_s buf_len
       (''counter='' @ show_int (sint (counter array)) @ '',size='' @ show_int (int (length (strs array))) @ '',''
        @ concat (map (\<lambda>p. p @ '', '') (strs array)))"

definition string_array_size :: "string_array \<Rightarrow> nat" where
  "string_array_size array = length (strs array)"

definition string_array_destroy :: "string_array \<Rightarrow> string_array" where
  "string_array_destroy array = array\<lparr>strs := []\<rparr>"

text \<open>The invariant: no string is stored twice.\<close>

definition sa_ok :: "string_array \<Rightarrow> bool" where
  "sa_ok array \<longleftrightarrow> distinct (strs array)"

section \<open>The operations as list operations\<close>

lemma find_from_notin: "0 \<le> i \<Longrightarrow> (find_from i ps v = -1) = (v \<notin> set ps)"
  by (induction ps arbitrary: i) auto

lemma find_from_in: "v \<in> set ps \<Longrightarrow> 0 \<le> i \<Longrightarrow>
  \<exists>k < length ps. find_from i ps v = i + int k \<and> ps ! k = v \<and> v \<notin> set (take k ps)"
proof (induction ps arbitrary: i)
  case (Cons p ps)
  show ?case
  proof (cases "p = v")
    case False
    then obtain k where "k < length ps" "find_from (i + 1) ps v = (i + 1) + int k" "ps ! k = v"
      "v \<notin> set (take k ps)"
      using Cons.IH [of "i + 1"] Cons.prems by auto
    with False show ?thesis by (intro exI [of _ "Suc k"]) simp
  qed (intro exI [of _ 0], simp)
qed simp

lemma string_array_find_iff: "string_array_find array v = -1 \<longleftrightarrow> v \<notin> set (strs array)"
  by (simp add: string_array_find_def find_from_notin)

lemma strs_add: "strs (string_array_add array v) =
    (if v \<in> set (strs array) then strs array else strs array @ [v])"
  by (simp add: string_array_add_def string_array_find_iff Let_def)

lemma counter_add [simp]: "counter (string_array_add array v) = counter array"
  by (simp add: string_array_add_def Let_def)

lemma strs_delete: "strs (snd (string_array_delete array v)) = remove1 v (strs array)"
proof (cases "v \<in> set (strs array)")
  case True
  then obtain k where k: "k < length (strs array)" "string_array_find array v = int k"
    "strs array ! k = v" "v \<notin> set (take k (strs array))"
    using find_from_in [of v "strs array" 0] by (auto simp: string_array_find_def)
  have "strs array = take k (strs array) @ v # drop (Suc k) (strs array)"
    using id_take_nth_drop [OF k(1)] k(3) by simp
  then have "remove1 v (strs array) = take k (strs array) @ drop (Suc k) (strs array)"
    using k(4) by (metis remove1.simps(2) remove1_append)
  with k show ?thesis by (simp add: string_array_delete_def Let_def)
next
  case False
  then show ?thesis by (simp add: string_array_delete_def Let_def string_array_find_iff [THEN iffD2] remove1_idem)
qed

lemma delete_result: "fst (string_array_delete array v) = (if v \<in> set (strs array) then 0 else -1)"
  using string_array_find_iff [of array v] by (auto simp: string_array_delete_def Let_def)

lemma sa_ok_init [inv_intros]: "sa_ok string_array_init"
  by (simp add: sa_ok_def string_array_init_def)

lemma sa_ok_add [inv_intros]: "sa_ok array \<Longrightarrow> sa_ok (string_array_add array v)"
  by (simp add: sa_ok_def strs_add)

lemma sa_ok_delete [inv_intros]: "sa_ok array \<Longrightarrow> sa_ok (snd (string_array_delete array v))"
  by (simp add: sa_ok_def strs_delete)

lemma strs_next [simp]: "strs (snd (string_array_next array)) = strs array"
  by (simp add: string_array_next_def Let_def)

lemma sa_ok_next [inv_intros]: "sa_ok array \<Longrightarrow> sa_ok (snd (string_array_next array))"
  by (simp add: sa_ok_def)

lemma set_delete: "sa_ok array \<Longrightarrow> set (strs (snd (string_array_delete array v))) = set (strs array) - {v}"
  by (simp add: strs_delete sa_ok_def)

section \<open>The iterator is a fair selector\<close>

definition sa_pick :: "string_array \<Rightarrow> nat \<times> string_array" where
  "sa_pick array = (next_idx array, snd (string_array_next array))"

interpretation sa: selector "\<lambda>array. True" sa_pick "\<lambda>array. unat (counter array)" "\<lambda>array. length (strs array)" "2 ^ 32"
proof
  fix s :: string_array
  assume "0 < length (strs s)"
  then show "fst (sa_pick s) = unat (counter s) mod length (strs s)"
    by (simp add: sa_pick_def next_idx_def)
next
  fix s :: string_array
  assume "0 < length (strs s)"
  then show "length (strs (snd (sa_pick s))) = length (strs s)"
    by (simp add: sa_pick_def)
next
  fix s :: string_array
  assume "0 < length (strs s)"
  then show "unat (counter (snd (sa_pick s))) = Suc (unat (counter s)) mod 2 ^ 32"
    by (simp add: sa_pick_def string_array_next_def Let_def unat_word_ariths)
next
  fix s :: string_array
  show True ..
next
  fix s :: string_array
  show "unat (counter s) < 2 ^ 32"
    using unsigned_less [of "counter s"] by simp
qed

fun nexts :: "nat \<Rightarrow> string_array \<Rightarrow> string list" where
  "nexts 0 array = []"
| "nexts (Suc n) array =
     (case string_array_next array of
        (None, _) \<Rightarrow> []
      | (Some p, array') \<Rightarrow> p # nexts n array')"

lemma nexts_picks:
  "strs array \<noteq> [] \<Longrightarrow> nexts n array = map ((!) (strs array)) (sa.picks n array)"
proof (induction n arbitrary: array)
  case (Suc n)
  let ?array = "array\<lparr>counter := counter array + 1\<rparr>"
  from Suc.prems have "string_array_next array = (Some (strs array ! next_idx array), ?array)"
    by (simp add: string_array_next_def Let_def)
  moreover from this have "sa_pick array = (next_idx array, ?array)" by (simp add: sa_pick_def)
  moreover have "nexts n ?array = map ((!) (strs array)) (sa.picks n ?array)"
    using Suc.IH [of ?array] Suc.prems by simp
  ultimately show ?case by simp
qed simp

text \<open>
  C30: while its counter does not wrap, as many consecutive calls of \<open>string_array_next\<close> as
  there are strings return every string exactly once, and twice as many calls
  return each of them at least once even across the wrap-around.
\<close>

theorem string_array_next_fair:
  assumes "sa_ok array" and "strs array \<noteq> []" and "2 * length (strs array) \<le> 2 ^ 32"
  shows "(unat (counter array) + length (strs array) \<le> 2 ^ 32 \<longrightarrow>
      distinct (nexts (length (strs array)) array) \<and>
      set (nexts (length (strs array)) array) = set (strs array))
    \<and> set (strs array) \<subseteq> set (nexts (2 * length (strs array)) array)"
proof (intro conjI impI)
  let ?n = "length (strs array)"
  have n: "0 < ?n" using assms by simp
  have all: "(!) (strs array) ` {..< ?n} = set (strs array)"
    by (auto simp: in_set_conv_nth)
  {
    assume le: "unat (counter array) + ?n \<le> 2 ^ 32"
    have inj: "inj_on ((!) (strs array)) {..< ?n}"
      using assms(1) by (simp add: sa_ok_def inj_on_nth)
    with sa.round_distinct [OF TrueI n le] sa.round_complete [OF TrueI n le] assms(2)
    show "distinct (nexts ?n array)" by (simp add: nexts_picks distinct_map)
    show "set (nexts ?n array) = set (strs array)"
      using sa.round_complete [OF TrueI n le] all assms(2) by (simp add: nexts_picks)
  }
  have "{..< ?n} \<subseteq> set (sa.picks (2 * ?n) array)"
    using sa.no_starvation [of array] n assms(3) by auto
  with all assms(2) show "set (strs array) \<subseteq> set (nexts (2 * ?n) array)"
    by (auto simp: nexts_picks)
qed

theorem string_array_next_fair_witness:
  "nexts 3 \<lparr>strs = [''a'', ''b'', ''c''], counter = 4\<rparr> = [''b'', ''c'', ''a''] \<and>
   distinct (nexts 3 \<lparr>strs = [''a'', ''b'', ''c''], counter = 4\<rparr>)"
proof
  let ?a = "\<lparr>strs = [''a'', ''b'', ''c''], counter = 4 :: u32\<rparr>"
  show "nexts 3 ?a = [''b'', ''c'', ''a'']"
    by code_simp
  have "length (strs ?a) = 3" by simp
  then show "distinct (nexts 3 ?a)"
    using string_array_next_fair [of ?a] by (simp add: sa_ok_def numeral_3_eq_3 del: nexts.simps)
qed

end
