(* ===== verification/Service_Conf.thy ===== *)
theory Service_Conf
  imports Hash_Table
begin

text \<open>
  soaagent/service_conf.c without the JSON reader (theory Register_Info): the keys of nodes,
  services and providers, the filter of declared services, the arrays of registrations and
  their difference, and the registration mapping.  The fixed-size character arrays of the
  structs hold what \<open>snprintf\<close> left in them.
\<close>

section \<open>Sizes and keys\<close>

definition FIELD_HOST_LEN :: nat where "FIELD_HOST_LEN = 20"
definition FIELD_GROUP_LEN :: nat where "FIELD_GROUP_LEN = 50"
definition FIELD_SERVICE_LEN :: nat where "FIELD_SERVICE_LEN = 30"
definition FIELD_VERSION_LEN :: nat where "FIELD_VERSION_LEN = 20"
definition SERVICE_KEY_LEN :: nat where
  "SERVICE_KEY_LEN = FIELD_GROUP_LEN + FIELD_SERVICE_LEN + FIELD_VERSION_LEN"
definition NODE_KEY_LEN :: nat where "NODE_KEY_LEN = FIELD_HOST_LEN + 6"
definition PROVIDER_KEY_LEN :: nat where "PROVIDER_KEY_LEN = FIELD_GROUP_LEN + 10"

lemmas field_sizes = FIELD_HOST_LEN_def FIELD_GROUP_LEN_def FIELD_SERVICE_LEN_def
  FIELD_VERSION_LEN_def SERVICE_KEY_LEN_def NODE_KEY_LEN_def PROVIDER_KEY_LEN_def

definition KEY_SEPARATOR :: string where "KEY_SEPARATOR = ''#''"

definition node_resource_construct_key :: "string \<Rightarrow> int \<Rightarrow> nat \<Rightarrow> string" where
  "node_resource_construct_key host port len = snprintf_s len (host @ KEY_SEPARATOR @ show_int port)"

definition service_resource_construct_key :: "string \<Rightarrow> string \<Rightarrow> string \<Rightarrow> nat \<Rightarrow> string" where
  "service_resource_construct_key grp service version len =
     snprintf_s len (grp @ KEY_SEPARATOR @ service @ KEY_SEPARATOR @ version)"

definition provider_construct_key :: "string \<Rightarrow> nat \<Rightarrow> string" where
  "provider_construct_key grp len = snprintf_s len (''/'' @ grp @ ''/providers'')"

section \<open>Declared services\<close>

record service_info =
  group_value :: string
  service_value :: string
  version_value :: string

type_synonym service_filters = "service_info list"

definition service_filter_init :: service_filters where
  "service_filter_init = []"

definition service_filter_padding :: "string \<Rightarrow> string \<Rightarrow> string \<Rightarrow> service_info" where
  "service_filter_padding grp service version =
     \<lparr>group_value = snprintf_s FIELD_GROUP_LEN grp,
      service_value = snprintf_s FIELD_SERVICE_LEN service,
      version_value = snprintf_s FIELD_VERSION_LEN version\<rparr>"

fun service_filter_find :: "service_filters \<Rightarrow> service_info \<Rightarrow> bool" where
  "service_filter_find [] srv_info = False"
| "service_filter_find (p # ps) srv_info =
     (if group_value p = group_value srv_info \<and> service_value p = service_value srv_info
         \<and> version_value p = version_value srv_info
      then True else service_filter_find ps srv_info)"

definition service_filter_add :: "service_filters \<Rightarrow> service_info \<Rightarrow> service_filters" where
  "service_filter_add filters srv_info =
     (if service_filter_find filters srv_info then filters else filters @ [srv_info])"

section \<open>Registrations\<close>

record register_info =
  srv_info :: service_info
  host_value :: string
  port_value :: int
  status :: int

type_synonym register_info_array = "register_info list"

definition register_info_padding ::
  "int \<Rightarrow> string \<Rightarrow> string \<Rightarrow> string \<Rightarrow> string \<Rightarrow> int \<Rightarrow> register_info" where
  "register_info_padding st grp service version host port =
     \<lparr>srv_info = service_filter_padding grp service version,
      host_value = snprintf_s FIELD_HOST_LEN host, port_value = port, status = st\<rparr>"

definition service_filter_match :: "service_filters \<Rightarrow> register_info \<Rightarrow> bool" where
  "service_filter_match filters reg_info = service_filter_find filters (srv_info reg_info)"

fun find_register_info :: "register_info_array \<Rightarrow> register_info \<Rightarrow> bool" where
  "find_register_info [] reg_info = False"
| "find_register_info (p # ps) reg_info =
     (if group_value (srv_info p) = group_value (srv_info reg_info)
         \<and> service_value (srv_info p) = service_value (srv_info reg_info)
         \<and> version_value (srv_info p) = version_value (srv_info reg_info)
         \<and> host_value p = host_value reg_info \<and> port_value p = port_value reg_info
      then True else find_register_info ps reg_info)"

fun copy_register_info ::
  "register_info_array \<Rightarrow> register_info_array \<Rightarrow> int \<Rightarrow> register_info_array" where
  "copy_register_info [] dest st = dest"
| "copy_register_info (p # src) dest st = copy_register_info src (dest @ [p\<lparr>status := st\<rparr>]) st"

text \<open>The loop of \<open>diff_register_info\<close> that pushes the items of one array missing in the other.\<close>

fun push_missing ::
  "register_info_array \<Rightarrow> register_info_array \<Rightarrow> int \<Rightarrow> register_info_array \<Rightarrow> register_info_array" where
  "push_missing [] other st result = result"
| "push_missing (p # ps) other st result =
     push_missing ps other st
       (if \<not> find_register_info other p then result @ [p\<lparr>status := st\<rparr>] else result)"

definition diff_register_info ::
  "register_info_array option \<Rightarrow> register_info_array option \<Rightarrow> register_info_array option" where
  "diff_register_info left_array right_array =
     (case (left_array, right_array) of
        (None, None) \<Rightarrow> None
      | (Some l, None) \<Rightarrow> Some (copy_register_info l [] (-1))
      | (None, Some r) \<Rightarrow> Some (copy_register_info r [] 1)
      | (Some l, Some r) \<Rightarrow> Some (push_missing r l 1 (push_missing l r (-1) [])))"

section \<open>The registration mapping\<close>

text \<open>
  An item holds a pointer to its array, which may be NULL.  The key stored in a new item is
  cut to \<open>PROVIDER_KEY_LEN - 1\<close> characters; the key that is looked up is not.
\<close>

type_synonym register_mapping = "register_info_array option htab"

definition register_mapping_init :: register_mapping where
  "register_mapping_init = []"

definition register_mapping_find_item :: "register_mapping \<Rightarrow> string \<Rightarrow> register_info_array option option" where
  "register_mapping_find_item mapping provider_key = hash_find mapping provider_key"

definition register_mapping_find :: "register_mapping \<Rightarrow> string \<Rightarrow> register_info_array option" where
  "register_mapping_find mapping provider_key =
     (case register_mapping_find_item mapping provider_key of
        Some info_array \<Rightarrow> info_array
      | None \<Rightarrow> None)"

definition register_mapping_put ::
  "string \<Rightarrow> register_info_array option \<Rightarrow> register_mapping \<Rightarrow> register_mapping" where
  "register_mapping_put provider_key info_array mapping =
     (case register_mapping_find_item mapping provider_key of
        Some _ \<Rightarrow> hash_upd provider_key info_array mapping
      | None \<Rightarrow> hash_add (snprintf_s PROVIDER_KEY_LEN provider_key) info_array mapping)"

fun register_mapping_destroy :: "register_mapping \<Rightarrow> register_mapping" where
  "register_mapping_destroy [] = []"
| "register_mapping_destroy ((key, _) # items) = register_mapping_destroy items"

section \<open>Keys determine their fields\<close>

lemma service_key_inject:
  assumes "CHR ''#'' \<notin> set g" and "CHR ''#'' \<notin> set s" and "CHR ''#'' \<notin> set g'" and "CHR ''#'' \<notin> set s'"
    and "length g < FIELD_GROUP_LEN" and "length s < FIELD_SERVICE_LEN" and "length v < FIELD_VERSION_LEN"
    and "length g' < FIELD_GROUP_LEN" and "length s' < FIELD_SERVICE_LEN" and "length v' < FIELD_VERSION_LEN"
  shows "service_resource_construct_key g s v SERVICE_KEY_LEN
      = service_resource_construct_key g' s' v' SERVICE_KEY_LEN \<longleftrightarrow> g = g' \<and> s = s' \<and> v = v'"
proof -
  have key: "service_resource_construct_key g s v SERVICE_KEY_LEN = g @ CHR ''#'' # s @ CHR ''#'' # v"
    if "length g < FIELD_GROUP_LEN" "length s < FIELD_SERVICE_LEN" "length v < FIELD_VERSION_LEN" for g s v
    using that by (simp add: service_resource_construct_key_def KEY_SEPARATOR_def field_sizes snprintf_s_fits)
  show ?thesis using assms by (simp add: key append_sep_inject)
qed

text \<open>
  Fields without the separator that fit their struct members are recovered from a
  service key, so distinct services never share a key, a route or a connection pool.
\<close>

theorem service_key_injective:
  assumes "CHR ''#'' \<notin> set g" and "CHR ''#'' \<notin> set s" and "CHR ''#'' \<notin> set g'" and "CHR ''#'' \<notin> set s'"
    and "length g < FIELD_GROUP_LEN" and "length s < FIELD_SERVICE_LEN" and "length v < FIELD_VERSION_LEN"
    and "length g' < FIELD_GROUP_LEN" and "length s' < FIELD_SERVICE_LEN" and "length v' < FIELD_VERSION_LEN"
  shows "service_resource_construct_key g s v SERVICE_KEY_LEN
      = service_resource_construct_key g' s' v' SERVICE_KEY_LEN \<longleftrightarrow> g = g' \<and> s = s' \<and> v = v'"
  using assms by (rule service_key_inject)

theorem service_key_injective_witness:
  "service_resource_construct_key ''g'' ''s'' ''1'' SERVICE_KEY_LEN
     \<noteq> service_resource_construct_key ''g'' ''t'' ''1'' SERVICE_KEY_LEN"
  using service_key_injective [of "''g''" "''s''" "''g''" "''t''" "''1''" "''1''"]
  by (simp add: field_sizes)

text \<open>
  The separator is not escaped: a service name that contains it can collide with another
  service's key.
\<close>

lemma service_key_collision:
  "service_resource_construct_key ''a#b'' ''c'' ''1'' SERVICE_KEY_LEN
     = service_resource_construct_key ''a'' ''b#c'' ''1'' SERVICE_KEY_LEN"
  by (simp add: service_resource_construct_key_def KEY_SEPARATOR_def)

lemma node_key_fits:
  assumes "length h < FIELD_HOST_LEN" and "0 \<le> p" and "p < 100000"
  shows "node_resource_construct_key h p NODE_KEY_LEN = h @ CHR ''#'' # show_int p"
proof -
  have "length (dec_nat (nat p)) \<le> 5"
    using assms by (intro length_dec_nat [of _ 4, simplified]) simp
  with assms show ?thesis
    by (simp add: node_resource_construct_key_def KEY_SEPARATOR_def field_sizes snprintf_s_fits show_int_def)
qed

lemma node_key_inject:
  assumes "CHR ''#'' \<notin> set h" and "CHR ''#'' \<notin> set h'"
    and "length h < FIELD_HOST_LEN" and "length h' < FIELD_HOST_LEN"
    and "0 \<le> p" and "p < 65536" and "0 \<le> p'" and "p' < 65536"
  shows "node_resource_construct_key h p NODE_KEY_LEN = node_resource_construct_key h' p' NODE_KEY_LEN
    \<longleftrightarrow> h = h' \<and> p = p'"
  using assms by (simp add: node_key_fits append_sep_inject show_int_inject)

text \<open>
  Two hosts with port numbers have the same node key only when both are equal.
\<close>

theorem node_key_injective:
  assumes "CHR ''#'' \<notin> set h" and "CHR ''#'' \<notin> set h'"
    and "length h < FIELD_HOST_LEN" and "length h' < FIELD_HOST_LEN"
    and "0 \<le> p" and "p < 65536" and "0 \<le> p'" and "p' < 65536"
  shows "node_resource_construct_key h p NODE_KEY_LEN = node_resource_construct_key h' p' NODE_KEY_LEN
    \<longleftrightarrow> h = h' \<and> p = p'"
  using assms by (rule node_key_inject)

theorem node_key_injective_witness:
  "node_resource_construct_key ''10.0.0.1'' 80 NODE_KEY_LEN
     \<noteq> node_resource_construct_key ''10.0.0.1'' 8 NODE_KEY_LEN"
  using node_key_injective [of "''10.0.0.1''" "''10.0.0.1''" 80 8]
  by (simp add: field_sizes del: of_char_eq_iff)

section \<open>Filters\<close>

lemma service_filter_find_iff: "service_filter_find fs s \<longleftrightarrow>
    (\<exists>p \<in> set fs. group_value p = group_value s \<and> service_value p = service_value s
       \<and> version_value p = version_value s)"
  by (induction fs) auto

lemma service_filter_find_in: 
  fixes s :: service_info
  shows "service_filter_find fs s \<longleftrightarrow> s \<in> set fs"
proof -
  have eq: "p = s" if "group_value p = group_value s" "service_value p = service_value s"
    "version_value p = version_value s" for p
    using that by (cases p; cases s) simp
  show ?thesis unfolding service_filter_find_iff by (auto dest: eq)
qed

lemma service_filter_add_set: "set (service_filter_add fs s) = insert s (set fs)"
  by (auto simp: service_filter_add_def service_filter_find_in)

lemma service_filter_add_distinct [inv_intros]: "distinct fs \<Longrightarrow> distinct (service_filter_add fs s)"
  by (simp add: service_filter_add_def service_filter_find_in)

section \<open>The difference of two registrations\<close>

text \<open>
  The specification sees a registration as the endpoint it offers: everything but the status.
\<close>

definition endpoint :: "register_info \<Rightarrow> service_info \<times> string \<times> int" where
  "endpoint r = (srv_info r, host_value r, port_value r)"

definition endpoints :: "register_info_array option \<Rightarrow> (service_info \<times> string \<times> int) set" where
  "endpoints a = (case a of None \<Rightarrow> {} | Some rs \<Rightarrow> endpoint ` set rs)"

definition changes :: "int \<Rightarrow> register_info_array option \<Rightarrow> (service_info \<times> string \<times> int) set" where
  "changes st a = (case a of None \<Rightarrow> {} | Some rs \<Rightarrow> endpoint ` set (filter (\<lambda>r. status r = st) rs))"

lemma endpoint_status [simp]: "endpoint (r\<lparr>status := st\<rparr>) = endpoint r"
  by (simp add: endpoint_def)

lemma find_register_info_iff: "find_register_info rs r \<longleftrightarrow> endpoint r \<in> endpoint ` set rs"
proof -
  have "(group_value (srv_info p) = group_value (srv_info r)
         \<and> service_value (srv_info p) = service_value (srv_info r)
         \<and> version_value (srv_info p) = version_value (srv_info r)
         \<and> host_value p = host_value r \<and> port_value p = port_value r) \<longleftrightarrow> endpoint p = endpoint r"
    for p r :: register_info
    by (cases "srv_info p"; cases "srv_info r") (auto simp: endpoint_def)
  then show ?thesis by (induction rs) auto
qed

lemma copy_register_info_map: "copy_register_info src dest st = dest @ map (\<lambda>p. p\<lparr>status := st\<rparr>) src"
  by (induction src arbitrary: dest) auto

lemma push_missing_filter: "push_missing ps other st result =
    result @ map (\<lambda>p. p\<lparr>status := st\<rparr>) (filter (\<lambda>p. endpoint p \<notin> endpoint ` set other) ps)"
  by (induction ps arbitrary: result) (auto simp: find_register_info_iff)

lemma diff_register_info_map:
  "diff_register_info l r = (if l = None \<and> r = None then None else
     Some (map (\<lambda>p. p\<lparr>status := -1\<rparr>) (filter (\<lambda>p. endpoint p \<notin> endpoints r) (case l of None \<Rightarrow> [] | Some ls \<Rightarrow> ls))
         @ map (\<lambda>p. p\<lparr>status := 1\<rparr>) (filter (\<lambda>p. endpoint p \<notin> endpoints l) (case r of None \<Rightarrow> [] | Some rs \<Rightarrow> rs))))"
  by (auto simp: diff_register_info_def copy_register_info_map push_missing_filter endpoints_def
      split: option.splits)

text \<open>
  C12: the difference of a local and a remote registration marks as deleted exactly the
  endpoints that are gone and as added exactly the new ones, and nothing else: applied to the
  local set it gives the remote one.
\<close>

theorem diff_register_info_correct:
  "changes (-1) (diff_register_info l r) = endpoints l - endpoints r
   \<and> changes 1 (diff_register_info l r) = endpoints r - endpoints l
   \<and> endpoints (diff_register_info l r) = (endpoints l - endpoints r) \<union> (endpoints r - endpoints l)
   \<and> endpoints l - changes (-1) (diff_register_info l r) \<union> changes 1 (diff_register_info l r) = endpoints r"
proof -
  have del: "changes (-1) (diff_register_info l r) = endpoints l - endpoints r"
    by (auto simp: diff_register_info_map changes_def filter_map o_def image_iff endpoints_def
        split: option.splits)
  have add: "changes 1 (diff_register_info l r) = endpoints r - endpoints l"
    by (auto simp: diff_register_info_map changes_def filter_map o_def image_iff endpoints_def
        split: option.splits)
  have all: "endpoints (diff_register_info l r) = (endpoints l - endpoints r) \<union> (endpoints r - endpoints l)"
  proof -
    have "\<forall>d. diff_register_info l r = Some d \<longrightarrow> (\<forall>p \<in> set d. status p = -1 \<or> status p = 1)"
      by (auto simp: diff_register_info_map)
    then have "endpoints (diff_register_info l r)
        = changes (-1) (diff_register_info l r) \<union> changes 1 (diff_register_info l r)"
      by (cases "diff_register_info l r") (auto simp: endpoints_def changes_def)
    with del add show ?thesis by simp
  qed
  show ?thesis using del add all by blast
qed

section \<open>The mapping keeps what was put\<close>

lemma register_mapping_put_hash:
  "length k < PROVIDER_KEY_LEN \<Longrightarrow> register_mapping_put k v m = hash_put k v m"
  by (simp add: register_mapping_put_def register_mapping_find_item_def hash_put_def snprintf_s_fits
      split: option.split)

lemma register_mapping_put_ok [inv_intros]:
  "hash_ok m \<Longrightarrow> length k < PROVIDER_KEY_LEN \<Longrightarrow> hash_ok (register_mapping_put k v m)"
  by (simp add: register_mapping_put_hash hash_ok_put)

text \<open>
  The mapping returns the array that was put last under a provider key, and putting
  under one key changes no other, as long as the key fits the item.
\<close>

theorem register_mapping_find_put:
  assumes "length k < PROVIDER_KEY_LEN"
  shows "register_mapping_find (register_mapping_put k v m) k'
    = (if k' = k then v else register_mapping_find m k')"
  using assms hash_find_put [of k v m k']
  by (simp add: register_mapping_find_def register_mapping_find_item_def register_mapping_put_hash)

theorem register_mapping_find_put_witness:
  "register_mapping_find (register_mapping_put ''/g/providers'' (Some []) register_mapping_init) ''/g/providers''
     = Some []"
  using register_mapping_find_put [of "''/g/providers''" "Some []" register_mapping_init "''/g/providers''"]
  by (simp add: field_sizes)

text \<open>Stored keys always fit.\<close>

definition mapping_keys_fit :: "register_mapping \<Rightarrow> bool" where
  "mapping_keys_fit m \<longleftrightarrow> list_all (\<lambda>(k, v). length k < PROVIDER_KEY_LEN) m"

lemma mapping_keys_fit_put [inv_intros]: "mapping_keys_fit m \<Longrightarrow> mapping_keys_fit (register_mapping_put k v m)"
proof -
  have upd: "mapping_keys_fit m \<Longrightarrow> mapping_keys_fit (hash_upd k v m)" for m
    by (induction k v m rule: hash_upd.induct) (auto simp: mapping_keys_fit_def)
  show "mapping_keys_fit m \<Longrightarrow> mapping_keys_fit (register_mapping_put k v m)"
    using upd by (auto simp: register_mapping_put_def hash_add_def mapping_keys_fit_def length_snprintf_s
        field_sizes split: option.split)
qed

text \<open>
  A group name of 49 or more characters (one more than fits the provider key) is never
  found in the mapping, however often it is put: every change of the group is then taken for
  a first registration, and a provider that leaves is never removed.
\<close>

theorem long_group_never_found:
  assumes "mapping_keys_fit m" and "49 \<le> length g" and "length g + 12 \<le> len"
  shows "register_mapping_find (register_mapping_put (provider_construct_key g len) v m)
      (provider_construct_key g len) = None"
proof -
  let ?k = "provider_construct_key g len"
  have "PROVIDER_KEY_LEN \<le> length ?k"
    using assms by (simp add: provider_construct_key_def field_sizes length_snprintf_s)
  moreover have "mapping_keys_fit (register_mapping_put ?k v m)"
    using assms(1) by (rule mapping_keys_fit_put)
  ultimately have "?k \<notin> fst ` set (register_mapping_put ?k v m)"
    by (force simp: mapping_keys_fit_def list_all_iff)
  then show ?thesis
    by (simp add: register_mapping_find_def register_mapping_find_item_def flip: hash_find_None)
qed

theorem long_group_never_found_witness:
  "let g = replicate 49 CHR ''g''; k = provider_construct_key g 1024
   in register_mapping_find (register_mapping_put k (Some []) []) k = None"
  using long_group_never_found [of "[]" "replicate 49 CHR ''g''" 1024 "Some []"]
  by (simp add: mapping_keys_fit_def)

end
