(* ===== verification/Crc32.thy ===== *)
theory Crc32
  imports Prelude
begin

text \<open>
  The checksum of the wire protocol, soaagent/crc32.c: the table-driven loop of \<open>crc32\<close>
  over the 256 entries of \<open>crc32tab\<close>.  It is proved equal to the bit-by-bit shift
  register of the AUTODIN II polynomial that the file's comment names, and from that form
  follow its error detection properties, which the interface \<open>checksum\<close> passes on to the
  protocol.
\<close>

section \<open>Operations\<close>

definition crc32tab :: "u32 list" where
  "crc32tab =
    [0x00000000, 0x77073096, 0xee0e612c, 0x990951ba, 0x076dc419, 0x706af48f,
     0xe963a535, 0x9e6495a3, 0x0edb8832, 0x79dcb8a4, 0xe0d5e91e, 0x97d2d988,
     0x09b64c2b, 0x7eb17cbd, 0xe7b82d07, 0x90bf1d91, 0x1db71064, 0x6ab020f2,
     0xf3b97148, 0x84be41de, 0x1adad47d, 0x6ddde4eb, 0xf4d4b551, 0x83d385c7,
     0x136c9856, 0x646ba8c0, 0xfd62f97a, 0x8a65c9ec, 0x14015c4f, 0x63066cd9,
     0xfa0f3d63, 0x8d080df5, 0x3b6e20c8, 0x4c69105e, 0xd56041e4, 0xa2677172,
     0x3c03e4d1, 0x4b04d447, 0xd20d85fd, 0xa50ab56b, 0x35b5a8fa, 0x42b2986c,
     0xdbbbc9d6, 0xacbcf940, 0x32d86ce3, 0x45df5c75, 0xdcd60dcf, 0xabd13d59,
     0x26d930ac, 0x51de003a, 0xc8d75180, 0xbfd06116, 0x21b4f4b5, 0x56b3c423,
     0xcfba9599, 0xb8bda50f, 0x2802b89e, 0x5f058808, 0xc60cd9b2, 0xb10be924,
     0x2f6f7c87, 0x58684c11, 0xc1611dab, 0xb6662d3d, 0x76dc4190, 0x01db7106,
     0x98d220bc, 0xefd5102a, 0x71b18589, 0x06b6b51f, 0x9fbfe4a5, 0xe8b8d433,
     0x7807c9a2, 0x0f00f934, 0x9609a88e, 0xe10e9818, 0x7f6a0dbb, 0x086d3d2d,
     0x91646c97, 0xe6635c01, 0x6b6b51f4, 0x1c6c6162, 0x856530d8, 0xf262004e,
     0x6c0695ed, 0x1b01a57b, 0x8208f4c1, 0xf50fc457, 0x65b0d9c6, 0x12b7e950,
     0x8bbeb8ea, 0xfcb9887c, 0x62dd1ddf, 0x15da2d49, 0x8cd37cf3, 0xfbd44c65,
     0x4db26158, 0x3ab551ce, 0xa3bc0074, 0xd4bb30e2, 0x4adfa541, 0x3dd895d7,
     0xa4d1c46d, 0xd3d6f4fb, 0x4369e96a, 0x346ed9fc, 0xad678846, 0xda60b8d0,
     0x44042d73, 0x33031de5, 0xaa0a4c5f, 0xdd0d7cc9, 0x5005713c, 0x270241aa,
     0xbe0b1010, 0xc90c2086, 0x5768b525, 0x206f85b3, 0xb966d409, 0xce61e49f,
     0x5edef90e, 0x29d9c998, 0xb0d09822, 0xc7d7a8b4, 0x59b33d17, 0x2eb40d81,
     0xb7bd5c3b, 0xc0ba6cad, 0xedb88320, 0x9abfb3b6, 0x03b6e20c, 0x74b1d29a,
     0xead54739, 0x9dd277af, 0x04db2615, 0x73dc1683, 0xe3630b12, 0x94643b84,
     0x0d6d6a3e, 0x7a6a5aa8, 0xe40ecf0b, 0x9309ff9d, 0x0a00ae27, 0x7d079eb1,
     0xf00f9344, 0x8708a3d2, 0x1e01f268, 0x6906c2fe, 0xf762575d, 0x806567cb,
     0x196c3671, 0x6e6b06e7, 0xfed41b76, 0x89d32be0, 0x10da7a5a, 0x67dd4acc,
     0xf9b9df6f, 0x8ebeeff9, 0x17b7be43, 0x60b08ed5, 0xd6d6a3e8, 0xa1d1937e,
     0x38d8c2c4, 0x4fdff252, 0xd1bb67f1, 0xa6bc5767, 0x3fb506dd, 0x48b2364b,
     0xd80d2bda, 0xaf0a1b4c, 0x36034af6, 0x41047a60, 0xdf60efc3, 0xa867df55,
     0x316e8eef, 0x4669be79, 0xcb61b38c, 0xbc66831a, 0x256fd2a0, 0x5268e236,
     0xcc0c7795, 0xbb0b4703, 0x220216b9, 0x5505262f, 0xc5ba3bbe, 0xb2bd0b28,
     0x2bb45a92, 0x5cb36a04, 0xc2d7ffa7, 0xb5d0cf31, 0x2cd99e8b, 0x5bdeae1d,
     0x9b64c2b0, 0xec63f226, 0x756aa39c, 0x026d930a, 0x9c0906a9, 0xeb0e363f,
     0x72076785, 0x05005713, 0x95bf4a82, 0xe2b87a14, 0x7bb12bae, 0x0cb61b38,
     0x92d28e9b, 0xe5d5be0d, 0x7cdcefb7, 0x0bdbdf21, 0x86d3d2d4, 0xf1d4e242,
     0x68ddb3f8, 0x1fda836e, 0x81be16cd, 0xf6b9265b, 0x6fb077e1, 0x18b74777,
     0x88085ae6, 0xff0f6a70, 0x66063bca, 0x11010b5c, 0x8f659eff, 0xf862ae69,
     0x616bffd3, 0x166ccf45, 0xa00ae278, 0xd70dd2ee, 0x4e048354, 0x3903b3c2,
     0xa7672661, 0xd06016f7, 0x4969474d, 0x3e6e77db, 0xaed16a4a, 0xd9d65adc,
     0x40df0b66, 0x37d83bf0, 0xa9bcae53, 0xdebb9ec5, 0x47b2cf7f, 0x30b5ffe9,
     0xbdbdf21c, 0xcabac28a, 0x53b39330, 0x24b4a3a6, 0xbad03605, 0xcdd70693,
     0x54de5729, 0x23d967bf, 0xb3667a2e, 0xc4614ab8, 0x5d681b02, 0x2a6f2b94,
     0xb40bbe37, 0xc30c8ea1, 0x5a05df1b, 0x2d02ef8d]"

text \<open>
  One iteration of the loop.  The bytes are read through a \<open>char *\<close>, so they are
  sign-extended before the exclusive or; the mask with \<open>0xFF\<close> drops the extension.
\<close>

definition crc_step :: "u32 \<Rightarrow> byte \<Rightarrow> u32" where
  "crc_step crc p =
     (drop_bit 8 crc AND 0x00FFFFFF) XOR crc32tab ! unat ((crc XOR scast p) AND 0xFF)"

text \<open>
  \<open>crc32(data, length)\<close> over a buffer of \<open>length\<close> bytes; the loop counter is an \<open>int\<close>,
  so the function is the source's for buffers below \<open>2 ^ 31\<close> bytes.
\<close>

definition crc32 :: "byte list \<Rightarrow> u32" where
  "crc32 data = foldl crc_step (0 XOR 0xFFFFFFFF) data XOR 0xFFFFFFFF"

section \<open>The reference: a shift register\<close>

definition crc_bit :: "u32 \<Rightarrow> u32" where
  "crc_bit crc = (if bit crc 0 then drop_bit 1 crc XOR 0xEDB88320 else drop_bit 1 crc)"

primrec crc_bits :: "nat \<Rightarrow> u32 \<Rightarrow> u32" where
  "crc_bits 0 crc = crc"
| "crc_bits (Suc n) crc = crc_bits n (crc_bit crc)"

definition crc_ref_byte :: "u32 \<Rightarrow> byte \<Rightarrow> u32" where
  "crc_ref_byte crc p = crc_bits 8 (crc XOR ucast p)"

definition crc32_ref :: "byte list \<Rightarrow> u32" where
  "crc32_ref data = NOT (foldl crc_ref_byte (NOT 0) data)"

lemma crc_bit_xor: "crc_bit (x XOR y) = crc_bit x XOR crc_bit y"
  by (auto simp: crc_bit_def bit_xor_iff xor.assoc xor.left_commute xor.commute)

lemma crc_bits_xor: "crc_bits n (x XOR y) = crc_bits n x XOR crc_bits n y"
  by (induction n arbitrary: x y) (simp_all add: crc_bit_xor)

lemma crc_bits_low_zero: "take_bit n x = 0 \<Longrightarrow> crc_bits n x = drop_bit n x"
proof (induction n arbitrary: x)
  case (Suc n)
  have "\<not> bit x 0"
    using Suc.prems by (metis bit_take_bit_iff bit_0_eq bot_apply zero_less_Suc bot_bool_def)
  then have "crc_bit x = drop_bit 1 x" by (simp add: crc_bit_def)
  moreover have "take_bit n (drop_bit 1 x) = 0"
    using Suc.prems by (metis drop_bit_take_bit diff_Suc_1 drop_bit_of_0 One_nat_def)
  ultimately show ?case using Suc.IH [of "drop_bit 1 x"] by simp
qed simp

text \<open>
  The table by doubling: the entries of \<open>[2 ^ k, 2 ^ Suc k)\<close> are those below \<open>2 ^ k\<close>
  with the entry of \<open>2 ^ k\<close> added, since the register is linear; and the entry of \<open>2 ^ k\<close>
  is one shift of the entry of \<open>2 ^ Suc k\<close>.
\<close>

fun crc_gen :: "u32 list \<Rightarrow> u32 list" where
  "crc_gen [] = [0]"
| "crc_gen (c # cs) = (let xs = crc_gen cs in xs @ map ((XOR) c) xs)"

definition crc_powers :: "u32 list" where
  "crc_powers = [0xEDB88320, 0x76DC4190, 0x3B6E20C8, 0x1DB71064, 0x0EDB8832, 0x076DC419,
     0xEE0E612C, 0x77073096]"

lemma crc_gen_tab: "crc_gen crc_powers = crc32tab"
  by (simp add: crc_powers_def crc32tab_def)

lemma crc_bits_commute: "crc_bits n (crc_bit x) = crc_bit (crc_bits n x)"
  by (induction n arbitrary: x) simp_all

lemma crc_bits_Suc: "crc_bits (Suc n) x = crc_bit (crc_bits n x)"
  by (simp add: crc_bits_commute)

lemma crc_bits_add: "crc_bits (m + n) x = crc_bits m (crc_bits n x)"
  by (induction n arbitrary: x) simp_all

lemma crc_powers_eq: "crc_powers = map (\<lambda>n. crc_bits n 1) [1, 2, 3, 4, 5, 6, 7, 8]"
proof -
  have p1: "crc_bits (Suc 0) 1 = 0xEDB88320" by (simp add: crc_bit_def)
  have p2: "crc_bits 2 1 = 0x76DC4190"
    using crc_bits_Suc [of 1 1, unfolded Suc_1] p1
    by (simp add: crc_bit_def del: crc_bits.simps)
  have p3: "crc_bits 3 1 = 0x3B6E20C8"
    using crc_bits_Suc [of 2 1] p2 by (simp add: crc_bit_def del: crc_bits.simps)
  have p4: "crc_bits 4 1 = 0x1DB71064"
    using crc_bits_Suc [of 3 1] p3 by (simp add: crc_bit_def del: crc_bits.simps)
  have p5: "crc_bits 5 1 = 0x0EDB8832"
    using crc_bits_Suc [of 4 1] p4 by (simp add: crc_bit_def del: crc_bits.simps)
  have p6: "crc_bits 6 1 = 0x076DC419"
    using crc_bits_Suc [of 5 1] p5 by (simp add: crc_bit_def del: crc_bits.simps)
  have p7: "crc_bits 7 1 = 0xEE0E612C"
    using crc_bits_Suc [of 6 1] p6 by (simp add: crc_bit_def del: crc_bits.simps)
  have p8: "crc_bits 8 1 = 0x77073096"
    using crc_bits_Suc [of 7 1] p7 by (simp add: crc_bit_def del: crc_bits.simps)
  show ?thesis by (simp add: crc_powers_def p1 p2 p3 p4 p5 p6 p7 p8 del: crc_bits.simps)
qed

lemma crc_powers_nth: "k < 8 \<Longrightarrow> crc_powers ! (7 - k) = crc_bits 8 (push_bit k 1)"
proof -
  assume k: "k < 8"
  have "[1, 2, 3, 4, 5, 6, 7, 8 :: nat] = map Suc [0..<8]" by code_simp
  moreover have "Suc (7 - k) = 8 - k" using k by simp
  ultimately have "crc_powers ! (7 - k) = crc_bits (8 - k) 1"
    using k by (simp add: crc_powers_eq del: crc_bits.simps)
  moreover have "crc_bits k (push_bit k 1) = 1"
  proof -
    have "take_bit k (push_bit k 1 :: u32) = 0" by (simp only: take_bit_push_bit) simp
    moreover have "drop_bit k (push_bit k 1 :: u32) = 1"
      using k by (intro bit_word_eqI) (auto simp: bit_simps)
    ultimately show ?thesis by (simp only: crc_bits_low_zero)
  qed
  ultimately show ?thesis
    using crc_bits_add [of "8 - k" k "push_bit k 1"] k by simp
qed

lemma word_of_nat_split:
  assumes "j < 2 ^ k"
  shows "(word_of_nat (2 ^ k + j) :: u32) = push_bit k 1 XOR word_of_nat j"
proof -
  have "\<not> bit j k" using assms by (metis bit_take_bit_iff take_bit_nat_eq_self less_irrefl)
  then have "push_bit k 1 AND (word_of_nat j :: u32) = 0"
    by (intro bit_word_eqI) (auto simp: bit_simps)
  then have "push_bit k 1 XOR (word_of_nat j :: u32) = push_bit k 1 + word_of_nat j"
    by (simp add: disjunctive_xor_eq_or disjunctive_add_eq_or)
  then show ?thesis by (simp add: push_bit_eq_mult)
qed

lemma crc_gen_entries:
  "k \<le> 8 \<Longrightarrow> length (crc_gen (drop (8 - k) crc_powers)) = 2 ^ k \<and>
     (\<forall>n < 2 ^ k. crc_gen (drop (8 - k) crc_powers) ! n = crc_bits 8 (word_of_nat n))"
proof (induction k)
  case 0
  have "crc_bits 8 0 = 0" using crc_bits_low_zero [of 8 0] by simp
  then show ?case by (simp add: crc_powers_def del: crc_bits.simps)
next
  case (Suc k)
  let ?xs = "crc_gen (drop (8 - k) crc_powers)"
  have "drop (8 - Suc k) crc_powers = crc_powers ! (7 - k) # drop (8 - k) crc_powers"
    using Suc.prems Cons_nth_drop_Suc [of "7 - k" crc_powers]
    by (simp add: crc_powers_eq Suc_diff_le numeral_eq_Suc del: crc_bits.simps)
  then have gen: "crc_gen (drop (8 - Suc k) crc_powers)
      = ?xs @ map ((XOR) (crc_bits 8 (push_bit k 1))) ?xs"
    using Suc.prems crc_powers_nth [of k] by (simp add: Let_def del: crc_bits.simps)
  have IH: "length ?xs = 2 ^ k" "\<And>n. n < 2 ^ k \<Longrightarrow> ?xs ! n = crc_bits 8 (word_of_nat n)"
    using Suc by auto
  have "(?xs @ map ((XOR) (crc_bits 8 (push_bit k 1))) ?xs) ! n = crc_bits 8 (word_of_nat n)"
    if n: "n < 2 ^ Suc k" for n
  proof (cases "n < 2 ^ k")
    case False
    then obtain j where j: "n = 2 ^ k + j" by (metis le_Suc_ex not_less)
    with n have "j < 2 ^ k" by simp
    with j show ?thesis
      using IH by (simp only: nth_append word_of_nat_split crc_bits_xor) simp
  qed (simp add: nth_append IH del: crc_bits.simps)
  with gen IH(1) show ?case by simp
qed

lemma crc32tab_nth: "n < 256 \<Longrightarrow> crc32tab ! n = crc_bits 8 (word_of_nat n)"
  using crc_gen_entries [of 8] by (simp add: crc_gen_tab)

lemma mask_255: "x AND 0xFF = take_bit 8 (x :: u32)"
  by (simp add: take_bit_eq_mask mask_eq_exp_minus_1)

lemma crc32tab_mask: "crc32tab ! unat (take_bit 8 x) = crc_bits 8 (take_bit 8 x)"
proof -
  have "take_bit 8 (unat x) < 2 ^ 8" by (rule take_bit_nat_less_exp)
  then have "unat (take_bit 8 x) < 256" by (simp add: unsigned_take_bit_eq)
  then show ?thesis by (simp add: crc32tab_nth del: crc_bits.simps)
qed

lemma take_bit_scast: "take_bit 8 (scast (p :: byte) :: u32) = ucast p"
proof (rule bit_word_eqI)
  fix n
  assume "n < LENGTH(32)"
  show "bit (take_bit 8 (scast p :: u32)) n = bit (ucast p :: u32) n"
    by (cases "n < 8") (auto simp: bit_simps dest: bit_imp_le_length)
qed

section \<open>The loop is the shift register\<close>

text \<open>
  The low byte of the state goes through the table, the other three are shifted down.
\<close>

lemma crc_step_ref: "crc_step crc p = crc_ref_byte crc p"
proof -
  let ?x = "crc XOR ucast p :: u32" and ?h = "crc XOR take_bit 8 crc"
  have low: "take_bit 8 (crc XOR scast p) = take_bit 8 crc XOR ucast p"
    by (simp add: take_bit_xor take_bit_scast)
  have "take_bit 8 ?h = 0" by (simp add: take_bit_xor)
  then have "crc_bits 8 ?h = drop_bit 8 ?h" by (rule crc_bits_low_zero)
  also have "drop_bit 8 ?h = drop_bit 8 crc" by (simp add: drop_bit_xor drop_bit_take_bit)
  also have "\<dots> = drop_bit 8 crc AND mask 24"
    by (rule bit_word_eqI) (auto simp: bit_simps dest: bit_imp_le_length)
  also have "(mask 24 :: u32) = 0x00FFFFFF" by (simp add: mask_eq_exp_minus_1)
  finally have high: "crc_bits 8 ?h = drop_bit 8 crc AND 0x00FFFFFF" .
  have "crc_bits 8 ?x = crc_bits 8 (?h XOR (take_bit 8 crc XOR ucast p))"
    by (simp add: xor.assoc xor.left_commute xor.commute del: crc_bits.simps)
  also have "\<dots> = crc_bits 8 ?h XOR crc_bits 8 (take_bit 8 (crc XOR scast p))"
    by (simp only: crc_bits_xor low)
  also have "\<dots> = crc_step crc p"
    by (simp only: high crc_step_def mask_255 crc32tab_mask)
  finally show ?thesis by (simp add: crc_ref_byte_def del: crc_bits.simps)
qed

text \<open>
  C25: the table-driven loop computes the CRC of the polynomial its comment names, bit by
  bit from the low end with all-ones initial value and final complement, for every buffer.
\<close>

theorem crc32_is_shift_register: "crc32 data = crc32_ref data"
proof -
  have "foldl crc_step s data = foldl crc_ref_byte s data" for s
    by (induction data arbitrary: s) (simp_all add: crc_step_ref)
  moreover have ones: "(0xFFFFFFFF :: u32) = - 1" by code_simp
  ultimately show ?thesis unfolding crc32_def crc32_ref_def ones by simp
qed

section \<open>Error detection\<close>

lemma crc_bit_top: "bit (crc_bit x) 31 = bit x 0"
proof -
  have "bit (0xEDB88320 :: u32) 31" by (simp add: bit_iff_odd_drop_bit)
  moreover have "\<not> bit (drop_bit 1 x) 31" by (auto simp: bit_drop_bit_eq dest: bit_imp_le_length)
  ultimately show ?thesis unfolding crc_bit_def by (simp only: bit_xor_iff split: if_split) blast
qed

lemma xor_right_cancel: "x XOR a = y XOR a \<longleftrightarrow> x = (y :: u32)"
proof
  assume "x XOR a = y XOR a"
  then have "(x XOR a) XOR a = (y XOR a) XOR a" by simp
  then show "x = y" by (simp add: xor.assoc)
qed simp

lemma crc_bit_inject: "crc_bit x = crc_bit y \<longleftrightarrow> x = y"
proof
  assume eq: "crc_bit x = crc_bit y"
  then have low: "bit x 0 = bit y 0" by (metis crc_bit_top)
  with eq have "drop_bit 1 x = drop_bit 1 y"
    by (simp add: crc_bit_def xor_right_cancel split: if_splits)
  then have "bit x (Suc n) = bit y (Suc n)" for n
    by (metis bit_drop_bit_eq comp_apply plus_1_eq_Suc)
  with low have "bit x n = bit y n" for n by (cases n) auto
  then show "x = y" by (rule bit_eqI)
qed simp

lemma crc_bits_inject: "crc_bits n x = crc_bits n y \<longleftrightarrow> x = y"
  by (induction n arbitrary: x y) (simp_all add: crc_bit_inject)

lemma crc_fold_inject: "foldl crc_step s xs = foldl crc_step t xs \<longleftrightarrow> s = t"
  by (induction xs arbitrary: s t)
     (simp_all add: crc_step_ref crc_ref_byte_def crc_bits_inject xor_right_cancel del: crc_bits.simps)

text \<open>
  Up to four bytes in a row shift one word, least significant byte first, into the
  register: the state after them is injective in that word.
\<close>

fun le_word :: "byte list \<Rightarrow> u32" where
  "le_word [] = 0"
| "le_word (b # bs) = ucast b XOR push_bit 8 (le_word bs)"

lemma le_word_high: "8 * length bs \<le> n \<Longrightarrow> \<not> bit (le_word bs) n"
  by (induction bs arbitrary: n) (auto simp: bit_simps dest: bit_imp_le_length)

lemma le_word_bit: "bit (le_word bs) n \<Longrightarrow> n < 8 * length bs"
  by (meson le_word_high not_less)

lemma drop_push_le_word: "length bs \<le> 3 \<Longrightarrow> drop_bit 8 (push_bit 8 (le_word bs)) = le_word bs"
  by (rule bit_word_eqI) (auto simp: bit_simps dest: le_word_bit)

lemma take_bit_ucast_byte: "take_bit 8 (ucast (c :: byte) :: u32) = ucast c"
  by (rule bit_word_eqI) (auto simp: bit_simps dest: bit_imp_le_length)

lemma drop_bit_ucast_byte: "drop_bit 8 (ucast (c :: byte) :: u32) = 0"
  by (rule bit_word_eqI) (auto simp: bit_simps dest: bit_imp_le_length)

lemma crc_fold_le_word:
  "length us \<le> 4 \<Longrightarrow> foldl crc_step s us = crc_bits (8 * length us) (s XOR le_word us)"
proof (induction us arbitrary: s)
  case (Cons a us)
  have "take_bit 8 (push_bit 8 (le_word us)) = 0" by (simp only: take_bit_push_bit) simp
  then have push: "crc_bits 8 (push_bit 8 (le_word us)) = le_word us"
    using Cons.prems by (simp only: crc_bits_low_zero) (simp add: drop_push_le_word)
  have "foldl crc_step s (a # us) = foldl crc_step (crc_bits 8 (s XOR ucast a)) us"
    by (simp add: crc_step_ref crc_ref_byte_def del: crc_bits.simps)
  also have "\<dots> = crc_bits (8 * length us) (crc_bits 8 (s XOR ucast a) XOR le_word us)"
    using Cons.prems by (intro Cons.IH) simp
  also have "crc_bits 8 (s XOR ucast a) XOR le_word us = crc_bits 8 (s XOR le_word (a # us))"
    by (simp only: le_word.simps crc_bits_xor push) (simp add: xor.assoc del: crc_bits.simps)
  finally show ?case by (simp add: crc_bits_add [symmetric] add.commute del: crc_bits.simps)
qed simp

lemma ucast_byte_inject: "(ucast (a :: byte) :: u32) = ucast b \<longleftrightarrow> a = b"
proof
  assume eq: "(ucast a :: u32) = ucast b"
  show "a = b"
  proof (rule bit_word_eqI)
    fix n assume "n < LENGTH(8)"
    moreover have "bit (ucast a :: u32) n = bit (ucast b :: u32) n" using eq by simp
    ultimately show "bit a n = bit b n" by (simp add: bit_simps)
  qed
qed simp

lemma le_word_inject:
  "length us = length vs \<Longrightarrow> length us \<le> 4 \<Longrightarrow> le_word us = le_word vs \<Longrightarrow> us = vs"
proof (induction us vs rule: list_induct2)
  case (Cons a us b vs)
  have low: "take_bit 8 (le_word (c # cs)) = ucast c" for c cs
    by (simp add: take_bit_xor take_bit_push_bit take_bit_ucast_byte)
  have high: "drop_bit 8 (le_word (c # cs)) = le_word cs" if "length cs \<le> 3" for c cs
    using that by (simp add: drop_bit_xor drop_push_le_word drop_bit_ucast_byte)
  have "(ucast a :: u32) = ucast b" using Cons.prems(2) low by metis
  then have "a = b" by (simp add: ucast_byte_inject)
  moreover have "length us \<le> 3" and "length vs \<le> 3" using Cons.prems(1) Cons.hyps by simp_all
  then have "le_word us = le_word vs" using Cons.prems(2) high by metis
  ultimately show ?case using Cons by simp
qed simp

lemma crc32_window:
  assumes "length us = length vs" and "length us \<le> 4" and "us \<noteq> vs"
  shows "crc32 (xs @ us @ ys) \<noteq> crc32 (xs @ vs @ ys)"
proof
  assume "crc32 (xs @ us @ ys) = crc32 (xs @ vs @ ys)"
  then have "foldl crc_step (foldl crc_step (0 XOR 0xFFFFFFFF) xs) us
      = foldl crc_step (foldl crc_step (0 XOR 0xFFFFFFFF) xs) vs"
    by (simp add: crc32_def xor_right_cancel crc_fold_inject)
  with assms(1,2) have "le_word us = le_word vs"
    by (simp add: crc_fold_le_word crc_bits_inject xor.commute xor_right_cancel del: crc_bits.simps)
  with assms show False using le_word_inject by blast
qed

text \<open>
  C27: a message with up to four consecutive bytes changed, so every burst of up to 32 bits
  on byte boundaries and every single-byte error, has a different checksum.
\<close>

theorem crc32_detects_bursts:
  assumes "length us = length vs" and "length us \<le> 4" and "us \<noteq> vs"
  shows "crc32 (xs @ us @ ys) \<noteq> crc32 (xs @ vs @ ys)"
  using assms by (rule crc32_window)

theorem crc32_detects_bursts_witness:
  "length [1, 2 :: byte] = length [3, 2 :: byte] \<and> crc32 ([7] @ [1, 2] @ [9]) \<noteq> crc32 ([7] @ [3, 2] @ [9])"
  using crc32_detects_bursts [of "[1, 2]" "[3, 2]" "[7]" "[9]"] by simp

section \<open>The interface the protocol uses\<close>

text \<open>
  What a frame check may rely on: a checksum that changes with any single byte.
\<close>

locale checksum =
  fixes cksum :: "byte list \<Rightarrow> u32"
  assumes detects_byte: "a \<noteq> b \<Longrightarrow> cksum (xs @ a # ys) \<noteq> cksum (xs @ b # ys)"
begin

lemma detects_update:
  assumes "i < length data" and "data ! i \<noteq> b"
  shows "cksum (data[i := b]) \<noteq> cksum data"
proof -
  from assms(1) have "data = take i data @ data ! i # drop (Suc i) data"
    by (rule id_take_nth_drop)
  moreover from assms(1) have "data[i := b] = take i data @ b # drop (Suc i) data"
    by (rule upd_conv_take_nth_drop)
  ultimately show ?thesis using detects_byte assms(2) by metis
qed

lemma detects_two_lists:
  assumes "length xs = length ys" and "cksum xs = cksum ys" and "xs \<noteq> ys"
  shows "\<exists>i j. i < j \<and> j < length xs \<and> xs ! i \<noteq> ys ! i \<and> xs ! j \<noteq> ys ! j"
proof (rule ccontr)
  assume none: "\<not> ?thesis"
  from assms(1,3) obtain i where i: "i < length xs" "xs ! i \<noteq> ys ! i"
    by (metis nth_equalityI)
  have "ys = xs[i := ys ! i]"
  proof (rule nth_equalityI)
    fix j assume "j < length ys"
    then have j: "j < length xs" using assms(1) by simp
    consider "i = j" | "i < j" | "j < i" by linarith
    then show "ys ! j = xs[i := ys ! i] ! j"
    proof cases
      case 2
      with none i j have "xs ! j = ys ! j" by blast
      with 2 show ?thesis by simp
    next
      case 3
      with none i j have "xs ! j = ys ! j" by blast
      with 3 show ?thesis by simp
    qed (use i in simp)
  qed (use assms(1) in simp)
  with detects_update [OF i(1), of "ys ! i"] i(2) assms(2) show False by simp
qed

end

interpretation crc: checksum crc32
  by unfold_locales (use crc32_window [where us = "[a]" and vs = "[b]" for a b] in simp)

end
