(* ===== verification/Protocol.thy ===== *)
theory Protocol
  imports Crc32 Socket_IO
begin

text \<open>
  The datagram protocol between agent and providers, soaagent/protocol.c and protocol.h: a
  16-byte packed header (checksum, identifier, body length, type, three reserved bytes) and a
  body.  \<open>send_message\<close> builds a frame, \<open>receive_message\<close> reads one back and checks it.
\<close>

section \<open>Byte order\<close>

text \<open>The four bytes a \<open>uint32_t\<close> occupies on the wire after \<open>htonl\<close>.\<close>

definition be32 :: "u32 \<Rightarrow> byte list" where
  "be32 w = [ucast (drop_bit 24 w), ucast (drop_bit 16 w), ucast (drop_bit 8 w), ucast w]"

definition of_be32 :: "byte list \<Rightarrow> u32" where
  "of_be32 bs = push_bit 24 (ucast (bs ! 0)) OR push_bit 16 (ucast (bs ! 1))
     OR push_bit 8 (ucast (bs ! 2)) OR ucast (bs ! 3)"

lemma length_be32 [simp]: "length (be32 w) = 4"
  by (simp add: be32_def)

lemma bit_of_be32:
  "n < 32 \<Longrightarrow> bit (of_be32 bs) n = (if n < 8 then bit (bs ! 3) n else if n < 16 then bit (bs ! 2) (n - 8)
     else if n < 24 then bit (bs ! 1) (n - 16) else bit (bs ! 0) (n - 24))"
  by (auto simp: of_be32_def bit_or_iff bit_push_bit_iff bit_ucast_iff dest: bit_imp_le_length)

lemma of_be32_be32 [simp]: "of_be32 (be32 w @ rest) = w"
proof (rule bit_word_eqI)
  fix n assume "n < LENGTH(32)"
  then have n: "n < 32" by simp
  then consider "n < 8" | "8 \<le> n" "n < 16" | "16 \<le> n" "n < 24" | "24 \<le> n" by linarith
  then show "bit (of_be32 (be32 w @ rest)) n = bit w n"
    by cases (use n in \<open>auto simp: bit_of_be32 be32_def bit_ucast_iff bit_drop_bit_eq\<close>)
qed

lemma be32_inject [simp]: "be32 v = be32 w \<longleftrightarrow> v = w"
  by (metis append_Nil2 of_be32_be32)

lemma be32_of_be32: "length bs = 4 \<Longrightarrow> be32 (of_be32 bs) = bs"
proof -
  assume "length bs = 4"
  then obtain a b c d where bs: "bs = [a, b, c, d]"
    by (auto simp: numeral_eq_Suc length_Suc_conv)
  have "ucast (drop_bit 24 (of_be32 bs)) = a" "ucast (drop_bit 16 (of_be32 bs)) = b"
    "ucast (drop_bit 8 (of_be32 bs)) = c" "ucast (of_be32 bs) = d"
    by (rule bit_word_eqI, simp add: bs bit_of_be32 bit_ucast_iff bit_drop_bit_eq)+
  then show ?thesis by (simp add: be32_def bs)
qed
section \<open>Messages\<close>

definition BIZ_REQ_MSG_TYPE :: byte where "BIZ_REQ_MSG_TYPE = 0x10"
definition BIZ_RES_MSG_TYPE :: byte where "BIZ_RES_MSG_TYPE = BIZ_REQ_MSG_TYPE OR push_bit 7 0x01"
definition HB_REQ_MSG_TYPE :: byte where "HB_REQ_MSG_TYPE = 0x01"
definition HB_RES_MSG_TYPE :: byte where "HB_RES_MSG_TYPE = HB_REQ_MSG_TYPE OR push_bit 7 0x01"

definition get_resp_type :: "byte \<Rightarrow> byte" where
  "get_resp_type type = push_bit 7 0x01 OR type"

record message_header =
  crc :: u32
  msg_identifier :: u32
  msg_length :: u32
  msg_type :: byte
  reversed :: "byte list"

definition header_size :: nat where "header_size = 16"

text \<open>The packed struct in memory, its numeric fields in network order.\<close>

definition header_bytes :: "message_header \<Rightarrow> byte list" where
  "header_bytes h = be32 (crc h) @ be32 (msg_identifier h) @ be32 (msg_length h) @ [msg_type h] @ reversed h"

definition header_of :: "byte list \<Rightarrow> message_header" where
  "header_of bs = \<lparr>crc = of_be32 (take 4 bs), msg_identifier = of_be32 (take 4 (drop 4 bs)),
     msg_length = of_be32 (take 4 (drop 8 bs)), msg_type = bs ! 12, reversed = take 3 (drop 13 bs)\<rparr>"

definition crc32_check :: "message_header \<Rightarrow> byte list \<Rightarrow> bool" where
  "crc32_check header body =
     (let buffer = header_bytes header @ body;
          crc_value = crc32 (drop 4 buffer)
      in crc header = crc_value)"

definition message_buf :: "u32 \<Rightarrow> byte \<Rightarrow> byte list \<Rightarrow> byte list" where
  "message_buf ident type buffer =
     (let header = \<lparr>crc = 0, msg_identifier = ident, msg_length = word_of_nat (length buffer),
                    msg_type = type, reversed = [0, 0, 0]\<rparr>;
          buf = header_bytes header @ buffer;
          crc_value = crc32 (drop 4 buf)
      in header_bytes (header\<lparr>crc := crc_value\<rparr>) @ buffer)"

definition send_message ::
  "channel \<Rightarrow> u32 \<Rightarrow> byte \<Rightarrow> byte list \<Rightarrow> (int \<times> channel) option" where
  "send_message ch ident type buffer = socket_send ch (message_buf ident type buffer)"

text \<open>
  The result is \<open>Some\<close> of what is stored through the out parameters when the code returns 0,
  and \<open>None\<close> when it returns -1.  The first statement stores through \<open>out_buf\<close>, so a caller
  that passes NULL there faults.
\<close>

type_synonym message = "u32 \<times> byte \<times> byte list"

definition receive_body ::
  "int \<Rightarrow> message_header \<Rightarrow> channel \<Rightarrow> fault + (message option \<times> channel) option" where
  "receive_body sockfd header ch =
     (let body_len = unat (msg_length header) in
      if body_len = 0 then
        Inr (Some (if crc32_check header [] then Some (msg_identifier header, msg_type header, []) else None, ch))
      else
        (case socket_receive sockfd ch body_len 3 of
           Inl f \<Rightarrow> Inl f
         | Inr None \<Rightarrow> Inr None
         | Inr (Some (r, body_value, ch')) \<Rightarrow>
             if r \<noteq> 0 then Inr (Some (None, ch'))
             else if \<not> crc32_check header body_value then Inr (Some (None, ch'))
             else Inr (Some (Some (msg_identifier header, msg_type header, body_value), ch'))))"

definition receive_message ::
  "int \<Rightarrow> bool \<Rightarrow> channel \<Rightarrow> fault + (message option \<times> channel) option" where
  "receive_message sockfd out_given ch =
     (if \<not> out_given then Inl NullDeref
      else (case socket_receive sockfd ch header_size 3 of
              Inl f \<Rightarrow> Inl f
            | Inr None \<Rightarrow> Inr None
            | Inr (Some (r, bytes, ch')) \<Rightarrow>
                if r \<noteq> 0 then Inr (Some (None, ch')) else receive_body sockfd (header_of bytes) ch'))"

section \<open>Frames\<close>

text \<open>What the checksum covers.\<close>

definition payload :: "u32 \<Rightarrow> byte \<Rightarrow> byte list \<Rightarrow> byte list" where
  "payload ident type buffer =
     be32 ident @ be32 (word_of_nat (length buffer)) @ [type] @ [0, 0, 0] @ buffer"

lemma message_buf_payload:
  "message_buf ident type buffer = be32 (crc32 (payload ident type buffer)) @ payload ident type buffer"
  by (simp add: message_buf_def payload_def header_bytes_def Let_def)

lemma length_message_buf: "length (message_buf ident type buffer) = header_size + length buffer"
  by (simp add: message_buf_payload payload_def header_size_def)

lemma header_bytes_of: "length bs = 16 \<Longrightarrow> header_bytes (header_of bs) = bs"
proof -
  assume len: "length bs = 16"
  have "bs = take 4 bs @ take 4 (drop 4 bs) @ take 4 (drop 8 bs) @ [bs ! 12] @ take 3 (drop 13 bs)"
    using len by (auto simp: numeral_eq_Suc length_Suc_conv)
  then show ?thesis using len by (simp add: header_bytes_def header_of_def be32_of_be32)
qed

lemma crc32_check_of:
  "length bs = 16 \<Longrightarrow> crc32_check (header_of bs) body \<longleftrightarrow>
     of_be32 (take 4 bs) = crc32 (drop 4 (bs @ body))"
  by (simp add: crc32_check_def header_bytes_of Let_def) (simp add: header_of_def)

text \<open>
  The check on a whole frame, for any checksum, and that it catches a changed byte.
\<close>

definition frame_ok :: "(byte list \<Rightarrow> u32) \<Rightarrow> byte list \<Rightarrow> bool" where
  "frame_ok cksum frame \<longleftrightarrow> of_be32 (take 4 frame) = cksum (drop 4 frame)"

context checksum begin

lemma frame_ok_built: "frame_ok cksum (be32 (cksum data) @ data)"
  using of_be32_be32 [of _ "[]"] by (simp add: frame_ok_def)

lemma frame_corrupt:
  assumes ok: "frame_ok cksum frame" and i: "i < length frame" and len: "4 \<le> length frame"
    and b: "frame ! i \<noteq> b"
  shows "\<not> frame_ok cksum (frame[i := b])"
proof (cases "i < 4")
  case True
  have "of_be32 (take 4 (frame[i := b])) \<noteq> of_be32 (take 4 frame)"
  proof
    assume "of_be32 (take 4 (frame[i := b])) = of_be32 (take 4 frame)"
    then have "take 4 (frame[i := b]) = take 4 frame"
      using len by (metis be32_of_be32 length_list_update length_take min.absorb2)
    then have "frame[i := b] ! i = frame ! i" using True by (metis nth_take)
    with i b show False by simp
  qed
  then show ?thesis using ok True by (simp add: frame_ok_def)
next
  case False
  then have "drop 4 (frame[i := b]) = (drop 4 frame)[i - 4 := b]"
    by (simp add: drop_update_swap)
  moreover have "cksum ((drop 4 frame)[i - 4 := b]) \<noteq> cksum (drop 4 frame)"
    using detects_update [of "i - 4" "drop 4 frame" b] False i b by simp
  ultimately show ?thesis using ok False by (simp add: frame_ok_def)
qed

end

section \<open>Reading a frame\<close>

text \<open>The receive script of a body, which is read only when it is not empty.\<close>

definition delivers_body :: "recv_ev list \<Rightarrow> nat \<Rightarrow> bool" where
  "delivers_body evs need \<longleftrightarrow> (if need = 0 then evs = [] else delivers evs need)"

lemma header_of_fields:
  assumes "length h = 4"
  shows "msg_identifier (header_of (h @ be32 i @ be32 n @ t # rs)) = i"
    and "msg_length (header_of (h @ be32 i @ be32 n @ t # rs)) = n"
    and "msg_type (header_of (h @ be32 i @ be32 n @ t # rs)) = t"
  using assms of_be32_be32 [of _ "[]"] by (simp_all add: header_of_def nth_append)

lemma receive_frame:
  assumes fd: "selectable sockfd" and len: "length hdr = 16" and body: "length body = unat (msg_length (header_of hdr))"
    and stream: "ch_in ch = hdr @ body @ rest"
    and sel: "ch_sel ch = SelReady # SelReady # sels"
    and recv: "ch_recv ch = e1 @ e2 @ later" and e1: "delivers e1 header_size"
    and e2: "delivers_body e2 (length body)"
  shows "\<exists>ch'. receive_message sockfd True ch = Inr (Some
       (if frame_ok crc32 (hdr @ body) then Some (msg_identifier (header_of hdr), msg_type (header_of hdr), body)
        else None, ch')) \<and> ch_in ch' = rest"
proof -
  let ?ch = "ch\<lparr>ch_sel := SelReady # sels, ch_recv := e2 @ later, ch_in := body @ rest\<rparr>"
  have hdr: "socket_receive sockfd ch header_size 3 = Inr (Some (0, hdr, ?ch))"
    using socket_receive_delivers [of sockfd 3 ch "SelReady # sels" e1 "e2 @ later" header_size] assms
    by (simp add: header_size_def)
  have check: "crc32_check (header_of hdr) body = frame_ok crc32 (hdr @ body)"
    using len by (simp add: crc32_check_of frame_ok_def)
  show ?thesis
  proof (cases "body = []")
    case True
    with hdr body check show ?thesis
      by (simp add: receive_message_def receive_body_def Let_def)
  next
    case False
    then have "socket_receive sockfd ?ch (length body) 3
        = Inr (Some (0, body, ch\<lparr>ch_sel := sels, ch_recv := later, ch_in := rest\<rparr>))"
      using socket_receive_delivers [of sockfd 3 ?ch sels e2 later "length body"] e2 fd
      by (simp add: delivers_body_def)
    with hdr body check False show ?thesis
      by (simp add: receive_message_def receive_body_def Let_def flip: body)
  qed
qed

lemma message_buf_split:
  fixes ident type body
  defines "hdr \<equiv> take 16 (message_buf ident type body)"
  shows "message_buf ident type body = hdr @ body" and "length hdr = 16"
    and "msg_identifier (header_of hdr) = ident" and "msg_type (header_of hdr) = type"
    and "msg_length (header_of hdr) = word_of_nat (length body)"
  by (simp_all add: hdr_def message_buf_payload payload_def header_of_fields)

lemma header_of_update:
  "length h = 16 \<Longrightarrow> i < 8 \<or> 12 \<le> i \<Longrightarrow> msg_length (header_of (h[i := b])) = msg_length (header_of h)"
  by (auto simp: header_of_def drop_update_swap take_update_swap list_update_beyond)

lemma message_received:
  assumes "selectable sockfd" and "length body < 2 ^ 32"
    and "ch_in ch = message_buf ident type body @ rest"
    and "ch_sel ch = SelReady # SelReady # sels"
    and "ch_recv ch = e1 @ e2 @ later" and "delivers e1 header_size"
    and "delivers_body e2 (length body)"
  shows "\<exists>ch'. receive_message sockfd True ch = Inr (Some (Some (ident, type, body), ch')) \<and> ch_in ch' = rest"
proof -
  note split = message_buf_split [of ident type body]
  have ok: "frame_ok crc32 (message_buf ident type body)"
    unfolding message_buf_payload by (rule crc.frame_ok_built)
  have "unat (word_of_nat (length body) :: u32) = length body"
    using assms(2) by (simp add: unat_of_nat)
  with receive_frame [of sockfd "take 16 (message_buf ident type body)" body ch rest sels e1 e2 later]
    assms split ok show ?thesis by simp
qed

text \<open>
  C11: a message that \<open>send_message\<close> put on the stream is received intact whatever the pieces
  and interruptions in which the kernel delivers it, and nothing after it is consumed, on any
  descriptor that an \<open>fd_set\<close> can hold.
\<close>

theorem message_roundtrip:
  assumes "selectable sockfd" and "length body < 2 ^ 32"
    and "ch_in ch = message_buf ident type body @ rest"
    and "ch_sel ch = SelReady # SelReady # sels"
    and "ch_recv ch = e1 @ e2 @ later" and "delivers e1 header_size"
    and "delivers_body e2 (length body)"
  shows "\<exists>ch'. receive_message sockfd True ch = Inr (Some (Some (ident, type, body), ch')) \<and> ch_in ch' = rest"
  using assms by (rule message_received)

theorem message_roundtrip_witness:
  "\<exists>ch'. receive_message 5 True \<lparr>ch_send = [], ch_sel = [SelReady, SelReady],
       ch_recv = [Recv 10, RecvErr EINTR, Recv 6, Recv 1, Recv 1],
       ch_in = message_buf 5 BIZ_REQ_MSG_TYPE [1, 2] @ [9], ch_out = []\<rparr>
     = Inr (Some (Some (5, BIZ_REQ_MSG_TYPE, [1, 2]), ch')) \<and> ch_in ch' = [9]"
  by (rule message_roundtrip [of 5 _ _ _ _ _ "[]" "[Recv 10, RecvErr EINTR, Recv 6]" "[Recv 1, Recv 1]" "[]"])
     (simp_all add: delivers_body_def retryable_def header_size_def selectable_def FD_SETSIZE_def)

text \<open>
  A frame in which the channel changed any one byte outside the length field is read
  to its end and rejected.
\<close>

theorem message_corruption_rejected:
  assumes "selectable sockfd" and "length body < 2 ^ 32"
    and "ch_in ch = (message_buf ident type body)[i := b] @ rest"
    and "i < length (message_buf ident type body)" and "i < 8 \<or> 12 \<le> i"
    and "message_buf ident type body ! i \<noteq> b"
    and "ch_sel ch = SelReady # SelReady # sels"
    and "ch_recv ch = e1 @ e2 @ later" and "delivers e1 header_size"
    and "delivers_body e2 (length body)"
  shows "\<exists>ch'. receive_message sockfd True ch = Inr (Some (None, ch')) \<and> ch_in ch' = rest"
proof -
  let ?frame = "message_buf ident type body"
  let ?h = "take 16 ?frame"
  note split = message_buf_split [of ident type body]
  have "frame_ok crc32 ?frame"
    unfolding message_buf_payload by (rule crc.frame_ok_built)
  then have bad: "\<not> frame_ok crc32 (?frame[i := b])"
    using assms by (intro crc.frame_corrupt) (simp_all add: length_message_buf header_size_def)
  let ?body = "if i < 16 then body else body[i - 16 := b]"
  have "?frame[i := b] = (?h @ body)[i := b]" using split by simp
  then have upd: "?frame[i := b] = ?h[i := b] @ ?body"
    using split(2) assms(4) by (simp add: list_update_append list_update_beyond)
  have "length body = unat (msg_length (header_of (?h[i := b])))"
    using assms(2,5) split header_of_update [of ?h i b] by (simp add: unat_of_nat)
  then show ?thesis
    using receive_frame [of sockfd "?h[i := b]" ?body ch rest sels e1 e2 later] assms split(2) bad upd by simp
qed

theorem message_corruption_rejected_witness:
  "\<exists>ch'. receive_message 5 True \<lparr>ch_send = [], ch_sel = [SelReady, SelReady],
       ch_recv = [Recv 16, Recv 2],
       ch_in = (message_buf 5 BIZ_REQ_MSG_TYPE [1, 2])[17 := 3] @ [9], ch_out = []\<rparr>
     = Inr (Some (None, ch')) \<and> ch_in ch' = [9]"
  by (rule message_corruption_rejected [of 5 "[1, 2]" _ 5 BIZ_REQ_MSG_TYPE 17 3 _ "[]" "[Recv 16]" "[Recv 2]" "[]"])
     (simp_all add: selectable_def FD_SETSIZE_def delivers_body_def header_size_def length_message_buf message_buf_payload payload_def
      nth_append)

lemma receive_message_reads:
  assumes "receive_message sockfd True ch = Inr (Some (Some (ident, type, body), ch'))"
  shows "\<exists>pad. length pad = 3 \<and>
     (let data = be32 ident @ be32 (word_of_nat (length body)) @ [type] @ pad @ body
      in ch_in ch = be32 (crc32 data) @ data @ ch_in ch')"
proof -
  from assms obtain hdr ch1 where hdr: "socket_receive sockfd ch header_size 3 = Inr (Some (0, hdr, ch1))"
    and body: "receive_body sockfd (header_of hdr) ch1 = Inr (Some (Some (ident, type, body), ch'))"
    by (auto simp: receive_message_def split: option.splits if_splits sum.splits)
  from socket_receive_result [OF hdr] have st: "ch_in ch = hdr @ ch_in ch1" and len: "length hdr = 16"
    by (simp_all add: header_size_def)
  have fields: "crc32_check (header_of hdr) body" "ident = msg_identifier (header_of hdr)"
      "type = msg_type (header_of hdr)" "length body = unat (msg_length (header_of hdr))"
      "ch_in ch1 = body @ ch_in ch'"
    using body by (auto simp: receive_body_def Let_def split: if_splits option.splits sum.splits
        dest: socket_receive_result)
  have "header_bytes (header_of hdr) = hdr" using len by (rule header_bytes_of)
  then have h: "hdr = be32 (crc (header_of hdr)) @ be32 ident @ be32 (word_of_nat (length body))
      @ [type] @ reversed (header_of hdr)"
    using fields by (simp add: header_bytes_def)
  have pad: "length (reversed (header_of hdr)) = 3" using len by (simp add: header_of_def)
  have "crc (header_of hdr) = crc32 (drop 4 (hdr @ body))"
    using fields(1) len by (simp add: crc32_check_def header_bytes_of Let_def)
  moreover have "drop 4 (hdr @ body) = be32 ident @ be32 (word_of_nat (length body)) @ [type]
      @ reversed (header_of hdr) @ body"
    by (subst h) simp
  ultimately show ?thesis using h st fields(5) pad
    by (intro exI [of _ "reversed (header_of hdr)"]) (simp add: Let_def)
qed

text \<open>
  C24: whatever the peer sends, \<open>receive_message\<close> accepts a message only when the stream
  starts with a frame of exactly that identifier, type and body whose stored checksum is right,
  and it has consumed that frame and nothing more.
\<close>

theorem receive_message_sound:
  assumes "receive_message sockfd True ch = Inr (Some (Some (ident, type, body), ch'))"
  shows "\<exists>pad. length pad = 3 \<and>
     (let data = be32 ident @ be32 (word_of_nat (length body)) @ [type] @ pad @ body
      in ch_in ch = be32 (crc32 data) @ data @ ch_in ch')"
  using assms by (rule receive_message_reads)

theorem receive_message_sound_witness:
  "\<exists>ch'. receive_message 5 True \<lparr>ch_send = [], ch_sel = [SelReady], ch_recv = [Recv 16],
       ch_in = message_buf 5 HB_REQ_MSG_TYPE [], ch_out = []\<rparr>
     = Inr (Some (Some (5, HB_REQ_MSG_TYPE, []), ch')) \<and> ch_in ch' = []"
proof -
  let ?ch = "\<lparr>ch_send = [], ch_sel = [SelReady], ch_recv = [Recv 16],
       ch_in = message_buf 5 HB_REQ_MSG_TYPE [], ch_out = []\<rparr>"
  let ?ch' = "\<lparr>ch_send = [], ch_sel = [], ch_recv = [], ch_in = [], ch_out = []\<rparr>"
  have run: "receive_message 5 True ?ch = Inr (Some (Some (5, HB_REQ_MSG_TYPE, []), ?ch'))"
    by code_simp
  from receive_message_sound [OF run] show ?thesis using run by auto
qed

end
