(* ===== verification/Resource_Mgt.thy ===== *)
theory Resource_Mgt
  imports Conn_Pool Str_Array Service_Conf Protocol
begin

text \<open>
  soaagent/resource_mgt.c: the table of nodes, each with its connection pool, the table of
  services, each with the keys of the nodes that offer it, and the threads that destroy the
  pools of removed nodes.  \<open>cfg\<close> is \<open>get_config_item_int\<close> on the loaded configuration (theory
  Conf).  The two tables are uthash tables (theory Hash_Table), protected by a lock each.

  An operation is one function from its beginning to its end.  Three of them take their locks
  more than once (\<open>service_resource_require_node_key\<close> twice, \<open>resource_add\<close> for the
  node and then for the service, \<open>resource_delete\<close> for the service, for the search and for the
  node), so what is proved here is about operations that follow each other.  What other threads
  can do between two such sections, and the faults that come of it, is the subject of the
  theories Invoke_Threads to Threads_Alone.
\<close>

record resources =
  nodes :: "pool_obj htab"
  services :: "string_array htab"
  thds :: "nat \<Rightarrow> (pool_obj \<times> nat) option"  \<comment> \<open>running \<open>pool_destroy_thd_func\<close> with their retries\<close>
  next_thd :: nat
  world :: world

type_synonym config = "string \<Rightarrow> int \<Rightarrow> int"

section \<open>Nodes\<close>

text \<open>
  The heartbeat; \<open>ident\<close> is the value of \<open>next_identifier\<close>, \<open>sockfd\<close> that of
  \<open>conn->sock_fd\<close> and the channel the one behind it.
\<close>

definition test_conn_func_impl :: "u32 \<Rightarrow> int \<Rightarrow> channel \<Rightarrow> fault + (int \<times> channel) option" where
  "test_conn_func_impl ident sockfd ch =
     (case send_message ch ident HB_REQ_MSG_TYPE [] of
        None \<Rightarrow> Inr None
      | Some (r, ch) \<Rightarrow>
          if r = 0 then
            (case receive_message sockfd False ch of
               Inl f \<Rightarrow> Inl f
             | Inr None \<Rightarrow> Inr None
             | Inr (Some (Some (res_identifier, res_type, _), ch)) \<Rightarrow>
                 Inr (Some (if res_identifier \<noteq> ident \<or> res_type \<noteq> HB_RES_MSG_TYPE then 0 else 1, ch))
             | Inr (Some (None, ch)) \<Rightarrow> Inr (Some (0, ch)))
          else Inr (Some (0, ch)))"

definition node_resource_init :: "world \<Rightarrow> resources" where
  "node_resource_init w = \<lparr>nodes = [], services = [], thds = (\<lambda>_. None), next_thd = 0, world = w\<rparr>"

definition node_key_of :: "string \<Rightarrow> int \<Rightarrow> string" where
  "node_key_of host port = node_resource_construct_key host port NODE_KEY_LEN"

definition node_resource_get_by_key :: "string option \<Rightarrow> resources \<Rightarrow> pool_obj option" where
  "node_resource_get_by_key node_key st =
     (case node_key of None \<Rightarrow> None | Some k \<Rightarrow> hash_find (nodes st) k)"

definition node_resource_get :: "string \<Rightarrow> int \<Rightarrow> resources \<Rightarrow> pool_obj option" where
  "node_resource_get host port st = node_resource_get_by_key (Some (node_key_of host port)) st"

definition node_resource_add :: "config \<Rightarrow> string \<Rightarrow> int \<Rightarrow> resources \<Rightarrow> resources" where
  "node_resource_add cfg host port st =
     (case node_resource_get host port st of
        Some _ \<Rightarrow> st
      | None \<Rightarrow>
          let (pool, w) = pool_init host port
                (cfg ''pool:timeout_secs'' 3) (cfg ''pool:init_conn_num'' 1)
                (cfg ''pool:min_conn_num'' 1) (cfg ''pool:max_conn_num'' 6)
                (cfg ''pool:max_idle_secs'' 60) (world st)
          in st\<lparr>nodes := hash_add (node_key_of host port) pool (nodes st), world := w\<rparr>)"

text \<open>The node leaves the table and a detached thread gets it, to destroy its pool.\<close>

definition node_resource_delete :: "string \<Rightarrow> int \<Rightarrow> resources \<Rightarrow> resources" where
  "node_resource_delete host port st =
     (case node_resource_get host port st of
        None \<Rightarrow> st
      | Some pool \<Rightarrow>
          st\<lparr>nodes := hash_del (node_key_of host port) (nodes st),
             thds := (thds st)(next_thd st \<mapsto> (pool, 10 * 5)), next_thd := Suc (next_thd st)\<rparr>)"

text \<open>One iteration of the loop of \<open>pool_destroy_thd_func\<close>.\<close>

definition pool_destroy_thd_step :: "nat \<Rightarrow> resources \<Rightarrow> fault + resources" where
  "pool_destroy_thd_step i st =
     (case thds st i of
        None \<Rightarrow> Inr st
      | Some (pool, retry) \<Rightarrow>
          if retry = 0 then Inr (st\<lparr>thds := (thds st)(i := None)\<rparr>)
          else
            (case pool_destroy pool (world st) of
               Inl f \<Rightarrow> Inl f
             | Inr (r, pool, w) \<Rightarrow>
                 if r < 0 then Inr (st\<lparr>thds := (thds st)(i \<mapsto> (pool, retry - 1)), world := w\<rparr>)
                 else Inr (st\<lparr>thds := (thds st)(i := None), world := w\<rparr>)))"

text \<open>The body of the checker thread's loop, over the keys in iteration order.\<close>

fun check_nodes :: "string list \<Rightarrow> resources \<Rightarrow> fault + resources" where
  "check_nodes [] st = Inr st"
| "check_nodes (k # ks) st =
     (case hash_find (nodes st) k of
        None \<Rightarrow> check_nodes ks st
      | Some pool \<Rightarrow>
          (case pool_check pool (world st) of
             Inl f \<Rightarrow> Inl f
           | Inr (pool, w) \<Rightarrow> check_nodes ks (st\<lparr>nodes := hash_upd k pool (nodes st), world := w\<rparr>)))"

definition conn_check_thd_func :: "resources \<Rightarrow> fault + resources" where
  "conn_check_thd_func st = check_nodes (map fst (hash_iter (nodes st))) st"

fun destroy_nodes :: "(string \<times> pool_obj) list \<Rightarrow> resources \<Rightarrow> fault + resources" where
  "destroy_nodes [] st = Inr st"
| "destroy_nodes ((k, pool) # items) st =
     (case pool_destroy pool (world st) of
        Inl f \<Rightarrow> Inl f
      | Inr (_, _, w) \<Rightarrow> destroy_nodes items (st\<lparr>nodes := hash_del k (nodes st), world := w\<rparr>))"

definition node_resource_destroy :: "resources \<Rightarrow> fault + resources" where
  "node_resource_destroy st = destroy_nodes (hash_iter (nodes st)) st"

definition node_require_connection ::
  "string option \<Rightarrow> resources \<Rightarrow> fault + addr option \<times> resources" where
  "node_require_connection node_key st =
     (case node_key of
        None \<Rightarrow> Inr (None, st)
      | Some k \<Rightarrow>
          (case hash_find (nodes st) k of
             None \<Rightarrow> Inr (None, st)
           | Some pool \<Rightarrow>
               (case pool_require_connection pool (world st) of
                  Inl f \<Rightarrow> Inl f
                | Inr (conn, pool, w) \<Rightarrow>
                    Inr (conn, st\<lparr>nodes := hash_upd k pool (nodes st), world := w\<rparr>))))"

definition node_release_connection ::
  "string option \<Rightarrow> addr option \<Rightarrow> resources \<Rightarrow> fault + resources" where
  "node_release_connection node_key conn st =
     (case (node_key, conn) of
        (Some k, Some a) \<Rightarrow>
          (case hash_find (nodes st) k of
             None \<Rightarrow> Inr st
           | Some pool \<Rightarrow>
               (case pool_release_connection pool (Some a) True (world st) of
                  Inl f \<Rightarrow> Inl f
                | Inr (pool, w) \<Rightarrow> Inr (st\<lparr>nodes := hash_upd k pool (nodes st), world := w\<rparr>)))
      | _ \<Rightarrow> Inr st)"

definition node_resource_status :: "nat \<Rightarrow> resources \<Rightarrow> string" where
  "node_resource_status buf_len st =
     snprintf_s buf_len (concat (map (\<lambda>(k, pool).
        ''pool : '' @ k @ '', status : '' @ pool_status pool 100 @ '' || '') (hash_iter (nodes st))))"

section \<open>Services\<close>

definition service_resource_init :: "resources \<Rightarrow> resources" where
  "service_resource_init st = st\<lparr>services := []\<rparr>"

definition service_key_of :: "string \<Rightarrow> string \<Rightarrow> string \<Rightarrow> string" where
  "service_key_of grp service version = service_resource_construct_key grp service version SERVICE_KEY_LEN"

definition service_resource_get_by_key :: "string \<Rightarrow> resources \<Rightarrow> string_array option" where
  "service_resource_get_by_key service_key st = hash_find (services st) service_key"

definition service_resource_get :: "string \<Rightarrow> string \<Rightarrow> string \<Rightarrow> resources \<Rightarrow> string_array option" where
  "service_resource_get grp service version st =
     service_resource_get_by_key (service_key_of grp service version) st"

definition service_resource_add ::
  "string \<Rightarrow> string \<Rightarrow> string \<Rightarrow> string \<Rightarrow> int \<Rightarrow> resources \<Rightarrow> resources" where
  "service_resource_add grp service version host port st =
     (let k = service_key_of grp service version; node_key = node_key_of host port in
      case service_resource_get grp service version st of
        Some array \<Rightarrow> st\<lparr>services := hash_upd k (string_array_add array node_key) (services st)\<rparr>
      | None \<Rightarrow>
          st\<lparr>services := hash_add k (string_array_add string_array_init node_key) (services st)\<rparr>)"

definition service_resource_delete ::
  "string \<Rightarrow> string \<Rightarrow> string \<Rightarrow> string \<Rightarrow> int \<Rightarrow> resources \<Rightarrow> resources" where
  "service_resource_delete grp service version host port st =
     (let k = service_key_of grp service version in
      case service_resource_get grp service version st of
        None \<Rightarrow> st
      | Some array \<Rightarrow>
          let (_, array) = string_array_delete array (node_key_of host port)
          in if string_array_size array = 0 then st\<lparr>services := hash_del k (services st)\<rparr>
             else st\<lparr>services := hash_upd k array (services st)\<rparr>)"

definition service_resource_require_node_key ::
  "string \<Rightarrow> string \<Rightarrow> string \<Rightarrow> resources \<Rightarrow> string option \<times> resources" where
  "service_resource_require_node_key grp service version st =
     (case service_resource_get grp service version st of
        None \<Rightarrow> (None, st)
      | Some array \<Rightarrow>
          let (pool_key, array) = string_array_next array
          in (pool_key, st\<lparr>services := hash_upd (service_key_of grp service version) array (services st)\<rparr>))"

definition service_resource_status :: "nat \<Rightarrow> resources \<Rightarrow> string" where
  "service_resource_status buf_len st =
     snprintf_s buf_len (concat (map (\<lambda>(k, array).
        ''service : '' @ k @ '', nodes : '' @ string_array_content array 100 @ '' || '')
        (hash_iter (services st))))"

fun any_array_has :: "(string \<times> string_array) list \<Rightarrow> string \<Rightarrow> bool" where
  "any_array_has [] node_key = False"
| "any_array_has ((_, array) # items) node_key =
     (if string_array_find array node_key \<noteq> -1 then True else any_array_has items node_key)"

definition service_resource_pool_is_used :: "string \<Rightarrow> int \<Rightarrow> resources \<Rightarrow> bool" where
  "service_resource_pool_is_used host port st =
     any_array_has (hash_iter (services st)) (node_key_of host port)"

definition service_resource_destroy :: "resources \<Rightarrow> resources" where
  "service_resource_destroy st =
     st\<lparr>services := fold (\<lambda>(k, _). hash_del k) (hash_iter (services st)) (services st)\<rparr>"

section \<open>Both\<close>

definition resource_add ::
  "config \<Rightarrow> string \<Rightarrow> string \<Rightarrow> string \<Rightarrow> string \<Rightarrow> int \<Rightarrow> resources \<Rightarrow> resources" where
  "resource_add cfg grp service version host port st =
     service_resource_add grp service version host port (node_resource_add cfg host port st)"

definition resource_delete ::
  "string \<Rightarrow> string \<Rightarrow> string \<Rightarrow> string \<Rightarrow> int \<Rightarrow> resources \<Rightarrow> resources" where
  "resource_delete grp service version host port st =
     (let st = service_resource_delete grp service version host port st in
      if \<not> service_resource_pool_is_used host port st then node_resource_delete host port st else st)"

section \<open>Every connection belongs to one pool\<close>

text \<open>A pool lives in the node table or with the thread that destroys it.\<close>

datatype slot = Node string | Dying nat

definition pool_at :: "resources \<Rightarrow> slot \<Rightarrow> pool_obj option" where
  "pool_at st s = (case s of Node k \<Rightarrow> hash_find (nodes st) k | Dying i \<Rightarrow> map_option fst (thds st i))"

definition slots_ok :: "world \<Rightarrow> ('s \<Rightarrow> pool_obj option) \<Rightarrow> bool" where
  "slots_ok w f \<longleftrightarrow> world_ok w \<and> (\<forall>s p. f s = Some p \<longrightarrow> pool_ok w p)
     \<and> (\<forall>s s' p p'. s \<noteq> s' \<longrightarrow> f s = Some p \<longrightarrow> f s' = Some p' \<longrightarrow> conns p \<inter> conns p' = {})"

lemma slots_update:
  assumes ok: "slots_ok w f" and p: "f s = Some p" and k: "keeps w p w' p'"
  shows "slots_ok w' (f(s := Some p'))"
proof -
  have other: "pool_ok w' q \<and> conns q \<inter> conns p' = {}" if "s' \<noteq> s" "f s' = Some q" for s' q
  proof -
    have q: "pool_ok w q" "conns q \<inter> conns p = {}" "world_ok w"
      using ok p that unfolding slots_ok_def by blast+
    have "a < next_addr w" if "a \<in> conns q" for a
      using q(1,3) that unfolding pool_ok_def world_ok_def by (metis option.distinct(1))
    then have "conns q \<inter> conns p' = {}"
      using k q(2) unfolding keeps_def only_touches_def by fastforce
    with pool_ok_frame [OF q(1) _ q(2) q(3)] k show ?thesis by (auto simp: keeps_def)
  qed
  show ?thesis
    unfolding slots_ok_def
  proof (intro conjI allI impI)
    show "world_ok w'" using k by (simp add: keeps_def)
    show "pool_ok w' q" if "(f(s := Some p')) s' = Some q" for s' q
      using that other k by (cases "s' = s") (auto simp: keeps_def)
    show "conns q \<inter> conns r = {}"
      if "s1 \<noteq> s2" "(f(s := Some p')) s1 = Some q" "(f(s := Some p')) s2 = Some r" for s1 s2 q r
    proof (cases "s1 = s")
      case True
      with that other [of s2 r] show ?thesis by auto
    next
      case False
      with that other [of s1 q] ok show ?thesis
        unfolding slots_ok_def by (cases "s2 = s") auto
    qed
  qed
qed

lemma slots_remove: "slots_ok w f \<Longrightarrow> slots_ok w (f(s := None))"
  unfolding slots_ok_def by (auto split: if_splits)

lemma slots_new:
  assumes ok: "slots_ok w f" and new: "f s = None"
    and init: "pool_init host port t i mn mx idle w = (pool, w')"
  shows "slots_ok w' (f(s := Some pool))"
  using ok pool_init_keeps [OF _ init] new
  unfolding slots_ok_def by (auto split: if_splits)

lemma slots_move:
  "slots_ok w f \<Longrightarrow> f s = Some p \<Longrightarrow> f s' = None \<Longrightarrow> slots_ok w (f(s := None, s' := Some p))"
  unfolding slots_ok_def by (auto split: if_splits) blast+

section \<open>The invariant of the resources\<close>

definition routes :: "resources \<Rightarrow> (string \<times> string) set" where
  "routes st = {(k, n). \<exists>array. hash_find (services st) k = Some array \<and> n \<in> set (strs array)}"

definition arrays_ok :: "resources \<Rightarrow> bool" where
  "arrays_ok st \<longleftrightarrow> (\<forall>k array. hash_find (services st) k = Some array \<longrightarrow> sa_ok array \<and> strs array \<noteq> [])"

definition tables_ok :: "resources \<Rightarrow> bool" where
  "tables_ok st \<longleftrightarrow> hash_ok (nodes st) \<and> hash_ok (services st)
     \<and> (\<forall>i. thds st i \<noteq> None \<longrightarrow> i < next_thd st)"

text \<open>A node has a pool exactly while some service is routed to it.\<close>

definition nodes_match :: "resources \<Rightarrow> bool" where
  "nodes_match st \<longleftrightarrow> (\<forall>n. hash_find (nodes st) n \<noteq> None \<longleftrightarrow> n \<in> snd ` routes st)"

definition res_ok :: "resources \<Rightarrow> bool" where
  "res_ok st \<longleftrightarrow> tables_ok st \<and> arrays_ok st \<and> nodes_match st \<and> slots_ok (world st) (pool_at st)"

lemmas res_defs = res_ok_def tables_ok_def arrays_ok_def nodes_match_def

lemma res_ok_init: "world_ok w \<Longrightarrow> res_ok (node_resource_init w)"
  by (auto simp: res_defs node_resource_init_def routes_def slots_ok_def pool_at_def hash_ok_def
      hash_find_def split: slot.splits)

text \<open>How the tables of a state reach \<open>pool_at\<close>.\<close>

lemma pool_at_upd:
  "hash_find (nodes st) k = Some q \<Longrightarrow>
     pool_at (st\<lparr>nodes := hash_upd k p (nodes st), world := w\<rparr>) = (pool_at st)(Node k := Some p)"
  by (auto simp: pool_at_def fun_eq_iff hash_upd_put hash_find_put split: slot.split)

lemma pool_at_add:
  "hash_find (nodes st) k = None \<Longrightarrow>
     pool_at (st\<lparr>nodes := hash_add k p (nodes st), world := w\<rparr>) = (pool_at st)(Node k := Some p)"
  by (auto simp: pool_at_def fun_eq_iff hash_add_put hash_find_put split: slot.split)

lemma pool_at_services [simp]: "pool_at (st\<lparr>services := x\<rparr>) = pool_at st"
  by (simp add: pool_at_def fun_eq_iff split: slot.split)

text \<open>
  Two conditions that are not part of the invariant but kept: the checker can compute with the
  idle time of every pool, and \<open>FD_SET\<close> stays inside its set for every connection.
\<close>

definition pools_idle_ok :: "resources \<Rightarrow> bool" where
  "pools_idle_ok st \<longleftrightarrow> (\<forall>k p. hash_find (nodes st) k = Some p \<longrightarrow> idle_secs_ok (max_idle_secs p))"

definition stays_bounded :: "resources \<Rightarrow> resources \<Rightarrow> bool" where
  "stays_bounded st st' \<longleftrightarrow> (pools_idle_ok st \<longrightarrow> pools_idle_ok st') \<and> (fds_fit (world st) \<longrightarrow> fds_fit (world st'))"

abbreviation cfg_idle_ok :: "config \<Rightarrow> bool" where
  "cfg_idle_ok cfg \<equiv> idle_secs_ok (cfg ''pool:max_idle_secs'' 60)"

lemma stays_bounded_refl [simp]: "stays_bounded st st"
  by (simp add: stays_bounded_def)

lemma stays_bounded_trans: "stays_bounded st st1 \<Longrightarrow> stays_bounded st1 st2 \<Longrightarrow> stays_bounded st st2"
  by (auto simp: stays_bounded_def)

lemma keeps_fds_fit: "keeps w p w' p' \<Longrightarrow> fds_fit w \<Longrightarrow> fds_fit w'"
  by (auto simp: keeps_def only_touches_def fds_fit_def)

lemma node_update_bounded:
  "hash_find (nodes st) k = Some q \<Longrightarrow> keeps (world st) q w p \<Longrightarrow>
     stays_bounded st (st\<lparr>nodes := hash_upd k p (nodes st), world := w\<rparr>)"
  using keeps_fds_fit [of "world st" q w p]
  by (auto simp: stays_bounded_def pools_idle_ok_def hash_upd_put hash_find_put keeps_def same_target_def split: if_splits)

section \<open>Routes\<close>

lemma service_add_routes:
  "routes (service_resource_add g s v h p st) = insert (service_key_of g s v, node_key_of h p) (routes st)"
proof (cases "service_resource_get g s v st")
  case None
  then show ?thesis
    by (auto simp: service_resource_add_def service_resource_get_def service_resource_get_by_key_def
        routes_def hash_add_put hash_find_put strs_add string_array_init_def Let_def split: if_splits)
next
  case (Some array)
  then show ?thesis
    by (auto simp: service_resource_add_def service_resource_get_def service_resource_get_by_key_def
        routes_def hash_upd_put hash_find_put strs_add Let_def split: if_splits)
qed

lemma service_add_ok:
  assumes "hash_ok (services st)" and "arrays_ok st"
  shows "hash_ok (services (service_resource_add g s v h p st)) \<and> arrays_ok (service_resource_add g s v h p st)"
proof (cases "service_resource_get g s v st")
  case None
  then show ?thesis using assms
    by (auto simp: service_resource_add_def service_resource_get_def service_resource_get_by_key_def
        arrays_ok_def hash_add_put hash_find_put hash_ok_put strs_add sa_ok_def string_array_init_def Let_def)
next
  case (Some array)
  then show ?thesis using assms
    by (auto simp: service_resource_add_def service_resource_get_def service_resource_get_by_key_def
        arrays_ok_def hash_upd_put hash_find_put hash_ok_put strs_add sa_ok_def Let_def)
qed

lemma service_delete_find:
  fixes g s v h p
  assumes "hash_ok (services st)" and "arrays_ok st"
  defines "k \<equiv> service_key_of g s v" and "st' \<equiv> service_resource_delete g s v h p st"
  shows "hash_ok (services st') \<and> nodes st' = nodes st \<and> thds st' = thds st \<and> next_thd st' = next_thd st
    \<and> world st' = world st
    \<and> hash_find (services st') k' =
       (if k' = k then (case hash_find (services st) k of
            None \<Rightarrow> None
          | Some array \<Rightarrow> (let a = snd (string_array_delete array (node_key_of h p)) in
                          if strs a = [] then None else Some a))
        else hash_find (services st) k')"
  using assms hash_find_del [of "services st" k]
  by (auto simp: service_resource_delete_def service_resource_get_def service_resource_get_by_key_def
      Let_def string_array_size_def hash_upd_put hash_find_put hash_ok_put hash_ok_del
      split: option.splits prod.splits)

lemma service_delete_routes:
  assumes "hash_ok (services st)" and "arrays_ok st"
  shows "routes (service_resource_delete g s v h p st) = routes st - {(service_key_of g s v, node_key_of h p)}"
proof -
  let ?k = "service_key_of g s v" and ?st = "service_resource_delete g s v h p st"
  have "(k', n) \<in> routes ?st \<longleftrightarrow> (k', n) \<in> routes st - {(?k, node_key_of h p)}" for k' n
  proof (cases "hash_find (services st) ?k")
    case None
    then show ?thesis using service_delete_find [OF assms, of g s v h p k'] by (auto simp: routes_def)
  next
    case (Some array)
    then have "sa_ok array" using assms(2) by (auto simp: arrays_ok_def)
    note del = set_delete [OF this, of "node_key_of h p"]
    have "\<not> n \<in> set []" by simp
    then show ?thesis using Some service_delete_find [OF assms, of g s v h p k'] del
      by (auto simp: routes_def Let_def split: if_splits)
  qed
  then show ?thesis by auto
qed

lemma service_add_frame [simp]:
  "nodes (service_resource_add g s v h p st) = nodes st" "thds (service_resource_add g s v h p st) = thds st"
  "next_thd (service_resource_add g s v h p st) = next_thd st" "world (service_resource_add g s v h p st) = world st"
  by (simp_all add: service_resource_add_def Let_def split: option.split)

lemma any_array_has_iff: "any_array_has items n \<longleftrightarrow> (\<exists>(k, a) \<in> set items. n \<in> set (strs a))"
  by (induction items n rule: any_array_has.induct) (auto simp: string_array_find_iff)

lemma pool_is_used_iff:
  "hash_ok (services st) \<Longrightarrow>
     service_resource_pool_is_used h p st \<longleftrightarrow> node_key_of h p \<in> snd ` routes st"
  by (auto simp: service_resource_pool_is_used_def any_array_has_iff hash_iter_def routes_def
      image_iff hash_find_in)

section \<open>The operations keep the invariant\<close>

lemma node_add_ok:
  fixes cfg :: config and h :: string and p :: int
  assumes "tables_ok st" and "slots_ok (world st) (pool_at st)"
  defines "st' \<equiv> node_resource_add cfg h p st"
  shows "tables_ok st' \<and> slots_ok (world st') (pool_at st') \<and> services st' = services st
    \<and> (\<forall>n. hash_find (nodes st') n \<noteq> None \<longleftrightarrow> n = node_key_of h p \<or> hash_find (nodes st) n \<noteq> None)"
proof (cases "hash_find (nodes st) (node_key_of h p)")
  case (Some pool)
  then have "st' = st"
    by (simp add: st'_def node_resource_add_def node_resource_get_def node_resource_get_by_key_def)
  with assms Some show ?thesis by auto
next
  case None
  obtain pool w where init: "pool_init h p (cfg ''pool:timeout_secs'' 3) (cfg ''pool:init_conn_num'' 1)
      (cfg ''pool:min_conn_num'' 1) (cfg ''pool:max_conn_num'' 6) (cfg ''pool:max_idle_secs'' 60) (world st)
      = (pool, w)" by (metis surj_pair)
  have st': "st' = st\<lparr>nodes := hash_add (node_key_of h p) pool (nodes st), world := w\<rparr>"
    using None init by (simp add: st'_def node_resource_add_def node_resource_get_def node_resource_get_by_key_def)
  have "pool_at st (Node (node_key_of h p)) = None" using None by (simp add: pool_at_def)
  from slots_new [OF assms(2) this init] have "slots_ok (world st') (pool_at st')"
    using None by (simp add: st' pool_at_add)
  with assms(1) None show ?thesis
    by (auto simp: st' tables_ok_def hash_add_put hash_ok_put hash_find_put)
qed

lemma node_delete_ok:
  fixes h :: string and p :: int
  assumes "tables_ok st" and "slots_ok (world st) (pool_at st)"
  defines "st' \<equiv> node_resource_delete h p st"
  shows "tables_ok st' \<and> slots_ok (world st') (pool_at st') \<and> services st' = services st
    \<and> (\<forall>n. hash_find (nodes st') n \<noteq> None \<longleftrightarrow> n \<noteq> node_key_of h p \<and> hash_find (nodes st) n \<noteq> None)"
proof (cases "hash_find (nodes st) (node_key_of h p)")
  case None
  then have "st' = st"
    by (simp add: st'_def node_resource_delete_def node_resource_get_def node_resource_get_by_key_def)
  with assms None show ?thesis by auto
next
  case (Some pool)
  let ?k = "node_key_of h p" and ?i = "next_thd st"
  have st': "st' = st\<lparr>nodes := hash_del ?k (nodes st), thds := (thds st)(?i \<mapsto> (pool, 10 * 5)), next_thd := Suc ?i\<rparr>"
    using Some by (simp add: st'_def node_resource_delete_def node_resource_get_def node_resource_get_by_key_def)
  have tab: "hash_ok (nodes st)" "thds st ?i = None"
    using assms(1) unfolding tables_ok_def by (blast, metis less_irrefl)
  have at: "pool_at st' = (pool_at st)(Node ?k := None, Dying ?i := Some pool)"
    using tab by (auto simp: st' pool_at_def fun_eq_iff hash_find_del split: slot.split)
  have "pool_at st (Node ?k) = Some pool" "pool_at st (Dying ?i) = None"
    using Some tab by (simp_all add: pool_at_def)
  from slots_move [OF assms(2) this] have "slots_ok (world st') (pool_at st')"
    by (simp only: at) (simp add: st')
  moreover have "tables_ok st'"
    using assms(1) by (auto simp: st' tables_ok_def hash_ok_del less_Suc_eq)
  ultimately show ?thesis using tab by (auto simp: st' hash_find_del)
qed

lemma resource_add_bounded:
  assumes "res_ok st"
  shows "fds_fit (world st) \<longrightarrow> fds_fit (world (resource_add cfg g s v h p st))"
    and "cfg_idle_ok cfg \<Longrightarrow> stays_bounded st (resource_add cfg g s v h p st)"
proof -
  have both: "(fds_fit (world st) \<longrightarrow> fds_fit (world (node_resource_add cfg h p st)))
    \<and> (cfg_idle_ok cfg \<longrightarrow> pools_idle_ok st \<longrightarrow> pools_idle_ok (node_resource_add cfg h p st))"
  proof (cases "hash_find (nodes st) (node_key_of h p)")
    case None
    obtain pool w where init: "pool_init h p (cfg ''pool:timeout_secs'' 3) (cfg ''pool:init_conn_num'' 1)
        (cfg ''pool:min_conn_num'' 1) (cfg ''pool:max_conn_num'' 6) (cfg ''pool:max_idle_secs'' 60) (world st)
        = (pool, w)" by (metis surj_pair)
    have "world_ok (world st)" using assms by (simp add: res_ok_def slots_ok_def)
    from pool_init_keeps [OF this init] None init show ?thesis
      by (auto simp: node_resource_add_def node_resource_get_def node_resource_get_by_key_def fds_fit_def
          pools_idle_ok_def hash_add_put hash_find_put)
  qed (simp add: node_resource_add_def node_resource_get_def node_resource_get_by_key_def)
  then show "fds_fit (world st) \<longrightarrow> fds_fit (world (resource_add cfg g s v h p st))"
    by (simp add: resource_add_def)
  show "stays_bounded st (resource_add cfg g s v h p st)" if "cfg_idle_ok cfg"
    using that both by (simp add: resource_add_def stays_bounded_def pools_idle_ok_def)
qed

lemma resource_delete_bounded:
  assumes "res_ok st"
  shows "stays_bounded st (resource_delete g s v h p st)"
proof -
  let ?d = "service_resource_delete g s v h p st"
  have hyp: "hash_ok (services st)" "arrays_ok st" "hash_ok (nodes st)" using assms by (auto simp: res_defs)
  note d = service_delete_find [OF hyp(1,2), of g s v h p]
  have "hash_find (nodes (node_resource_delete h p ?d)) k = Some q \<Longrightarrow> hash_find (nodes st) k = Some q" for k q
    using d hyp(3) by (auto simp: node_resource_delete_def hash_find_del split: option.splits if_splits)
  moreover have "world (node_resource_delete h p ?d) = world st"
    using d by (simp add: node_resource_delete_def split: option.split)
  ultimately have "pools_idle_ok st \<Longrightarrow> pools_idle_ok (node_resource_delete h p ?d)"
    "world (node_resource_delete h p ?d) = world st"
    by (auto simp: pools_idle_ok_def dest: meta_spec)
  moreover have "pools_idle_ok st \<Longrightarrow> pools_idle_ok ?d" "world ?d = world st"
    using d by (simp_all add: pools_idle_ok_def)
  ultimately show ?thesis by (simp add: resource_delete_def stays_bounded_def Let_def)
qed

lemma resource_add_keeps:
  assumes "res_ok st"
  shows "res_ok (resource_add cfg g s v h p st)
    \<and> routes (resource_add cfg g s v h p st) = insert (service_key_of g s v, node_key_of h p) (routes st)"
proof -
  let ?n = "node_resource_add cfg h p st" and ?st = "resource_add cfg g s v h p st"
  have n: "tables_ok ?n" "slots_ok (world ?n) (pool_at ?n)" "services ?n = services st"
    "\<And>n. hash_find (nodes ?n) n \<noteq> None \<longleftrightarrow> n = node_key_of h p \<or> hash_find (nodes st) n \<noteq> None"
    using node_add_ok [of st cfg h p] assms by (auto simp: res_ok_def)
  have "routes ?n = routes st" "arrays_ok ?n" using n(3) assms by (simp_all add: routes_def arrays_ok_def res_ok_def)
  then have r: "routes ?st = insert (service_key_of g s v, node_key_of h p) (routes st)"
    by (simp add: resource_add_def service_add_routes)
  have s: "hash_ok (services ?st)" "arrays_ok ?st"
    using service_add_ok [of ?n g s v h p] n(1) \<open>arrays_ok ?n\<close>
    by (simp_all add: resource_add_def tables_ok_def)
  have "pool_at ?st = pool_at ?n" by (simp add: pool_at_def resource_add_def fun_eq_iff split: slot.split)
  moreover have "tables_ok ?st" using n(1) s(1) by (simp add: resource_add_def tables_ok_def)
  moreover have "nodes_match ?st"
    using n(4) r assms by (auto simp: nodes_match_def resource_add_def res_ok_def)
  ultimately show ?thesis using n(2) r s(2) by (simp add: res_ok_def) (simp add: resource_add_def)
qed

lemma resource_delete_keeps:
  assumes "res_ok st"
  shows "res_ok (resource_delete g s v h p st)
    \<and> routes (resource_delete g s v h p st) = routes st - {(service_key_of g s v, node_key_of h p)}"
proof -
  let ?d = "service_resource_delete g s v h p st" and ?st = "resource_delete g s v h p st"
  let ?k = "service_key_of g s v" and ?n = "node_key_of h p"
  have hyp: "hash_ok (services st)" "arrays_ok st" using assms by (auto simp: res_defs)
  note d = service_delete_find [OF hyp, of g s v h p]
  have dr: "routes ?d = routes st - {(?k, ?n)}" using service_delete_routes [OF hyp] .
  have "tables_ok ?d" using d assms by (auto simp: res_defs)
  moreover have "pool_at ?d = pool_at st" using d by (simp add: pool_at_def fun_eq_iff split: slot.split)
  ultimately have slots: "tables_ok ?d" "slots_ok (world ?d) (pool_at ?d)"
    using d assms by (simp_all add: res_ok_def)
  have arr: "arrays_ok ?d"
    using d hyp(2) sa_ok_delete
    by (auto simp: arrays_ok_def Let_def split: if_splits option.splits)
  have used: "service_resource_pool_is_used h p ?d \<longleftrightarrow> ?n \<in> snd ` routes ?d"
    using pool_is_used_iff d by blast
  have old: "hash_find (nodes ?d) n \<noteq> None \<longleftrightarrow> n \<in> snd ` routes st" for n
    using d assms by (simp add: res_ok_def nodes_match_def)
  have other: "n \<noteq> ?n \<Longrightarrow> n \<in> snd ` routes ?d \<longleftrightarrow> n \<in> snd ` routes st" for n
    by (auto simp: dr image_iff)
  show ?thesis
  proof (cases "service_resource_pool_is_used h p ?d")
    case True
    then have st: "?st = ?d" by (simp add: resource_delete_def Let_def)
    have "?n \<in> snd ` routes st" using True used by (auto simp: dr)
    then have "nodes_match ?d"
      using True used old other unfolding nodes_match_def by metis
    with slots arr dr st show ?thesis by (simp add: res_ok_def)
  next
    case False
    then have st: "?st = node_resource_delete h p ?d" by (simp add: resource_delete_def Let_def)
    note nd = node_delete_ok [OF slots, of h p]
    have "routes ?st = routes ?d" "arrays_ok ?st"
      using nd arr by (simp_all add: st routes_def arrays_ok_def)
    moreover have "nodes_match ?st"
      unfolding nodes_match_def
    proof
      fix n
      show "hash_find (nodes ?st) n \<noteq> None \<longleftrightarrow> n \<in> snd ` routes ?st"
        using nd old other [of n] False used calculation(1) unfolding st by metis
    qed
    ultimately show ?thesis using nd dr by (simp add: st res_ok_def)
  qed
qed

text \<open>An operation on the pool of a node, and on the pool of a destroying thread.\<close>

lemma node_update_keeps:
  assumes "res_ok st" and "hash_find (nodes st) k = Some q" and "keeps (world st) q w p"
  shows "res_ok (st\<lparr>nodes := hash_upd k p (nodes st), world := w\<rparr>)
    \<and> routes (st\<lparr>nodes := hash_upd k p (nodes st), world := w\<rparr>) = routes st"
proof -
  let ?st = "st\<lparr>nodes := hash_upd k p (nodes st), world := w\<rparr>"
  have "pool_at st (Node k) = Some q" using assms(2) by (simp add: pool_at_def)
  with assms(1,3) have "slots_ok w ((pool_at st)(Node k := Some p))"
    by (intro slots_update) (simp_all add: res_ok_def)
  moreover have rt: "routes ?st = routes st" by (simp add: routes_def)
  moreover have "tables_ok ?st" "arrays_ok ?st"
    using assms(1,2) by (simp_all add: res_defs hash_upd_put hash_ok_put)
  moreover have "nodes_match ?st"
    using assms(1,2) rt by (auto simp: res_ok_def nodes_match_def hash_upd_put hash_find_put)
  ultimately show ?thesis using pool_at_upd [OF assms(2), of w p] by (simp add: res_ok_def)
qed

lemma thd_update_keeps:
  assumes "res_ok st" and "thds st i = Some (q, r)" and "keeps (world st) q w p"
  shows "res_ok (st\<lparr>thds := (thds st)(i \<mapsto> (p, r')), world := w\<rparr>)"
    and "res_ok (st\<lparr>thds := (thds st)(i := None), world := w\<rparr>)"
    and "res_ok (st\<lparr>thds := (thds st)(i := None)\<rparr>)"
proof -
  have at: "pool_at st (Dying i) = Some q" using assms(2) by (simp add: pool_at_def)
  with assms(1,3) have new: "slots_ok w ((pool_at st)(Dying i := Some p))"
    by (intro slots_update) (simp_all add: res_ok_def)
  from slots_remove [OF this, of "Dying i"]
  have gone: "slots_ok w ((pool_at st)(Dying i := None))" by simp
  have old: "slots_ok (world st) ((pool_at st)(Dying i := None))"
    using slots_remove [of "world st" "pool_at st" "Dying i"] assms(1) by (simp add: res_ok_def)
  have eq: "pool_at (st\<lparr>thds := (thds st)(i \<mapsto> (p, r')), world := w\<rparr>) = (pool_at st)(Dying i := Some p)"
    "pool_at (st\<lparr>thds := (thds st)(i := None), world := w\<rparr>) = (pool_at st)(Dying i := None)"
    "pool_at (st\<lparr>thds := (thds st)(i := None)\<rparr>) = (pool_at st)(Dying i := None)"
    by (auto simp: pool_at_def fun_eq_iff split: slot.split)
  have lt: "i < next_thd st" using assms by (auto simp: res_defs)
  show "res_ok (st\<lparr>thds := (thds st)(i \<mapsto> (p, r')), world := w\<rparr>)"
    "res_ok (st\<lparr>thds := (thds st)(i := None), world := w\<rparr>)"
    "res_ok (st\<lparr>thds := (thds st)(i := None)\<rparr>)"
    using assms(1) new gone old lt unfolding res_ok_def eq
    by (auto simp: tables_ok_def arrays_ok_def nodes_match_def routes_def)
qed

lemma require_keeps:
  assumes "res_ok st"
  shows "\<exists>conn st'. node_require_connection key st = Inr (conn, st') \<and> res_ok st' \<and> routes st' = routes st
    \<and> stays_bounded st st'"
proof (cases "\<exists>k q. key = Some k \<and> hash_find (nodes st) k = Some q")
  case False
  then show ?thesis using assms by (auto simp: node_require_connection_def split: option.splits)
next
  case True
  then obtain k q where key: "key = Some k" "hash_find (nodes st) k = Some q" by blast
  then have "pool_at st (Node k) = Some q" by (simp add: pool_at_def)
  then have "world_ok (world st)" "pool_ok (world st) q"
    using assms unfolding res_ok_def slots_ok_def by blast+
  from pool_require_keeps [OF this] obtain c p w where
    "pool_require_connection q (world st) = Inr (c, p, w)" "keeps (world st) q w p" by blast
  with key node_update_keeps [OF assms key(2)] node_update_bounded [OF key(2)] show ?thesis
    by (simp add: node_require_connection_def)
qed

lemma require_key_keeps:
  fixes g s v :: string
  assumes "res_ok st"
  defines "r \<equiv> service_resource_require_node_key g s v st"
  shows "res_ok (snd r) \<and> routes (snd r) = routes st \<and> stays_bounded st (snd r)
    \<and> (case fst r of None \<Rightarrow> hash_find (services st) (service_key_of g s v) = None
                   | Some n \<Rightarrow> (service_key_of g s v, n) \<in> routes st \<and> hash_find (nodes st) n \<noteq> None)"
proof (cases "hash_find (services st) (service_key_of g s v)")
  case None
  then show ?thesis using assms
    by (simp add: service_resource_require_node_key_def service_resource_get_def service_resource_get_by_key_def)
next
  case (Some array)
  let ?k = "service_key_of g s v"
  have arr: "sa_ok array" "strs array \<noteq> []" using Some assms by (auto simp: res_defs)
  obtain n array' where nx: "string_array_next array = (Some n, array')" and n: "n \<in> set (strs array)"
    using arr(2) by (auto simp: string_array_next_def Let_def next_idx_def)
  then have same: "strs array' = strs array" using strs_next [of array] by simp
  have r: "r = (Some n, st\<lparr>services := hash_upd ?k array' (services st)\<rparr>)"
    using Some nx by (simp add: r_def service_resource_require_node_key_def service_resource_get_def
        service_resource_get_by_key_def)
  have rt: "routes (snd r) = routes st"
    using Some same by (auto simp: r routes_def hash_upd_put hash_find_put split: if_splits)
  have "(?k, n) \<in> routes st" using Some n by (auto simp: routes_def)
  moreover from this have "hash_find (nodes st) n \<noteq> None"
    using assms unfolding res_ok_def nodes_match_def by (metis image_eqI snd_conv)
  moreover have "tables_ok (snd r)"
    using assms(1) Some by (auto simp: r res_defs hash_upd_put hash_ok_put)
  moreover have "arrays_ok (snd r)"
    using assms(1) Some same arr by (auto simp: r res_defs hash_upd_put hash_find_put sa_ok_def)
  moreover have "nodes_match (snd r)" using assms(1) rt by (simp add: r res_defs)
  moreover have "slots_ok (world (snd r)) (pool_at (snd r))" using assms(1) by (simp add: r res_ok_def)
  moreover have "stays_bounded st (snd r)" by (simp add: r stays_bounded_def pools_idle_ok_def)
  ultimately show ?thesis using rt r by (simp add: res_ok_def)
qed

text \<open>The checker goes over all nodes, or overflows.\<close>

lemma check_nodes_keeps:
  "res_ok st \<Longrightarrow> (\<exists>st'. check_nodes ks st = Inr st' \<and> res_ok st' \<and> routes st' = routes st \<and> stays_bounded st st')
     \<or> check_nodes ks st = Inl IntOverflow \<and> \<not> pools_idle_ok st"
proof (induction ks arbitrary: st)
  case (Cons k ks)
  show ?case
  proof (cases "hash_find (nodes st) k")
    case None
    then show ?thesis using Cons by simp
  next
    case (Some q)
    then have "pool_at st (Node k) = Some q" by (simp add: pool_at_def)
    then have "world_ok (world st)" "pool_ok (world st) q"
      using Cons.prems unfolding res_ok_def slots_ok_def by blast+
    from pool_check_cases [OF this] show ?thesis
    proof
      assume "\<exists>p w. pool_check q (world st) = Inr (p, w) \<and> keeps (world st) q w p
        \<and> used_conn_list p = used_conn_list q"
      then obtain p w where run: "pool_check q (world st) = Inr (p, w)" and k: "keeps (world st) q w p" by blast
      let ?st = "st\<lparr>nodes := hash_upd k p (nodes st), world := w\<rparr>"
      have "check_nodes (k # ks) st = check_nodes ks ?st" using Some run by simp
      moreover note node_update_keeps [OF Cons.prems Some k] node_update_bounded [OF Some k]
      moreover have "\<not> pools_idle_ok ?st \<Longrightarrow> \<not> pools_idle_ok st"
        using node_update_bounded [OF Some k] by (auto simp: stays_bounded_def)
      ultimately show ?thesis using Cons.IH [of ?st] stays_bounded_trans [of st ?st] by auto
    next
      assume "\<not> idle_secs_ok (max_idle_secs q) \<and> pool_check q (world st) = Inl IntOverflow"
      then show ?thesis using Some by (auto simp: pools_idle_ok_def)
    qed
  qed
qed simp

lemma destroy_step_keeps:
  assumes "res_ok st"
  shows "\<exists>st'. pool_destroy_thd_step i st = Inr st' \<and> res_ok st' \<and> routes st' = routes st \<and> stays_bounded st st'"
proof (cases "thds st i")
  case None
  then show ?thesis using assms by (simp add: pool_destroy_thd_step_def)
next
  case (Some qr)
  then obtain q r where thd: "thds st i = Some (q, r)" by (cases qr) auto
  then have "pool_at st (Dying i) = Some q" by (simp add: pool_at_def)
  then have ok: "world_ok (world st)" "pool_ok (world st) q"
    using assms unfolding res_ok_def slots_ok_def by blast+
  obtain x p w where run: "pool_destroy q (world st) = Inr (x, p, w)" and k: "keeps (world st) q w p"
    using pool_destroy_keeps [OF ok] keeps_refl [OF ok] by (auto split: if_splits)
  have "routes (st\<lparr>thds := t, world := w'\<rparr>) = routes st" "routes (st\<lparr>thds := t\<rparr>) = routes st" for t w'
    by (simp_all add: routes_def)
  moreover have "stays_bounded st (st\<lparr>thds := t, world := w\<rparr>)" "stays_bounded st (st\<lparr>thds := t\<rparr>)" for t
    using keeps_fds_fit [OF k] by (auto simp: stays_bounded_def pools_idle_ok_def)
  ultimately show ?thesis using thd run thd_update_keeps [OF assms thd k]
    by (auto simp: pool_destroy_thd_step_def)
qed

lemma release_keeps:
  assumes "res_ok st" and "hash_find (nodes st) k = Some q" and "a \<in> set (used_conn_list q)"
  shows "\<exists>st'. node_release_connection (Some k) (Some a) st = Inr st' \<and> res_ok st' \<and> routes st' = routes st
    \<and> stays_bounded st st'"
proof -
  have "pool_at st (Node k) = Some q" using assms(2) by (simp add: pool_at_def)
  then have "world_ok (world st)" "pool_ok (world st) q"
    using assms unfolding res_ok_def slots_ok_def by blast+
  from pool_release_keeps [OF this assms(3), of True] obtain p w where
    "pool_release_connection q (Some a) True (world st) = Inr (p, w)" "keeps (world st) q w p" by blast
  with node_update_keeps [OF assms(1,2)] node_update_bounded [OF assms(2)] assms(2) show ?thesis
    by (simp add: node_release_connection_def)
qed

section \<open>Properties\<close>

text \<open>
  C28: registering an endpoint adds exactly its route, creates the pool of its node when the
  node is new, and keeps the whole invariant: every routed node has a pool and every pooled
  node has a route.
\<close>

theorem resource_add_correct:
  assumes "res_ok st"
  shows "res_ok (resource_add cfg g s v h p st)
    \<and> routes (resource_add cfg g s v h p st) = insert (service_key_of g s v, node_key_of h p) (routes st)"
  using assms by (rule resource_add_keeps)

theorem resource_add_correct_witness:
  "routes (resource_add (\<lambda>name dflt. dflt) ''g'' ''s'' ''1'' ''10.0.0.1'' 80 (node_resource_init sample_world))
     = {(''g#s#1'', ''10.0.0.1#80'')}"
proof -
  have keys: "service_key_of ''g'' ''s'' ''1'' = ''g#s#1''" "node_key_of ''10.0.0.1'' 80 = ''10.0.0.1#80''"
    by code_simp+
  have none: "routes (node_resource_init sample_world) = {}"
    by (simp add: routes_def node_resource_init_def hash_find_def)
  from resource_add_correct [OF res_ok_init [OF sample_world_ok], of "\<lambda>name dflt. dflt" "''g''" "''s''" "''1''"
      "''10.0.0.1''" 80] show ?thesis unfolding keys none by blast
qed

text \<open>
  C29: removing an endpoint removes exactly its route; the pool of its node is given up when
  no other service is routed to it, and only then.
\<close>

theorem resource_delete_correct:
  assumes "res_ok st"
  shows "res_ok (resource_delete g s v h p st)
    \<and> routes (resource_delete g s v h p st) = routes st - {(service_key_of g s v, node_key_of h p)}"
  using assms by (rule resource_delete_keeps)

theorem resource_delete_correct_witness:
  "routes (resource_delete ''g'' ''s'' ''1'' ''10.0.0.1'' 80
     (resource_add (\<lambda>name dflt. dflt) ''g'' ''s'' ''1'' ''10.0.0.1'' 80 (node_resource_init sample_world))) = {}"
proof -
  let ?st = "resource_add (\<lambda>name dflt. dflt) ''g'' ''s'' ''1'' ''10.0.0.1'' 80 (node_resource_init sample_world)"
  have none: "routes (node_resource_init sample_world) = {}"
    by (simp add: routes_def node_resource_init_def hash_find_def)
  from resource_add_keeps [OF res_ok_init [OF sample_world_ok], of "\<lambda>name dflt. dflt" "''g''" "''s''" "''1''"
      "''10.0.0.1''" 80]
  have "res_ok ?st" "routes ?st = {(service_key_of ''g'' ''s'' ''1'', node_key_of ''10.0.0.1'' 80)}"
    unfolding none by blast+
  with resource_delete_correct [of ?st "''g''" "''s''" "''1''" "''10.0.0.1''" 80] show ?thesis by simp
qed

text \<open>
  Routing is sound.  A call for a service that has a route gets the key of a node it is
  routed to, and that node has a pool; it gets none only for a service without routes.
\<close>

theorem service_routing_sound:
  assumes "res_ok st" and "service_resource_require_node_key g s v st = (key, st')"
  shows "res_ok st' \<and> routes st' = routes st
    \<and> (case key of
         None \<Rightarrow> service_key_of g s v \<notin> fst ` routes st
       | Some n \<Rightarrow> (service_key_of g s v, n) \<in> routes st \<and> node_resource_get_by_key (Some n) st' \<noteq> None)"
proof -
  note r = require_key_keeps [OF assms(1), of g s v]
  have "nodes st' = nodes st"
    using assms(2) by (auto simp: service_resource_require_node_key_def split: option.splits prod.splits)
  then show ?thesis using r assms(2)
    by (auto simp: node_resource_get_by_key_def routes_def split: option.splits)
qed

theorem service_routing_sound_witness:
  "let st = resource_add (\<lambda>name dflt. dflt) ''g'' ''s'' ''1'' ''10.0.0.1'' 80 (node_resource_init sample_world)
   in node_resource_get_by_key (fst (service_resource_require_node_key ''g'' ''s'' ''1'' st)) st \<noteq> None"
proof -
  let ?st = "resource_add (\<lambda>name dflt. dflt) ''g'' ''s'' ''1'' ''10.0.0.1'' 80 (node_resource_init sample_world)"
  let ?r = "service_resource_require_node_key ''g'' ''s'' ''1'' ?st"
  have add: "res_ok ?st" "(service_key_of ''g'' ''s'' ''1'', node_key_of ''10.0.0.1'' 80) \<in> routes ?st"
    using resource_add_keeps [OF res_ok_init [OF sample_world_ok], of "\<lambda>name dflt. dflt" "''g''" "''s''" "''1''"
      "''10.0.0.1''" 80] by auto
  have same: "nodes (snd ?r) = nodes ?st"
    by (auto simp: service_resource_require_node_key_def split: option.splits prod.splits)
  have "?r = (fst ?r, snd ?r)" by simp
  from service_routing_sound [OF add(1) this] add(2) same
  have "node_resource_get_by_key (fst ?r) ?st \<noteq> None"
    by (force simp: node_resource_get_by_key_def split: option.splits)
  then show ?thesis unfolding Let_def .
qed

text \<open>
  The operations on the resources, one after another in any order: registry changes, the steps
  of calls that look up a node, take a connection and return it, the checker's rounds and the
  iterations of the destroying threads.
\<close>

inductive resource_step :: "config \<Rightarrow> resources \<Rightarrow> resources \<Rightarrow> bool" for cfg where
  add: "resource_step cfg st (resource_add cfg g s v h p st)"
| delete: "resource_step cfg st (resource_delete g s v h p st)"
| route: "service_resource_require_node_key g s v st = (key, st') \<Longrightarrow> resource_step cfg st st'"
| require: "node_require_connection key st = Inr (conn, st') \<Longrightarrow> resource_step cfg st st'"
| release: "hash_find (nodes st) k = Some q \<Longrightarrow> a \<in> set (used_conn_list q) \<Longrightarrow>
     node_release_connection (Some k) (Some a) st = Inr st' \<Longrightarrow> resource_step cfg st st'"
| check: "conn_check_thd_func st = Inr st' \<Longrightarrow> resource_step cfg st st'"
| destroy: "pool_destroy_thd_step i st = Inr st' \<Longrightarrow> resource_step cfg st st'"

inductive_cases resource_step_cases: "resource_step cfg st st'"

lemma resource_step_ok:
  "resource_step cfg st st' \<Longrightarrow> res_ok st \<Longrightarrow> res_ok st' \<and> (cfg_idle_ok cfg \<longrightarrow> stays_bounded st st')"
proof (induction rule: resource_step.induct)
  case (route g s v st key st')
  then show ?case using require_key_keeps [of st g s v] by simp
next
  case (require key st conn st')
  then show ?case using require_keeps [of st key] by auto
next
  case (release st k q a st')
  then show ?case using release_keeps [of st k q a] by auto
next
  case (check st st')
  then show ?case using check_nodes_keeps [of st] by (auto simp: conn_check_thd_func_def) (metis sum.inject(2) sum.simps(4))+
next
  case (destroy i st st')
  then show ?case using destroy_step_keeps [of st i] by auto
qed (simp_all add: resource_add_keeps resource_delete_keeps resource_add_bounded resource_delete_bounded)



section \<open>The heartbeat\<close>

text \<open>
  The connection test passes NULL for the response buffer, which \<open>receive_message\<close>
  stores through: whenever its request can be sent it dereferences NULL, and it reports a live
  connection never.
\<close>

theorem heartbeat_faults:
  "test_conn_func_impl ident sockfd ch = Inl NullDeref \<or> test_conn_func_impl ident sockfd ch = Inr None
   \<or> (\<exists>ch'. test_conn_func_impl ident sockfd ch = Inr (Some (0, ch')))"
  by (auto simp: test_conn_func_impl_def receive_message_def split: option.splits)

end
