(* ===== verification/Cjson.thy ===== *)
theory Cjson
  imports Prelude
begin

text \<open>
  The JSON reader and printer of soaagent/cJSON.c (soaregister/cJSON.c is the same code).  A
  position in the text is the rest of the C string from there; the terminating NUL is the
  empty rest, and reading beyond it is the fault \<open>OutOfBounds\<close>.  Double arithmetic is taken to
  be exact: a number is the mantissa and decimal exponent its literal denotes.  Memory
  is never exhausted, and the error pointer \<open>ep\<close>, which the program does not read, is left out.
\<close>

section \<open>Items\<close>

datatype json =
    JNull | JFalse | JTrue
  | JNumber int int
  | JString string
  | JArray "json list"
  | JObject "(string \<times> json) list"

text \<open>A parse function returns the item and the position after it, or NULL, or it has crashed.\<close>

datatype 'a parse = Parsed 'a string | Rejected | Crashed fault | OutOfFuel

fun parse_bind :: "'a parse \<Rightarrow> ('a \<Rightarrow> string \<Rightarrow> 'b parse) \<Rightarrow> 'b parse" where
  "parse_bind (Parsed x rest) f = f x rest"
| "parse_bind Rejected f = Rejected"
| "parse_bind (Crashed e) f = Crashed e"
| "parse_bind OutOfFuel f = OutOfFuel"

text \<open>The character under the pointer; the value 0 is the terminator.\<close>

definition cur :: "string \<Rightarrow> nat" where
  "cur s = (case s of [] \<Rightarrow> 0 | c # _ \<Rightarrow> code c)"

definition skip :: "string \<Rightarrow> string" where
  "skip s = dropWhile (\<lambda>c. code c \<noteq> 0 \<and> code c \<le> 32) s"

section \<open>Numbers\<close>

definition num_sign :: "string \<Rightarrow> int \<times> string" where
  "num_sign num = (if cur num = 45 then (-1, tl num) else (1, num))"

definition num_zero :: "string \<Rightarrow> string" where
  "num_zero num = (if cur num = 48 then tl num else num)"

definition num_digits :: "string \<Rightarrow> string \<times> string" where
  "num_digits num =
     (if 49 \<le> cur num \<and> cur num \<le> 57 then (takeWhile isdigit num, dropWhile isdigit num) else ([], num))"

definition num_fraction :: "string \<Rightarrow> string \<times> string" where
  "num_fraction num =
     (if cur num = 46 \<and> tl num \<noteq> [] \<and> isdigit (hd (tl num))
      then (takeWhile isdigit (tl num), dropWhile isdigit (tl num)) else ([], num))"

definition num_exponent :: "string \<Rightarrow> int \<times> string" where
  "num_exponent num =
     (if cur num = 101 \<or> cur num = 69 then
        (let num = tl num;
             (signsubscale, num) = (if cur num = 43 then (1, tl num)
                                    else if cur num = 45 then (-1, tl num) else (1, num))
         in (signsubscale * digits_val 0 (takeWhile isdigit num), dropWhile isdigit num))
      else (0, num))"

definition parse_number :: "string \<Rightarrow> json \<times> string" where
  "parse_number num =
     (let (sign, num) = num_sign num;
          num = num_zero num;
          (ds, num) = num_digits num;
          (fs, num) = num_fraction num;
          (subscale, num) = num_exponent num
      in (JNumber (sign * digits_val 0 (ds @ fs)) (subscale - int (length fs)), num))"

text \<open>The conversion \<open>(int) n\<close>, towards zero; out of range it is undefined in C.\<close>

definition num_int :: "int \<Rightarrow> int \<Rightarrow> int" where
  "num_int m e = (if 0 \<le> e then m * 10 ^ nat e else sgn m * (\<bar>m\<bar> div 10 ^ nat (- e)))"

definition num_integral :: "int \<Rightarrow> int \<Rightarrow> bool" where
  "num_integral m e \<longleftrightarrow> 0 \<le> e \<or> 10 ^ nat (- e) dvd m"

section \<open>Strings\<close>

definition hex_val :: "char \<Rightarrow> nat option" where
  "hex_val c =
     (if 48 \<le> code c \<and> code c \<le> 57 then Some (code c - 48)
      else if 65 \<le> code c \<and> code c \<le> 70 then Some (10 + code c - 65)
      else if 97 \<le> code c \<and> code c \<le> 102 then Some (10 + code c - 97)
      else None)"

text \<open>The value of four hexadecimal digits, 0 when one of them is something else.\<close>

fun hex_digits :: "nat \<Rightarrow> nat \<Rightarrow> string \<Rightarrow> nat" where
  "hex_digits 0 h s = h"
| "hex_digits (Suc k) h [] = 0"
| "hex_digits (Suc k) h (c # s) =
     (case hex_val c of None \<Rightarrow> 0 | Some d \<Rightarrow> hex_digits k (h * 16 + d) s)"

definition parse_hex4 :: "string \<Rightarrow> nat" where
  "parse_hex4 s = hex_digits 4 0 s"

definition byte_char :: "nat \<Rightarrow> char" where
  "byte_char n = char_of (n mod 256)"

text \<open>The UTF-8 bytes of a code point.\<close>

definition utf8 :: "nat \<Rightarrow> string" where
  "utf8 uc =
     (if uc < 128 then [byte_char uc]
      else if uc < 2048 then [byte_char (192 + uc div 64), byte_char (128 + uc mod 64)]
      else if uc < 65536 then
        [byte_char (224 + uc div 4096), byte_char (128 + uc div 64 mod 64), byte_char (128 + uc mod 64)]
      else [byte_char (240 + uc div 262144), byte_char (128 + uc div 4096 mod 64),
            byte_char (128 + uc div 64 mod 64), byte_char (128 + uc mod 64)])"

text \<open>The first loop of \<open>parse_string\<close>: the length it will allocate for.\<close>

fun scan_len :: "string \<Rightarrow> fault + nat" where
  "scan_len [] = Inr 0"
| "scan_len (c # s) =
     (if code c = 34 then Inr 0
      else if code c = 92 then
        (case s of [] \<Rightarrow> Inl OutOfBounds | _ # s' \<Rightarrow> map_sum id Suc (scan_len s'))
      else map_sum id Suc (scan_len s))"

text \<open>
  The escape after a backslash: the characters it stores and the position after it.  The
  pointer moves over four characters after \<open>\u\<close> without looking at them.
\<close>

definition unicode_escape :: "string \<Rightarrow> fault + string \<times> string" where
  "unicode_escape r =
     (if length r < 4 then Inl OutOfBounds
      else
        (let uc = parse_hex4 r; r = drop 4 r in
         if (56320 \<le> uc \<and> uc \<le> 57343) \<or> uc = 0 then Inr ([], r)
         else if 55296 \<le> uc \<and> uc \<le> 56319 then
           (if \<not> (cur r = 92 \<and> cur (tl r) = 117) then Inr ([], r)
            else
              (let r = drop 2 r; uc2 = parse_hex4 r in
               if length r < 4 then Inl OutOfBounds
               else if uc2 < 56320 \<or> 57343 < uc2 then Inr ([], drop 4 r)
               else Inr (utf8 (65536 + (uc mod 1024 * 1024 + uc2 mod 1024)), drop 4 r)))
         else Inr (utf8 uc, r)))"

definition escape :: "char \<Rightarrow> string \<Rightarrow> fault + string \<times> string" where
  "escape c s =
     (if c = CHR ''b'' then Inr ([char_of (8 :: nat)], s)
      else if c = CHR ''f'' then Inr ([char_of (12 :: nat)], s)
      else if c = CHR ''n'' then Inr ([char_of (10 :: nat)], s)
      else if c = CHR ''r'' then Inr ([char_of (13 :: nat)], s)
      else if c = CHR ''t'' then Inr ([char_of (9 :: nat)], s)
      else if c = CHR ''u'' then unicode_escape s
      else Inr ([c], s))"

lemma unicode_escape_shorter: "unicode_escape s = Inr (out, r) \<Longrightarrow> length r \<le> length s"
  by (auto simp: unicode_escape_def Let_def split: if_splits)

lemma escape_shorter: "escape c s = Inr (out, r) \<Longrightarrow> length r \<le> length s"
  by (auto simp: escape_def unicode_escape_shorter split: if_splits)

text \<open>The second loop: what it stores and where it stops.\<close>

function decode :: "string \<Rightarrow> fault + string \<times> string" where
  "decode [] = Inr ([], [])"
| "decode (c # s) =
     (if code c = 34 then Inr ([], c # s)
      else if code c \<noteq> 92 then map_sum id (map_prod ((#) c) id) (decode s)
      else
        (case s of
           [] \<Rightarrow> Inl OutOfBounds
         | d # s' \<Rightarrow>
             (case escape d s' of
                Inl f \<Rightarrow> Inl f
              | Inr (out, r) \<Rightarrow> map_sum id (map_prod ((@) out) id) (decode r))))"
  by pat_completeness auto
termination
  by (relation "measure length") (auto dest: escape_shorter)

text \<open>
  The whole function at an opening quote.  The characters stored and the NUL after them must
  fit the \<open>len + 1\<close> bytes allocated; a string that ends at the NUL instead of a quote is accepted.
\<close>

definition parse_string :: "string \<Rightarrow> string parse" where
  "parse_string str =
     (if cur str \<noteq> 34 then Rejected
      else
        (case (scan_len (tl str), decode (tl str)) of
           (Inr len, Inr (out, ptr)) \<Rightarrow>
             if len < length out then Crashed OutOfBounds
             else Parsed out (if cur ptr = 34 then tl ptr else ptr)
         | (Inl f, _) \<Rightarrow> Crashed f
         | (_, Inl f) \<Rightarrow> Crashed f))"

section \<open>Values\<close>

text \<open>The values that need no recursion; \<open>None\<close> when the text starts another kind.\<close>

definition parse_scalar :: "string \<Rightarrow> json parse option" where
  "parse_scalar value =
     (if take 4 value = ''null'' then Some (Parsed JNull (drop 4 value))
      else if take 5 value = ''false'' then Some (Parsed JFalse (drop 5 value))
      else if take 4 value = ''true'' then Some (Parsed JTrue (drop 4 value))
      else if cur value = 34 then Some (parse_bind (parse_string value) (\<lambda>s. Parsed (JString s)))
      else if cur value = 45 \<or> (48 \<le> cur value \<and> cur value \<le> 57) then
        (let (n, rest) = parse_number value in Some (Parsed n rest))
      else None)"

fun parse_value :: "nat \<Rightarrow> string \<Rightarrow> json parse"
  and parse_elems :: "nat \<Rightarrow> json list \<Rightarrow> string \<Rightarrow> json parse"
  and parse_members :: "nat \<Rightarrow> (string \<times> json) list \<Rightarrow> string \<Rightarrow> json parse" where
  "parse_value 0 value = OutOfFuel"
| "parse_value (Suc fuel) value =
     (case parse_scalar value of Some result \<Rightarrow> result | None \<Rightarrow>
      if cur value = 91 then
        (let value = skip (tl value) in
         if cur value = 93 then Parsed (JArray []) (tl value)
         else parse_bind (parse_value fuel (skip value)) (\<lambda>j value. parse_elems fuel [j] (skip value)))
      else if cur value = 123 then
        (let value = skip (tl value) in
         if cur value = 125 then Parsed (JObject []) (tl value)
         else parse_bind (parse_string (skip value)) (\<lambda>name value.
                let value = skip value in
                if cur value \<noteq> 58 then Rejected
                else parse_bind (parse_value fuel (skip (tl value))) (\<lambda>j value.
                       parse_members fuel [(name, j)] (skip value))))
      else Rejected)"
| "parse_elems 0 items value = OutOfFuel"
| "parse_elems (Suc fuel) items value =
     (if cur value = 44 then
        parse_bind (parse_value fuel (skip (tl value))) (\<lambda>j value.
          parse_elems fuel (items @ [j]) (skip value))
      else if cur value = 93 then Parsed (JArray items) (tl value)
      else Rejected)"
| "parse_members 0 items value = OutOfFuel"
| "parse_members (Suc fuel) items value =
     (if cur value = 44 then
        parse_bind (parse_string (skip (tl value))) (\<lambda>name value.
          let value = skip value in
          if cur value \<noteq> 58 then Rejected
          else parse_bind (parse_value fuel (skip (tl value))) (\<lambda>j value.
                 parse_members fuel (items @ [(name, j)]) (skip value)))
      else if cur value = 125 then Parsed (JObject items) (tl value)
      else Rejected)"

text \<open>
  Each call and each round of a loop starts at least one character further, so this fuel is
  always enough (\<open>parse_enough\<close> below).
\<close>

definition cJSON_ParseWithOpts :: "string \<Rightarrow> bool \<Rightarrow> json parse" where
  "cJSON_ParseWithOpts value require_null_terminated =
     parse_bind (parse_value (Suc (length value)) (skip value)) (\<lambda>c end.
       if require_null_terminated then
         (let end = skip end in if end \<noteq> [] then Rejected else Parsed c end)
       else Parsed c end)"

definition cJSON_Parse :: "string \<Rightarrow> fault + json option" where
  "cJSON_Parse value =
     (case cJSON_ParseWithOpts value False of
        Parsed c _ \<Rightarrow> Inr (Some c)
      | Rejected \<Rightarrow> Inr None
      | Crashed f \<Rightarrow> Inl f
      | OutOfFuel \<Rightarrow> Inr None)"

section \<open>Access\<close>

fun children :: "json \<Rightarrow> (string option \<times> json) list" where
  "children (JArray js) = map (\<lambda>j. (None, j)) js"
| "children (JObject ms) = map (\<lambda>(k, j). (Some k, j)) ms"
| "children _ = []"

definition cJSON_strcasecmp :: "string option \<Rightarrow> string option \<Rightarrow> bool" where
  "cJSON_strcasecmp s1 s2 =
     (case (s1, s2) of
        (None, None) \<Rightarrow> True
      | (Some a, Some b) \<Rightarrow> map tolower a = map tolower b
      | _ \<Rightarrow> False)"

fun find_child :: "(string option \<times> json) list \<Rightarrow> string \<Rightarrow> json option" where
  "find_child [] name = None"
| "find_child ((s, c) # cs) name =
     (if cJSON_strcasecmp s (Some name) then Some c else find_child cs name)"

text \<open>The argument is a pointer: NULL is dereferenced.\<close>

definition cJSON_GetObjectItem :: "json option \<Rightarrow> string \<Rightarrow> fault + json option" where
  "cJSON_GetObjectItem object name =
     (case object of None \<Rightarrow> Inl NullDeref | Some j \<Rightarrow> Inr (find_child (children j) name))"

definition cJSON_GetArraySize :: "json option \<Rightarrow> fault + nat" where
  "cJSON_GetArraySize array =
     (case array of None \<Rightarrow> Inl NullDeref | Some j \<Rightarrow> Inr (length (children j)))"

definition cJSON_GetArrayItem :: "json option \<Rightarrow> nat \<Rightarrow> fault + json option" where
  "cJSON_GetArrayItem array item =
     (case array of
        None \<Rightarrow> Inl NullDeref
      | Some j \<Rightarrow> Inr (if item < length (children j) then Some (snd (children j ! item)) else None))"

text \<open>The fields \<open>valuestring\<close> (NULL unless a string) and \<open>valueint\<close> of an item.\<close>

definition valuestring :: "json option \<Rightarrow> fault + string option" where
  "valuestring item =
     (case item of None \<Rightarrow> Inl NullDeref | Some (JString s) \<Rightarrow> Inr (Some s) | Some _ \<Rightarrow> Inr None)"

definition valueint :: "json option \<Rightarrow> fault + int" where
  "valueint item =
     (case item of
        None \<Rightarrow> Inl NullDeref
      | Some (JNumber m e) \<Rightarrow> Inr (num_int m e)
      | Some JTrue \<Rightarrow> Inr 1
      | Some _ \<Rightarrow> Inr 0)"

section \<open>The parser returns\<close>

lemma parse_bind_Parsed:
  "parse_bind p f = Parsed x r \<longleftrightarrow> (\<exists>y r'. p = Parsed y r' \<and> f y r' = Parsed x r)"
  by (cases p) auto

lemma parse_bind_OutOfFuel:
  "parse_bind p f = OutOfFuel \<longleftrightarrow> p = OutOfFuel \<or> (\<exists>y r'. p = Parsed y r' \<and> f y r' = OutOfFuel)"
  by (cases p) auto

lemma parse_bind_Crashed:
  "parse_bind p f = Crashed e \<longleftrightarrow> p = Crashed e \<or> (\<exists>y r'. p = Parsed y r' \<and> f y r' = Crashed e)"
  by (cases p) auto

lemmas parse_bind_iff = parse_bind_Parsed parse_bind_OutOfFuel parse_bind_Crashed

lemma length_skip: "length (skip s) \<le> length s"
  by (simp add: skip_def length_dropWhile_le)

lemma decode_shorter: "decode s = Inr (out, r) \<Longrightarrow> length r \<le> length s"
proof (induction s arbitrary: out r rule: decode.induct)
  case (2 c s)
  consider "code c = 34" | "code c \<noteq> 34" "code c \<noteq> 92" | "code c = 92" by blast
  then show ?case
  proof cases
    case 2
    with "2.prems" obtain out' where "decode s = Inr (out', r)"
      by (cases "decode s") auto
    with "2.IH"(1) 2 show ?thesis by fastforce
  next
    case 3
    with "2.prems" obtain d s' out1 r1 where s: "s = d # s'" "escape d s' = Inr (out1, r1)"
      by (auto split: list.splits sum.splits)
    with "2.prems" 3 obtain out2 where "decode r1 = Inr (out2, r)"
      by (cases "decode r1") auto
    with "2.IH"(2) 3 s escape_shorter [OF s(2)] show ?thesis by fastforce
  qed (use "2.prems" in simp)
qed simp

lemma cur_pos: "cur s \<noteq> 0 \<Longrightarrow> s \<noteq> [] \<and> length (tl s) < length s"
  by (cases s) (auto simp: cur_def)

lemma parse_string_shorter: "parse_string s = Parsed out r \<Longrightarrow> length r < length s"
proof -
  assume *: "parse_string s = Parsed out r"
  then obtain ptr where d: "decode (tl s) = Inr (out, ptr)" and r: "r = (if cur ptr = 34 then tl ptr else ptr)"
    and "cur s = 34"
    by (auto simp: parse_string_def split: if_splits sum.splits)
  have "length r \<le> length ptr" using r by simp
  also have "\<dots> \<le> length (tl s)" using decode_shorter [OF d] .
  also have "\<dots> < length s" using cur_pos [of s] \<open>cur s = 34\<close> by simp
  finally show ?thesis .
qed

lemma length_dropWhile_tl: "length (dropWhile P (tl x)) \<le> length x"
  using length_dropWhile_le [of P "tl x"] by simp

lemma num_parts_shorter:
  "length (snd (num_sign s)) \<le> length s" "length (num_zero s) \<le> length s"
  "length (snd (num_digits s)) \<le> length s" "length (snd (num_fraction s)) \<le> length s"
  by (simp_all add: num_sign_def num_zero_def num_digits_def num_fraction_def length_dropWhile_le
      length_dropWhile_tl)

lemma num_exponent_shorter: "length (snd (num_exponent s)) \<le> length s"
proof -
  have "length (dropWhile isdigit (tl (tl s))) \<le> length s"
    using length_dropWhile_tl [of isdigit "tl s"] by simp
  then show ?thesis
    by (simp add: num_exponent_def length_dropWhile_tl Let_def)
qed

lemma num_digits_strict: "49 \<le> cur s \<Longrightarrow> cur s \<le> 57 \<Longrightarrow> length (snd (num_digits s)) < length s"
proof (cases s)
  case (Cons c t)
  assume "49 \<le> cur s" "cur s \<le> 57"
  with Cons have "isdigit c" by (simp add: cur_def isdigit_def)
  with Cons \<open>49 \<le> cur s\<close> \<open>cur s \<le> 57\<close> show ?thesis
    using length_dropWhile_le [of isdigit t] by (simp add: num_digits_def)
qed (simp add: cur_def)

lemma parse_number_shorter:
  assumes "cur s = 45 \<or> (48 \<le> cur s \<and> cur s \<le> 57)" and "parse_number s = (n, r)"
  shows "length r < length s"
proof -
  define a where "a = snd (num_sign s)"
  define b where "b = num_zero a"
  define c where "c = snd (num_digits b)"
  define d where "d = snd (num_fraction c)"
  have r: "r = snd (num_exponent d)"
    using assms(2) by (auto simp: parse_number_def a_def b_def c_def d_def Let_def split: prod.splits)
  have le: "length a \<le> length s" "length b \<le> length a" "length c \<le> length b" "length d \<le> length c"
    "length r \<le> length d"
    unfolding r a_def b_def c_def d_def by (rule num_parts_shorter num_exponent_shorter)+
  consider "cur s = 45" | "cur s = 48" | "49 \<le> cur s" "cur s \<le> 57" using assms(1) by linarith
  then show ?thesis
  proof cases
    case 1
    then have "length a < length s" using cur_pos [of s] by (simp add: a_def num_sign_def)
    with le show ?thesis by linarith
  next
    case 2
    then have "length b < length s" using cur_pos [of s] by (simp add: a_def b_def num_sign_def num_zero_def)
    with le show ?thesis by linarith
  next
    case 3
    then have "b = s" by (simp add: a_def b_def num_sign_def num_zero_def)
    then have "length c < length s" using num_digits_strict [of s] 3 by (simp add: c_def)
    with le show ?thesis by linarith
  qed
qed

lemma take_pos: "take n s = c # w \<Longrightarrow> s \<noteq> []"
  by auto

lemma parse_scalar_shorter: "parse_scalar s = Some (Parsed j r) \<Longrightarrow> length r < length s"
  using parse_string_shorter [of s] parse_number_shorter [of s]
  by (auto simp: parse_scalar_def parse_bind_iff diff_less dest: take_pos split: if_splits prod.splits)

lemma parse_scalar_fuel: "parse_scalar s \<noteq> Some OutOfFuel"
  by (auto simp: parse_scalar_def parse_bind_iff parse_string_def split: if_splits prod.splits sum.splits)

lemma parse_string_fuel [simp]: "parse_string s \<noteq> OutOfFuel"
  by (auto simp: parse_string_def split: sum.splits)

lemma cur_Cons [simp]: "cur (c # s) = code c"
  by (simp add: cur_def)

text \<open>What each parse function needs from its recursive calls, for one unit less of fuel.\<close>

lemma parse_value_brackets:
  "parse_scalar value = None \<Longrightarrow> parse_value (Suc fuel) value = Parsed j r \<Longrightarrow>
     (cur value = 91 \<and> (r = tl (skip (tl value)) \<or>
        (\<exists>j1 r1. parse_value fuel (skip (skip (tl value))) = Parsed j1 r1
           \<and> parse_elems fuel [j1] (skip r1) = Parsed j r)))
     \<or> (cur value = 123 \<and> (r = tl (skip (tl value)) \<or>
        (\<exists>name r1 j2 r2. parse_string (skip (skip (tl value))) = Parsed name r1 \<and> cur (skip r1) = 58
           \<and> parse_value fuel (skip (tl (skip r1))) = Parsed j2 r2
           \<and> parse_members fuel [(name, j2)] (skip r2) = Parsed j r)))"
  by (auto simp: parse_bind_iff Let_def split: if_splits)

lemma parse_elems_cases:
  "parse_elems (Suc fuel) items value = Parsed j r \<Longrightarrow>
     (cur value = 93 \<and> r = tl value) \<or>
     (cur value = 44 \<and> (\<exists>j1 r1. parse_value fuel (skip (tl value)) = Parsed j1 r1
        \<and> parse_elems fuel (items @ [j1]) (skip r1) = Parsed j r))"
  by (auto simp: parse_bind_iff split: if_splits)

lemma parse_members_cases:
  "parse_members (Suc fuel) items value = Parsed j r \<Longrightarrow>
     (cur value = 125 \<and> r = tl value) \<or>
     (cur value = 44 \<and> (\<exists>name r1 j2 r2. parse_string (skip (tl value)) = Parsed name r1 \<and> cur (skip r1) = 58
        \<and> parse_value fuel (skip (tl (skip r1))) = Parsed j2 r2
        \<and> parse_members fuel (items @ [(name, j2)]) (skip r2) = Parsed j r))"
  by (auto simp: parse_bind_iff Let_def split: if_splits)

lemma length_skip_tl: "cur s \<noteq> 0 \<Longrightarrow> length (skip (tl s)) < length s"
  using length_skip [of "tl s"] cur_pos [of s] by simp

lemma length_skip2: "length (skip (skip s)) \<le> length (skip s)"
  by (rule length_skip)

lemma parse_shorter:
  "(\<forall>s j r. parse_value fuel s = Parsed j r \<longrightarrow> length r < length s)
   \<and> (\<forall>items s j r. parse_elems fuel items s = Parsed j r \<longrightarrow> length r < length s)
   \<and> (\<forall>items s j r. parse_members fuel items s = Parsed j r \<longrightarrow> length r < length s)"
proof (induction fuel)
  case (Suc fuel)
  have IH: "parse_value fuel s = Parsed j r \<Longrightarrow> length r < length s"
    "parse_elems fuel items s = Parsed j r \<Longrightarrow> length r < length s"
    "parse_members fuel ms s = Parsed j r \<Longrightarrow> length r < length s" for s j r items ms
    using Suc by blast+
  have pair: "length r < length s"
    if "length (skip s') < length s" "parse_string (skip s') = Parsed name r1" "cur (skip r1) = 58"
      "parse_value fuel (skip (tl (skip r1))) = Parsed j2 r2"
      "parse_members fuel ms (skip r2) = Parsed j r" for s s' name r1 j2 r2 ms j r
    using that parse_string_shorter [OF that(2)] length_skip [of r1] length_skip_tl [of "skip r1"]
      IH(1) [OF that(4)] length_skip [of r2] IH(3) [OF that(5)] by linarith
  have elem: "length r < length s"
    if "length (skip s') < length s" "parse_value fuel (skip s') = Parsed j1 r1"
      "parse_elems fuel items (skip r1) = Parsed j r" for s s' j1 r1 items j r
    using that IH(1) [OF that(2)] length_skip [of r1] IH(2) [OF that(3)] by linarith
  have "length r < length s" if "parse_value (Suc fuel) s = Parsed j r" for s j r
  proof (cases "parse_scalar s")
    case (Some p)
    then show ?thesis using that parse_scalar_shorter by simp
  next
    case None
    have tl: "length (tl (skip (tl s))) < length s" "length (skip (skip (tl s))) < length s"
      if "cur s \<noteq> 0"
      using length_skip_tl [OF that] length_skip2 [of "tl s"] by simp_all
    have "cur s \<noteq> 0" using parse_value_brackets [OF None that] by linarith
    from parse_value_brackets [OF None that] show ?thesis
    proof (elim disjE conjE exE)
      fix j1 r1
      assume "parse_value fuel (skip (skip (tl s))) = Parsed j1 r1" "parse_elems fuel [j1] (skip r1) = Parsed j r"
      then show ?thesis using elem [of "skip (tl s)" s] tl \<open>cur s \<noteq> 0\<close> by blast
    next
      fix name r1 j2 r2
      assume "parse_string (skip (skip (tl s))) = Parsed name r1" "cur (skip r1) = 58"
        "parse_value fuel (skip (tl (skip r1))) = Parsed j2 r2"
        "parse_members fuel [(name, j2)] (skip r2) = Parsed j r"
      then show ?thesis using pair [of "skip (tl s)" s] tl \<open>cur s \<noteq> 0\<close> by blast
    qed (use tl \<open>cur s \<noteq> 0\<close> in simp_all)
  qed
  moreover have "length r < length s" if "parse_elems (Suc fuel) items s = Parsed j r" for items s j r
  proof -
    have "cur s \<noteq> 0" using parse_elems_cases [OF that] by linarith
    then have "length (skip (tl s)) < length s" "length (tl s) < length s"
      using length_skip_tl cur_pos by blast+
    with parse_elems_cases [OF that] elem [of "tl s" s] show ?thesis by blast
  qed
  moreover have "length r < length s" if "parse_members (Suc fuel) items s = Parsed j r" for items s j r
  proof -
    have "cur s \<noteq> 0" using parse_members_cases [OF that] by linarith
    then have "length (skip (tl s)) < length s" "length (tl s) < length s"
      using length_skip_tl cur_pos by blast+
    with parse_members_cases [OF that] pair [of "tl s" s] show ?thesis by blast
  qed
  ultimately show ?case by blast
qed simp

lemma parse_value_shorter: "parse_value fuel s = Parsed j r \<Longrightarrow> length r < length s"
  using parse_shorter by blast

lemma parse_enough:
  "(\<forall>s. length s < fuel \<longrightarrow> parse_value fuel s \<noteq> OutOfFuel)
   \<and> (\<forall>items s. length s < fuel \<longrightarrow> parse_elems fuel items s \<noteq> OutOfFuel)
   \<and> (\<forall>items s. length s < fuel \<longrightarrow> parse_members fuel items s \<noteq> OutOfFuel)"
proof (induction fuel)
  case (Suc fuel)
  have IH: "length s < fuel \<Longrightarrow> parse_value fuel s \<noteq> OutOfFuel"
    "length s < fuel \<Longrightarrow> parse_elems fuel items s \<noteq> OutOfFuel"
    "length s < fuel \<Longrightarrow> parse_members fuel ms s \<noteq> OutOfFuel" for s items ms
    using Suc by blast+
  have elem: "parse_bind (parse_value fuel (skip s)) (\<lambda>j value. parse_elems fuel (f j) (skip value)) \<noteq> OutOfFuel"
    if "length (skip s) < fuel" for s f
  proof -
    have "length (skip r1) < fuel" if "parse_value fuel (skip s) = Parsed j1 r1" for j1 r1
      using parse_value_shorter [OF that] length_skip [of r1] \<open>length (skip s) < fuel\<close> by linarith
    then show ?thesis using IH(1) [OF that] IH(2) by (auto simp: parse_bind_iff)
  qed
  have pair: "parse_bind (parse_string (skip s)) (\<lambda>name value. let value = skip value in
      if cur value \<noteq> 58 then Rejected
      else parse_bind (parse_value fuel (skip (tl value))) (\<lambda>j value. parse_members fuel (f name j) (skip value)))
      \<noteq> OutOfFuel"
    if "length (skip s) < fuel" for s f
  proof -
    have r: "length (skip (tl (skip r1))) < fuel"
      if "parse_string (skip s) = Parsed name r1" "cur (skip r1) = 58" for name r1
      using parse_string_shorter [OF that(1)] length_skip [of r1] length_skip_tl [of "skip r1"] that(2)
        \<open>length (skip s) < fuel\<close> by linarith
    moreover have "length (skip r2) < fuel"
      if "parse_string (skip s) = Parsed name r1" "cur (skip r1) = 58"
        "parse_value fuel (skip (tl (skip r1))) = Parsed j r2" for name r1 j r2
      using r [OF that(1,2)] parse_value_shorter [OF that(3)] length_skip [of r2] by linarith
    ultimately show ?thesis using IH(1,3) by (auto simp: parse_bind_iff Let_def)
  qed
  have tail: "length (skip (tl s)) < fuel" if "cur s \<noteq> 0" "length s < Suc fuel" for s
    using length_skip_tl [OF that(1)] that(2) by simp
  have "parse_value (Suc fuel) s \<noteq> OutOfFuel" if len: "length s < Suc fuel" for s
  proof (cases "parse_scalar s")
    case (Some p)
    then show ?thesis using parse_scalar_fuel [of s] by simp
  next
    case None
    have "length (skip (skip (tl s))) < fuel" if "cur s \<noteq> 0"
      using tail [OF that len] length_skip2 [of "tl s"] by simp
    then show ?thesis
      using None elem [of "skip (tl s)" "\<lambda>j. [j]"] pair [of "skip (tl s)" "\<lambda>name j. [(name, j)]"]
      by (simp add: Let_def)
  qed
  moreover have "parse_elems (Suc fuel) items s \<noteq> OutOfFuel" if "length s < Suc fuel" for items s
    using elem [of "tl s" "\<lambda>j. items @ [j]"] tail [of s] that by simp
  moreover have "parse_members (Suc fuel) items s \<noteq> OutOfFuel" if "length s < Suc fuel" for items s
    using pair [of "tl s" "\<lambda>name j. items @ [(name, j)]"] tail [of s] that by (simp add: Let_def)
  ultimately show ?case by blast
qed simp

section \<open>How the parser ends\<close>

text \<open>
  The end of a parse function: it parses something or returns NULL, or it has crashed, out of bounds;
  without a backslash in the text (\<open>b\<close>) it does not crash, and there is none in what is left.
\<close>

definition plain :: "string \<Rightarrow> bool" where
  "plain s \<longleftrightarrow> CHR 0x5C \<notin> set s"

definition ends :: "bool \<Rightarrow> 'a parse \<Rightarrow> bool" where
  "ends b p = (case p of Parsed x r \<Rightarrow> b \<longrightarrow> plain r | Crashed f \<Rightarrow> f = OutOfBounds \<and> \<not> b | _ \<Rightarrow> True)"

lemma ends_simps [simp]:
  "ends b (Parsed x r) \<longleftrightarrow> (b \<longrightarrow> plain r)" "ends b Rejected" "ends b OutOfFuel"
  "ends b (Crashed f) \<longleftrightarrow> f = OutOfBounds \<and> \<not> b"
  by (simp_all add: ends_def)

lemma ends_bind: "ends b p \<Longrightarrow> (\<And>x r. (b \<longrightarrow> plain r) \<Longrightarrow> ends b (f x r)) \<Longrightarrow> ends b (parse_bind p f)"
  by (cases p) auto

lemma plain_sub: "set r \<subseteq> set s \<Longrightarrow> plain s \<Longrightarrow> plain r"
  by (auto simp: plain_def)

lemma plain_number:
  assumes "parse_number s = (n, r)" and "plain s"
  shows "plain r"
proof -
  define a where "a = snd (num_sign s)"
  define b where "b = num_zero a"
  define c where "c = snd (num_digits b)"
  define d where "d = snd (num_fraction c)"
  have r: "r = snd (num_exponent d)"
    using assms(1) by (auto simp: parse_number_def a_def b_def c_def d_def Let_def split: prod.splits)
  have tl: "set (tl t) \<subseteq> set t" for t :: string by (cases t) auto
  have drop: "set (dropWhile isdigit t) \<subseteq> set t" for t by (auto dest: set_dropWhileD)
  have "set a \<subseteq> set s" using tl by (simp add: a_def num_sign_def)
  moreover have "set b \<subseteq> set a" using tl by (simp add: b_def num_zero_def)
  moreover have "set c \<subseteq> set b" using drop by (simp add: c_def num_digits_def)
  moreover have "set d \<subseteq> set c" using drop [of "tl c"] tl [of c] by (auto simp: d_def num_fraction_def)
  moreover have "set r \<subseteq> set d"
    using drop [of "tl d"] drop [of "tl (tl d)"] tl [of d] tl [of "tl d"] by (auto simp: r num_exponent_def Let_def)
  ultimately show ?thesis using assms(2) plain_sub by (metis order_trans)
qed

lemma plain_tl: "plain s \<Longrightarrow> plain (tl s)"
  and plain_drop: "plain s \<Longrightarrow> plain (drop n s)"
  and plain_skip: "plain s \<Longrightarrow> plain (skip s)"
  by (auto simp: plain_def skip_def dest: list.set_sel(2) [rotated] in_set_dropD set_dropWhileD)
     (metis list.sel(2) list.set_sel(2))

lemma plain_code: "plain (c # s) \<Longrightarrow> code c \<noteq> 92"
proof
  assume "plain (c # s)" "code c = 92"
  moreover have "char_of (92 :: nat) = CHR 0x5C" by code_simp
  ultimately have "c = CHR 0x5C" by (metis char_of_char)
  then show False using \<open>plain (c # s)\<close> by (simp add: plain_def)
qed

lemma scan_len_no_escape: "plain s \<Longrightarrow> scan_len s = Inr (length (takeWhile (\<lambda>c. code c \<noteq> 34) s))"
  using plain_code by (induction s) (auto simp: plain_def)

lemma decode_no_escape:
  "plain s \<Longrightarrow> decode s = Inr (takeWhile (\<lambda>c. code c \<noteq> 34) s, dropWhile (\<lambda>c. code c \<noteq> 34) s)"
  using plain_code by (induction s) (auto simp: plain_def)

lemma map_sum_Inl: "map_sum id g r = Inl f \<longleftrightarrow> r = Inl f"
  by (cases r) simp_all

lemma scan_len_fault: "scan_len s = Inl f \<Longrightarrow> f = OutOfBounds"
proof (induction s rule: scan_len.induct)
  case (2 c s)
  then show ?case by (cases s) (auto simp: map_sum_Inl split: if_splits)
qed simp

lemma decode_fault: "decode s = Inl f \<Longrightarrow> f = OutOfBounds"
proof (induction s rule: decode.induct)
  case (2 c s)
  have esc: "escape d r = Inl f \<Longrightarrow> f = OutOfBounds" for d r
    by (auto simp: escape_def unicode_escape_def Let_def split: if_splits)
  show ?case
  proof (cases s)
    case Nil
    with 2 show ?thesis by (auto simp: map_sum_Inl split: if_splits)
  next
    case (Cons d r)
    with 2 esc show ?thesis
      by (cases "escape d r") (auto simp: map_sum_Inl split: if_splits)
  qed
qed simp

lemma ends_string: "(b \<longrightarrow> plain s) \<Longrightarrow> ends b (parse_string s)"
proof (cases b)
  case True
  assume "b \<longrightarrow> plain s"
  with True have p: "plain (tl s)" using plain_tl by blast
  have "plain (dropWhile (\<lambda>c. code c \<noteq> 34) (tl s))" using p by (rule plain_sub [rotated]) (auto dest: set_dropWhileD)
  then show ?thesis
    using True scan_len_no_escape [OF p] decode_no_escape [OF p] by (auto simp: parse_string_def plain_tl)
next
  case False
  then show ?thesis using scan_len_fault decode_fault
    by (auto simp: parse_string_def split: sum.split prod.split)
qed

lemma ends_scalar: "parse_scalar s = Some p \<Longrightarrow> (b \<longrightarrow> plain s) \<Longrightarrow> ends b p"
  using ends_string [of b s] plain_drop [of s] plain_number [of s]
  by (auto simp: parse_scalar_def split: if_splits prod.splits intro!: ends_bind)

lemma parse_ends:
  "(\<forall>s. (b \<longrightarrow> plain s) \<longrightarrow> ends b (parse_value fuel s))
   \<and> (\<forall>items s. (b \<longrightarrow> plain s) \<longrightarrow> ends b (parse_elems fuel items s))
   \<and> (\<forall>items s. (b \<longrightarrow> plain s) \<longrightarrow> ends b (parse_members fuel items s))"
proof (induction fuel)
  case (Suc fuel)
  have IH: "(b \<longrightarrow> plain s) \<Longrightarrow> ends b (parse_value fuel s)" "(b \<longrightarrow> plain s) \<Longrightarrow> ends b (parse_elems fuel items s)"
    "(b \<longrightarrow> plain s) \<Longrightarrow> ends b (parse_members fuel ms s)" for s items ms
    using Suc by blast+
  note keep = plain_skip plain_tl ends_string IH
  have elem: "ends b (parse_bind (parse_value fuel (skip s)) (\<lambda>j value. parse_elems fuel (f j) (skip value)))"
    if "b \<longrightarrow> plain s" for s f
    by (rule ends_bind) (use that in \<open>auto intro: keep\<close>)
  have pair: "ends b (parse_bind (parse_string (skip s)) (\<lambda>name value. let value = skip value in
      if cur value \<noteq> 58 then Rejected
      else parse_bind (parse_value fuel (skip (tl value))) (\<lambda>j value. parse_members fuel (f name j) (skip value))))"
    if "b \<longrightarrow> plain s" for s f
    by (rule ends_bind) (use that in \<open>auto simp: Let_def intro!: ends_bind intro: keep\<close>)
  have value_: "ends b (parse_value (Suc fuel) s)" if "b \<longrightarrow> plain s" for s
  proof (cases "parse_scalar s")
    case (Some p)
    with ends_scalar [OF Some that] show ?thesis by simp
  next
    case None
    have "b \<longrightarrow> plain (skip (tl s))" using that keep by blast
    with None elem [OF this, of "\<lambda>j. [j]"] pair [OF this, of "\<lambda>name j. [(name, j)]"] show ?thesis
      by (simp add: Let_def plain_tl)
  qed
  have elems: "ends b (parse_elems (Suc fuel) items s)" if "b \<longrightarrow> plain s" for items s
    using elem [of "tl s" "\<lambda>j. items @ [j]"] that by (simp add: plain_tl)
  have members: "ends b (parse_members (Suc fuel) items s)" if "b \<longrightarrow> plain s" for items s
    using pair [of "tl s" "\<lambda>name j. items @ [(name, j)]"] that by (simp add: Let_def plain_tl)
  show ?case using value_ elems members by blast
qed simp

text \<open>
  C38: the parser comes to an end on every text: the fuel of the model, one more than the length of
  the text, is never used up.  It ends in one of three ways: with an item, with NULL, or by an
  access out of bounds, and the last only on a text that holds a backslash.
\<close>

theorem parse_terminates:
  "cJSON_ParseWithOpts str require \<noteq> OutOfFuel
   \<and> (case cJSON_ParseWithOpts str require of
        Crashed f \<Rightarrow> f = OutOfBounds \<and> CHR 0x5C \<in> set str | _ \<Rightarrow> True)
   \<and> (cJSON_Parse str = Inl OutOfBounds \<and> CHR 0x5C \<in> set str \<or> (\<exists>result. cJSON_Parse str = Inr result))"
proof -
  have "length (skip str) < Suc (length str)" using length_skip [of str] by simp
  then have fuel: "parse_value (Suc (length str)) (skip str) \<noteq> OutOfFuel" using parse_enough by blast
  have "plain str \<longrightarrow> plain (skip str)" using plain_skip by blast
  then have "ends (plain str) (parse_value (Suc (length str)) (skip str))" using parse_ends by blast
  then have ends: "ends (plain str) (cJSON_ParseWithOpts str req)" for req
    unfolding cJSON_ParseWithOpts_def by (rule ends_bind) (auto simp: Let_def plain_def)
  have "cJSON_ParseWithOpts str require \<noteq> OutOfFuel"
    using fuel by (auto simp: cJSON_ParseWithOpts_def parse_bind_iff Let_def split: if_splits)
  then show ?thesis
    using ends [of require] ends [of False] by (auto simp: cJSON_Parse_def plain_def split: parse.splits)
qed

section \<open>Printing\<close>

text \<open>
  \<open>fmt_double\<close> is the conversion \<open>%.0f\<close>, \<open>%e\<close> or \<open>%f\<close> that prints a number which is not
  an \<open>int\<close>.
\<close>

definition near_int :: "int \<Rightarrow> int \<Rightarrow> bool" where
  "near_int m e \<longleftrightarrow> 0 \<le> e \<or> (\<bar>m\<bar> mod 10 ^ nat (- e)) * 2 ^ 52 \<le> 10 ^ nat (- e)"

definition print_number :: "(int \<Rightarrow> int \<Rightarrow> string) \<Rightarrow> int \<Rightarrow> int \<Rightarrow> string" where
  "print_number fmt_double m e =
     (if near_int m e \<and> - (2 ^ 31) \<le> num_int m e \<and> num_int m e < 2 ^ 31 then show_int (num_int m e)
      else fmt_double m e)"

definition hex_char :: "nat \<Rightarrow> char" where
  "hex_char d = (if d < 10 then char_of (48 + d) else char_of (87 + d))"

definition print_char :: "char \<Rightarrow> string" where
  "print_char c =
     (if 31 < code c \<and> code c \<noteq> 34 \<and> code c \<noteq> 92 then [c]
      else char_of (92 :: nat) #
        (if code c = 92 \<or> code c = 34 then [c]
         else if code c = 8 then ''b'' else if code c = 12 then ''f'' else if code c = 10 then ''n''
         else if code c = 13 then ''r'' else if code c = 9 then ''t''
         else ''u00'' @ [hex_char (code c div 16), hex_char (code c mod 16)]))"

definition print_string_ptr :: "string option \<Rightarrow> string" where
  "print_string_ptr str =
     (case str of
        None \<Rightarrow> []
      | Some s \<Rightarrow> char_of (34 :: nat) # concat (map print_char s) @ [char_of (34 :: nat)])"

text \<open>The loops that compose an array and an object: a separator after every entry but the last.\<close>

fun join_entries :: "string \<Rightarrow> string list \<Rightarrow> string" where
  "join_entries sep [] = []"
| "join_entries sep [x] = x"
| "join_entries sep (x # y # xs) = x @ sep @ join_entries sep (y # xs)"

definition print_array :: "bool \<Rightarrow> string list \<Rightarrow> string" where
  "print_array fmt entries =
     (if entries = [] then ''[]''
      else ''['' @ join_entries ('','' @ (if fmt then '' '' else [])) entries @ '']'')"

definition nl :: string where "nl = [char_of (10 :: nat)]"
definition tabs :: "nat \<Rightarrow> string" where "tabs n = replicate n (char_of (9 :: nat))"

definition print_member :: "bool \<Rightarrow> nat \<Rightarrow> string \<times> string \<Rightarrow> string" where
  "print_member fmt depth = (\<lambda>(name, entry).
     (if fmt then tabs depth else []) @ print_string_ptr (Some name) @ '':'' @ (if fmt then tabs 1 else []) @ entry)"

definition print_object :: "bool \<Rightarrow> nat \<Rightarrow> (string \<times> string) list \<Rightarrow> string" where
  "print_object fmt depth entries =
     (if entries = [] then ''{'' @ (if fmt then nl @ tabs (depth - 1) else []) @ ''}''
      else ''{'' @ (if fmt then nl else [])
           @ join_entries ('','' @ (if fmt then nl else [])) (map (print_member fmt (Suc depth)) entries)
           @ (if fmt then nl else []) @ (if fmt then tabs depth else []) @ ''}'')"

fun print_value :: "(int \<Rightarrow> int \<Rightarrow> string) \<Rightarrow> nat \<Rightarrow> bool \<Rightarrow> json \<Rightarrow> string" where
  "print_value fd depth fmt JNull = ''null''"
| "print_value fd depth fmt JFalse = ''false''"
| "print_value fd depth fmt JTrue = ''true''"
| "print_value fd depth fmt (JNumber m e) = print_number fd m e"
| "print_value fd depth fmt (JString s) = print_string_ptr (Some s)"
| "print_value fd depth fmt (JArray js) = print_array fmt (map (print_value fd (Suc depth) fmt) js)"
| "print_value fd depth fmt (JObject ms) =
     print_object fmt depth (map (\<lambda>(name, j). (name, print_value fd (Suc depth) fmt j)) ms)"

definition cJSON_Print :: "(int \<Rightarrow> int \<Rightarrow> string) \<Rightarrow> json \<Rightarrow> string" where
  "cJSON_Print fd item = print_value fd 0 True item"

definition cJSON_PrintUnformatted :: "(int \<Rightarrow> int \<Rightarrow> string) \<Rightarrow> json \<Rightarrow> string" where
  "cJSON_PrintUnformatted fd item = print_value fd 0 False item"

section \<open>Strings are read back\<close>

definition no_nul :: "string \<Rightarrow> bool" where
  "no_nul s \<longleftrightarrow> list_all (\<lambda>c. code c \<noteq> 0) s"

lemma hex_val_hex_char: "d < 16 \<Longrightarrow> hex_val (hex_char d) = Some d"
  by (auto simp: hex_val_def hex_char_def)

lemma decode_plain:
  "code c \<noteq> 34 \<Longrightarrow> code c \<noteq> 92 \<Longrightarrow> decode s = Inr (out, r) \<Longrightarrow> decode (c # s) = Inr (c # out, r)"
  by simp

lemma decode_escape:
  "escape d s = Inr (out1, s') \<Longrightarrow> decode s' = Inr (out, r) \<Longrightarrow>
     decode (char_of (92 :: nat) # d # s) = Inr (out1 @ out, r)"
  by simp

lemma hex_val_0: "hex_val CHR ''0'' = Some 0"
  by (simp add: hex_val_def)

lemma parse_hex4_control:
  "code c \<le> 31 \<Longrightarrow> parse_hex4 (CHR ''0'' # CHR ''0'' # hex_char (code c div 16) # hex_char (code c mod 16) # s) = code c"
proof -
  have four: "(4 :: nat) = Suc (Suc (Suc (Suc 0)))" by simp
  assume "code c \<le> 31"
  then show "parse_hex4 (CHR ''0'' # CHR ''0'' # hex_char (code c div 16) # hex_char (code c mod 16) # s) = code c"
    unfolding parse_hex4_def four hex_digits.simps hex_val_0 by (simp add: hex_val_hex_char)
qed

lemma escape_control:
  assumes "code c \<le> 31" and "code c \<noteq> 0"
  shows "escape CHR ''u'' (CHR ''0'' # CHR ''0'' # hex_char (code c div 16) # hex_char (code c mod 16) # s) = Inr ([c], s)"
  using assms parse_hex4_control [OF assms(1), of s]
  by (simp add: escape_def unicode_escape_def utf8_def byte_char_def Let_def)

lemma escape_simple:
  assumes "\<not> (31 < code c \<and> code c \<noteq> 34 \<and> code c \<noteq> 92)" and "code c \<noteq> 0"
  obtains d ds where "print_char c = char_of (92 :: nat) # d # ds" and "escape d (ds @ s) = Inr ([c], s)"
    and "\<forall>x \<in> set ds. code x \<noteq> 34 \<and> code x \<noteq> 92"
proof -
  have c: "c = char_of n" if "code c = n" for n using that by (metis char_of_char)
  consider "code c = 92 \<or> code c = 34" | "code c = 8" | "code c = 12" | "code c = 10" | "code c = 13" | "code c = 9"
    | "code c \<le> 31" "code c \<noteq> 8" "code c \<noteq> 12" "code c \<noteq> 10" "code c \<noteq> 13" "code c \<noteq> 9"
    using assms(1) by linarith
  then show ?thesis
  proof cases
    case 1
    then have "escape c s = Inr ([c], s)" by (auto simp: escape_def)
    with 1 show ?thesis by (intro that [of c "[]"]) (auto simp: print_char_def)
  next
    case 7
    let ?ds = "[CHR ''0'', CHR ''0'', hex_char (code c div 16), hex_char (code c mod 16)]"
    have hx: "code (hex_char d) \<noteq> 34 \<and> code (hex_char d) \<noteq> 92" if "d < 16" for d
      using that by (simp add: hex_char_def)
    show ?thesis
      using 7 assms escape_control [of c s] hx [of "code c div 16"] hx [of "code c mod 16"]
      by (intro that [of "CHR ''u''" ?ds]) (simp_all add: print_char_def)
  qed (use c assms that [of _ "[]"] in \<open>auto simp: print_char_def escape_def\<close>)
qed

lemma decode_printed:
  "no_nul s \<Longrightarrow> code q = 34 \<Longrightarrow> decode (concat (map print_char s) @ q # rest) = Inr (s, q # rest)"
proof (induction s)
  case (Cons c s)
  then have IH: "decode (concat (map print_char s) @ q # rest) = Inr (s, q # rest)" and nz: "code c \<noteq> 0"
    by (simp_all add: no_nul_def)
  show ?case
  proof (cases "31 < code c \<and> code c \<noteq> 34 \<and> code c \<noteq> 92")
    case True
    then have "print_char c = [c]" by (simp add: print_char_def)
    with True decode_plain [of c] IH show ?thesis by simp
  next
    case False
    obtain d ds where "print_char c = char_of (92 :: nat) # d # ds"
      "escape d (ds @ concat (map print_char s) @ q # rest) = Inr ([c], concat (map print_char s) @ q # rest)"
      using escape_simple [OF False nz] by metis
    with decode_escape [OF this(2) IH] show ?thesis by simp
  qed
qed simp

lemma scan_len_plain: "\<forall>x \<in> set ds. code x \<noteq> 34 \<and> code x \<noteq> 92 \<Longrightarrow> scan_len s = Inr n \<Longrightarrow>
    scan_len (ds @ s) = Inr (length ds + n)"
  by (induction ds) auto

lemma scan_len_printed:
  "no_nul s \<Longrightarrow> code q = 34 \<Longrightarrow> \<exists>n. scan_len (concat (map print_char s) @ q # rest) = Inr n \<and> length s \<le> n"
proof (induction s)
  case (Cons c s)
  then obtain n where n: "scan_len (concat (map print_char s) @ q # rest) = Inr n" "length s \<le> n"
    and nz: "code c \<noteq> 0" by (auto simp: no_nul_def)
  show ?case
  proof (cases "31 < code c \<and> code c \<noteq> 34 \<and> code c \<noteq> 92")
    case True
    then have "print_char c = [c]" by (simp add: print_char_def)
    with True n show ?thesis by simp
  next
    case False
    obtain d ds where p: "print_char c = char_of (92 :: nat) # d # ds"
      "\<forall>x \<in> set ds. code x \<noteq> 34 \<and> code x \<noteq> 92"
      using escape_simple [OF False nz] by metis
    have "scan_len (ds @ concat (map print_char s) @ q # rest) = Inr (length ds + n)"
      by (rule scan_len_plain [OF p(2) n(1)])
    with p n(2) show ?thesis by simp
  qed
qed simp

lemma parse_printed_string:
  assumes "no_nul s"
  shows "parse_string (print_string_ptr (Some s) @ rest) = Parsed s rest"
proof -
  let ?q = "char_of (34 :: nat)"
  obtain n where "scan_len (concat (map print_char s) @ ?q # rest) = Inr n" "length s \<le> n"
    using scan_len_printed [OF assms, of ?q rest] by auto
  moreover have "decode (concat (map print_char s) @ ?q # rest) = Inr (s, ?q # rest)"
    using decode_printed [OF assms, of ?q rest] by simp
  ultimately show ?thesis by (simp add: parse_string_def print_string_ptr_def cur_def)
qed

section \<open>Numbers are read back\<close>

definition ends_number :: "string \<Rightarrow> bool" where
  "ends_number rest \<longleftrightarrow> rest = [] \<or> (\<not> isdigit (hd rest) \<and> cur rest \<noteq> 46 \<and> cur rest \<noteq> 101 \<and> cur rest \<noteq> 69)"

lemma digits_end:
  "ends_number rest \<Longrightarrow> \<forall>c \<in> set ds. isdigit c \<Longrightarrow>
     takeWhile isdigit (ds @ rest) = ds \<and> dropWhile isdigit (ds @ rest) = rest"
  by (induction ds) (cases rest, auto simp: ends_number_def)

lemma dec_nat_hd: "0 < n \<Longrightarrow> code (hd (dec_nat n)) \<noteq> 48"
proof (induction n rule: dec_nat.induct)
  case (1 n)
  show ?case
  proof (cases "n < 10")
    case True
    with "1.prems" show ?thesis by (simp add: dec_nat.simps [of n] code_digit_char)
  next
    case False
    then have "code (hd (dec_nat (n div 10))) \<noteq> 48" using "1.IH" by simp
    with False show ?thesis by (simp add: dec_nat.simps [of n] hd_append)
  qed
qed

lemma number_tail:
  assumes "ends_number rest"
  shows "num_fraction rest = ([], rest)" and "num_exponent rest = (0, rest)"
    and "\<not> (49 \<le> cur rest \<and> cur rest \<le> 57)"
  using assms by (auto simp: ends_number_def num_fraction_def num_exponent_def cur_def isdigit_def split: list.splits)

lemma number_body:
  assumes "ends_number rest"
  shows "num_digits (num_zero (dec_nat n @ rest)) = (if n = 0 then [] else dec_nat n, rest)"
proof (cases "n = 0")
  case True
  moreover have "digit_char 0 = CHR ''0''" by code_simp
  ultimately have "dec_nat n = [CHR ''0'']" by (simp add: dec_nat.simps [of 0])
  then have "num_zero (dec_nat n @ rest) = rest" by (simp add: num_zero_def)
  moreover have "num_digits rest = ([], rest)"
    using number_tail(3) [OF assms] by (auto simp: num_digits_def)
  ultimately show ?thesis using True by simp
next
  case False
  obtain c cs where d: "dec_nat n = c # cs" by (cases "dec_nat n") auto
  with dec_nat_digits [of c n] dec_nat_hd [of n] False have c: "49 \<le> code c" "code c \<le> 57"
    by (simp_all add: isdigit_def)
  have "\<forall>x \<in> set (c # cs). isdigit x" using dec_nat_digits [of _ n] d by auto
  from digits_end [OF assms this] c d False show ?thesis
    by (simp add: num_zero_def num_digits_def cur_def)
qed

lemma parse_printed_int:
  assumes "ends_number rest"
  shows "parse_number (show_int m @ rest) = (JNumber m 0, rest)"
proof (cases "m < 0")
  case True
  then have "parse_number (show_int m @ rest) = (JNumber (- digits_val 0 (dec_nat (nat (- m)))) 0, rest)"
    using number_body [OF assms, of "nat (- m)"] number_tail [OF assms]
    by (simp add: parse_number_def show_int_def num_sign_def cur_def Let_def)
  with True show ?thesis by (simp add: digits_val_dec_nat)
next
  case False
  obtain c cs where d: "dec_nat (nat m) = c # cs" by (cases "dec_nat (nat m)") auto
  then have "code c \<noteq> 45" using dec_nat_digits [of c "nat m"] by (auto simp: isdigit_def)
  with False d have "num_sign (show_int m @ rest) = (1, dec_nat (nat m) @ rest)"
    by (simp add: num_sign_def show_int_def cur_def)
  then have "parse_number (show_int m @ rest) = (JNumber (digits_val 0 (if nat m = 0 then [] else dec_nat (nat m))) 0, rest)"
    using number_body [OF assms, of "nat m"] number_tail [OF assms]
    by (simp add: parse_number_def Let_def)
  with False show ?thesis using digits_val_dec_nat [of "nat m"] by (auto split: if_splits)
qed

section \<open>Documents are read back\<close>

fun json_ok :: "json \<Rightarrow> bool" where
  "json_ok (JNumber m e) \<longleftrightarrow> e = 0 \<and> - (2 ^ 31) \<le> m \<and> m < 2 ^ 31"
| "json_ok (JString s) \<longleftrightarrow> no_nul s"
| "json_ok (JArray js) \<longleftrightarrow> (\<forall>j \<in> set js. json_ok j)"
| "json_ok (JObject ms) \<longleftrightarrow> (\<forall>(k, j) \<in> set ms. no_nul k \<and> json_ok j)"
| "json_ok _ \<longleftrightarrow> True"

lemma skip_visible: "32 < cur s \<Longrightarrow> skip s = s"
  by (cases s) (auto simp: skip_def cur_def)

lemma skip_blank: "\<forall>c \<in> set ws. code c \<noteq> 0 \<and> code c \<le> 32 \<Longrightarrow> skip (ws @ s) = skip s"
  by (induction ws) (auto simp: skip_def)

lemma skip_nl_tabs [simp]: "skip (nl @ s) = skip s" "skip (tabs n @ s) = skip s"
  by (rule skip_blank, auto simp: nl_def tabs_def)+

lemma join_entries_Cons: "join_entries sep (x # xs) = x @ concat (map (\<lambda>y. sep @ y) xs)"
  by (induction xs arbitrary: x) auto

lemma parse_scalar_bracket: "cur s = 91 \<or> cur s = 123 \<Longrightarrow> parse_scalar s = None"
  by (cases s) (auto simp: parse_scalar_def)

lemma printed_first: "json_ok j \<Longrightarrow> 32 < cur (print_value fd d fmt j @ rest)
    \<and> cur (print_value fd d fmt j @ rest) \<noteq> 93 \<and> cur (print_value fd d fmt j @ rest) \<noteq> 125"
proof (cases j)
  case (JNumber m e)
  assume "json_ok j"
  moreover obtain c cs where d: "show_int m = c # cs" by (cases "show_int m") (auto simp: show_int_def split: if_splits)
  ultimately show ?thesis
    using JNumber show_int_chars [of c m] by (auto simp: print_number_def near_int_def num_int_def isdigit_def)
next
  case (JArray js)
  then show ?thesis by (simp add: print_array_def)
next
  case (JObject ms)
  then show ?thesis by (simp add: print_object_def)
qed (simp_all add: print_string_ptr_def)

lemma char_of_34_eq: "char_of (34 :: nat) = c \<longleftrightarrow> code c = 34"
proof
  assume "code c = 34"
  then show "char_of (34 :: nat) = c" by (metis char_of_char)
qed auto

lemma printed_scalar:
  assumes "json_ok j" and "ends_number rest" and "\<nexists>js. j = JArray js" and "\<nexists>ms. j = JObject ms"
  shows "parse_scalar (print_value fd d fmt j @ rest) = Some (Parsed j rest)"
proof (cases j)
  case (JNumber m e)
  then have e: "e = 0" and p: "print_value fd d fmt j = show_int m"
    using assms(1) by (auto simp: print_number_def near_int_def num_int_def)
  obtain c cs where d: "show_int m = c # cs" by (cases "show_int m") (auto simp: show_int_def split: if_splits)
  then have c: "c = CHR ''-'' \<or> isdigit c" using show_int_chars [of c m] by simp
  then have "take 4 (show_int m @ rest) \<noteq> ''null''" "take 5 (show_int m @ rest) \<noteq> ''false''"
    "take 4 (show_int m @ rest) \<noteq> ''true''" "cur (show_int m @ rest) \<noteq> 34"
    "cur (show_int m @ rest) = 45 \<or> 48 \<le> cur (show_int m @ rest) \<and> cur (show_int m @ rest) \<le> 57"
    using d by (auto simp: isdigit_def)
  then show ?thesis
    using parse_printed_int [OF assms(2), of m] JNumber e unfolding p by (auto simp: parse_scalar_def)
next
  case (JString s)
  then have "parse_string (print_string_ptr (Some s) @ rest) = Parsed s rest"
    using parse_printed_string assms(1) by simp
  moreover have "take 4 (print_string_ptr (Some s) @ rest) \<noteq> ''null''"
    "take 5 (print_string_ptr (Some s) @ rest) \<noteq> ''false''"
    "take 4 (print_string_ptr (Some s) @ rest) \<noteq> ''true''" "cur (print_string_ptr (Some s) @ rest) = 34"
    by (simp_all add: print_string_ptr_def char_of_34_eq)
  ultimately show ?thesis using JString by (simp add: parse_scalar_def)
qed (use assms in \<open>simp_all add: parse_scalar_def\<close>)

definition array_tail :: "(int \<Rightarrow> int \<Rightarrow> string) \<Rightarrow> nat \<Rightarrow> bool \<Rightarrow> json list \<Rightarrow> string \<Rightarrow> string" where
  "array_tail fd d fmt js rest =
     concat (map (\<lambda>j. '','' @ (if fmt then '' '' else []) @ print_value fd d fmt j) js) @ '']'' @ rest"

definition object_tail ::
  "(int \<Rightarrow> int \<Rightarrow> string) \<Rightarrow> nat \<Rightarrow> bool \<Rightarrow> (string \<times> json) list \<Rightarrow> string \<Rightarrow> string" where
  "object_tail fd d fmt ms rest =
     concat (map (\<lambda>(k, j). '','' @ (if fmt then nl else []) @ print_member fmt d (k, print_value fd d fmt j)) ms)
       @ (if fmt then nl else []) @ (if fmt then tabs (d - 1) else []) @ ''}'' @ rest"

lemma print_array_tail:
  "print_value fd d fmt (JArray (j # js)) @ rest
     = CHR ''['' # print_value fd (Suc d) fmt j @ array_tail fd (Suc d) fmt js rest"
  by (simp add: print_array_def join_entries_Cons array_tail_def comp_def)

lemma print_object_tail:
  "print_value fd d fmt (JObject ((k, j) # ms)) @ rest
     = CHR ''{'' # (if fmt then nl else []) @ print_member fmt (Suc d) (k, print_value fd (Suc d) fmt j)
         @ object_tail fd (Suc d) fmt ms rest"
  by (simp add: print_object_def join_entries_Cons object_tail_def comp_def case_prod_unfold)

lemma ends_number_cur: "cur s = 44 \<or> cur s = 93 \<or> cur s = 10 \<or> cur s = 125 \<Longrightarrow> ends_number s"
  by (cases s) (auto simp: ends_number_def isdigit_def)

lemma array_tail_end: "ends_number (array_tail fd d fmt js rest)"
  by (rule ends_number_cur, cases js) (simp_all add: array_tail_def)

lemma object_tail_end: "ends_number (object_tail fd d fmt ms rest)"
proof (rule ends_number_cur, cases ms)
  case Nil
  then show "cur (object_tail fd d fmt ms rest) = 44 \<or> cur (object_tail fd d fmt ms rest) = 93
      \<or> cur (object_tail fd d fmt ms rest) = 10 \<or> cur (object_tail fd d fmt ms rest) = 125"
    by (cases fmt) (simp_all add: object_tail_def nl_def)
next
  case (Cons m ms')
  then show "cur (object_tail fd d fmt ms rest) = 44 \<or> cur (object_tail fd d fmt ms rest) = 93
      \<or> cur (object_tail fd d fmt ms rest) = 10 \<or> cur (object_tail fd d fmt ms rest) = 125"
    by (cases m) (simp add: object_tail_def)
qed

lemma skip_array_tail: "skip (array_tail fd d fmt js rest) = array_tail fd d fmt js rest"
  by (rule skip_visible, cases js) (simp_all add: array_tail_def)

lemma skip_object_tail:
  "skip (object_tail fd d fmt [] rest) = CHR ''}'' # rest"
  "skip (object_tail fd d fmt (m # ms) rest) = object_tail fd d fmt (m # ms) rest"
proof -
  show "skip (object_tail fd d fmt [] rest) = CHR ''}'' # rest"
    by (cases fmt) (simp_all add: object_tail_def skip_visible)
  show "skip (object_tail fd d fmt (m # ms) rest) = object_tail fd d fmt (m # ms) rest"
  proof (rule skip_visible)
    obtain k j where "m = (k, j)" by (cases m)
    then show "32 < cur (object_tail fd d fmt (m # ms) rest)" by (simp add: object_tail_def)
  qed
qed

lemma array_tail_Cons: "skip (tl (array_tail fd d fmt (j # js) rest))
    = skip (print_value fd d fmt j @ array_tail fd d fmt js rest)"
  by (cases fmt) (simp_all add: array_tail_def skip_def)

lemma object_tail_Cons: "tl (object_tail fd d fmt ((k, j) # ms) rest)
    = (if fmt then nl else []) @ print_member fmt d (k, print_value fd d fmt j) @ object_tail fd d fmt ms rest"
  by (simp add: object_tail_def)

text \<open>Reading one member: the name, the colon and what follows it.\<close>

lemma print_member_skip:
  "skip ((if fmt then nl else []) @ print_member fmt d (k, v) @ s)
     = print_string_ptr (Some k) @ '':'' @ (if fmt then tabs 1 else []) @ v @ s"
proof -
  have "skip (print_string_ptr (Some k) @ x) = print_string_ptr (Some k) @ x" for x
    by (rule skip_visible) (simp add: print_string_ptr_def)
  then show ?thesis by (cases fmt) (simp_all add: print_member_def)
qed

lemma skip_colon: "skip ('':'' @ x) = '':'' @ x"
  by (rule skip_visible) simp

text \<open>What the three parse functions make, with some fuel, of what the printer writes.\<close>

definition printed_read :: "(int \<Rightarrow> int \<Rightarrow> string) \<Rightarrow> bool \<Rightarrow> nat \<Rightarrow> bool" where
  "printed_read fd fmt fuel \<longleftrightarrow>
     (\<forall>j d rest. json_ok j \<longrightarrow> ends_number rest \<longrightarrow>
        parse_value fuel (print_value fd d fmt j @ rest) \<in> {OutOfFuel, Parsed j rest})
   \<and> (\<forall>items js d rest. (\<forall>j \<in> set js. json_ok j) \<longrightarrow>
        parse_elems fuel items (skip (array_tail fd d fmt js rest)) \<in> {OutOfFuel, Parsed (JArray (items @ js)) rest})
   \<and> (\<forall>items ms d rest. (\<forall>(k, j) \<in> set ms. no_nul k \<and> json_ok j) \<longrightarrow>
        parse_members fuel items (skip (object_tail fd d fmt ms rest))
          \<in> {OutOfFuel, Parsed (JObject (items @ ms)) rest})"

lemma printed_readD:
  assumes "printed_read fd fmt fuel"
  shows "json_ok j \<Longrightarrow> ends_number rest \<Longrightarrow>
      parse_value fuel (print_value fd d fmt j @ rest) \<in> {OutOfFuel, Parsed j rest}"
    and "\<forall>j \<in> set js. json_ok j \<Longrightarrow>
      parse_elems fuel items (skip (array_tail fd d fmt js rest)) \<in> {OutOfFuel, Parsed (JArray (items @ js)) rest}"
    and "\<forall>(k, j) \<in> set ms. no_nul k \<and> json_ok j \<Longrightarrow>
      parse_members fuel mitems (skip (object_tail fd d fmt ms rest)) \<in> {OutOfFuel, Parsed (JObject (mitems @ ms)) rest}"
  using assms unfolding printed_read_def by blast+

lemma read_elem:
  assumes IH: "printed_read fd fmt fuel" and that: "json_ok j" "\<forall>j \<in> set js. json_ok j"
  shows "parse_bind (parse_value fuel (skip (print_value fd d fmt j @ array_tail fd d fmt js rest)))
    (\<lambda>j value. parse_elems fuel (items @ [j]) (skip value)) \<in> {OutOfFuel, Parsed (JArray (items @ j # js)) rest}"
proof -
  have "skip (print_value fd d fmt j @ array_tail fd d fmt js rest) = print_value fd d fmt j @ array_tail fd d fmt js rest"
    using printed_first [OF that(1)] by (intro skip_visible) blast
  with printed_readD(1) [OF IH that(1) array_tail_end, of d fd d fmt js rest] printed_readD(2) [OF IH that(2), of "items @ [j]" d rest]
  show ?thesis by auto
qed

lemma read_member:
  assumes IH: "printed_read fd fmt fuel" and that: "no_nul k" "json_ok j" "\<forall>(k, j) \<in> set ms. no_nul k \<and> json_ok j"
  shows "parse_bind (parse_string (skip ((if fmt then nl else []) @ print_member fmt d (k, print_value fd d fmt j)
      @ object_tail fd d fmt ms rest)))
    (\<lambda>name value. let value = skip value in if cur value \<noteq> 58 then Rejected
       else parse_bind (parse_value fuel (skip (tl value))) (\<lambda>j value.
              parse_members fuel (items @ [(name, j)]) (skip value)))
    \<in> {OutOfFuel, Parsed (JObject (items @ (k, j) # ms)) rest}"
proof -
  let ?v = "print_value fd d fmt j @ object_tail fd d fmt ms rest"
  have "skip ((if fmt then tabs 1 else []) @ ?v) = ?v"
    using printed_first [OF that(2), of fd d fmt "object_tail fd d fmt ms rest"]
    by (cases fmt) (simp_all add: skip_visible)
  with printed_readD(1) [OF IH that(2) object_tail_end, of d fd d fmt ms rest] printed_readD(3) [OF IH that(3), of "items @ [(k, j)]" d rest]
  show ?thesis
    unfolding print_member_skip parse_printed_string [OF that(1)]
    by (auto simp: Let_def skip_visible)
qed

lemma read_value:
  assumes IH: "printed_read fd fmt fuel" and ok: "json_ok j" and rest: "ends_number rest"
  shows "parse_value (Suc fuel) (print_value fd d fmt j @ rest) \<in> {OutOfFuel, Parsed j rest}"
proof (cases j)
  case (JArray js)
  show ?thesis
  proof (cases js)
    case Nil
    then show ?thesis using JArray by (simp add: print_array_def parse_scalar_bracket skip_visible)
  next
    case (Cons j1 js1)
    let ?t = "print_value fd (Suc d) fmt j1 @ array_tail fd (Suc d) fmt js1 rest"
    have first: "skip ?t = ?t" "cur ?t \<noteq> 93"
      using printed_first [of j1 fd "Suc d" fmt "array_tail fd (Suc d) fmt js1 rest"] ok JArray Cons skip_visible
      by auto
    have "print_value fd d fmt j @ rest = CHR ''['' # ?t"
      using JArray Cons print_array_tail by simp
    with read_elem [OF IH, of j1 js1 "Suc d" rest "[]"] ok JArray Cons first show ?thesis
      by (simp add: parse_scalar_bracket)
  qed
next
  case (JObject ms)
  show ?thesis
  proof (cases ms)
    case Nil
    then show ?thesis using JObject by (cases fmt) (simp_all add: print_object_def parse_scalar_bracket skip_visible)
  next
    case (Cons m ms1)
    obtain k j1 where m: "m = (k, j1)" by (cases m)
    define s where "s = (if fmt then nl else []) @ print_member fmt (Suc d) (k, print_value fd (Suc d) fmt j1)
        @ object_tail fd (Suc d) fmt ms1 rest"
    have first: "cur (skip s) \<noteq> 125" "skip (skip s) = skip s"
      unfolding s_def print_member_skip by (simp_all add: print_string_ptr_def skip_visible)
    have printed: "print_value fd d fmt j @ rest = CHR ''{'' # s"
      using JObject Cons m print_object_tail by (simp only: s_def)
    have "no_nul k" "json_ok j1" "\<forall>(k, j) \<in> set ms1. no_nul k \<and> json_ok j"
      using ok JObject Cons m by auto
    from read_member [OF IH this, of "Suc d" rest "[]", folded s_def, unfolded append_Nil] first show ?thesis
      unfolding printed using JObject Cons m by (simp add: parse_scalar_bracket)
  qed
qed (use printed_scalar [OF ok rest] in auto)

lemma parse_printed: "printed_read fd fmt fuel"
proof (induction fuel)
  case (Suc fuel)
  note IH = Suc
  have "parse_elems (Suc fuel) items (skip (array_tail fd d fmt js rest)) \<in> {OutOfFuel, Parsed (JArray (items @ js)) rest}"
    if "\<forall>j \<in> set js. json_ok j" for items js d rest
  proof (cases js)
    case Nil
    then show ?thesis by (simp add: array_tail_def skip_visible)
  next
    case (Cons j js1)
    have "cur (array_tail fd d fmt js rest) = 44" using Cons by (simp add: array_tail_def)
    with read_elem [OF IH, of j js1 d rest items] that Cons array_tail_Cons [of fd d fmt j js1 rest] show ?thesis
      by (simp add: skip_array_tail)
  qed
  moreover have "parse_members (Suc fuel) items (skip (object_tail fd d fmt ms rest)) \<in> {OutOfFuel, Parsed (JObject (items @ ms)) rest}"
    if "\<forall>(k, j) \<in> set ms. no_nul k \<and> json_ok j" for items ms d rest
  proof (cases ms)
    case Nil
    then show ?thesis by (simp add: skip_object_tail)
  next
    case (Cons m ms1)
    obtain k j where m: "m = (k, j)" by (cases m)
    have "cur (object_tail fd d fmt ms rest) = 44" using Cons m by (simp add: object_tail_def)
    with read_member [OF IH, of k j ms1 d rest items] that Cons m show ?thesis
      by (simp add: skip_object_tail object_tail_Cons)
  qed
  ultimately show ?case using read_value [OF IH] unfolding printed_read_def by blast
qed (simp add: printed_read_def)

lemma parse_print:
  assumes "json_ok j"
  shows "cJSON_Parse (cJSON_PrintUnformatted fd j) = Inr (Some j) \<and> cJSON_Parse (cJSON_Print fd j) = Inr (Some j)"
proof -
  have "cJSON_Parse (print_value fd 0 fmt j) = Inr (Some j)" for fmt
  proof -
    let ?s = "print_value fd 0 fmt j"
    have "ends_number []" by (simp add: ends_number_def)
    then have "parse_value (Suc (length ?s)) (?s @ []) \<in> {OutOfFuel, Parsed j []}"
      using printed_readD(1) [OF parse_printed assms] by blast
    moreover have "parse_value (Suc (length ?s)) ?s \<noteq> OutOfFuel"
      using parse_enough [of "Suc (length ?s)"] by blast
    moreover have "skip ?s = ?s"
      using printed_first [OF assms, of fd 0 fmt "[]"] by (intro skip_visible) simp
    ultimately show ?thesis
      by (auto simp: cJSON_Parse_def cJSON_ParseWithOpts_def simp del: parse_value.simps)
  qed
  then show ?thesis by (simp add: cJSON_PrintUnformatted_def cJSON_Print_def)
qed

text \<open>
  C14: every document the printer writes, formatted or not, is read back as the same item: the
  parser inverts the printer on strings of any bytes and on integer numbers.
\<close>

theorem json_roundtrip:
  assumes "json_ok j"
  shows "cJSON_Parse (cJSON_PrintUnformatted fd j) = Inr (Some j) \<and> cJSON_Parse (cJSON_Print fd j) = Inr (Some j)"
  using assms by (rule parse_print)

theorem json_roundtrip_witness:
  "cJSON_Parse (cJSON_Print (\<lambda>m e. []) (JObject [(''port'', JNumber 80 0), (''services'', JArray [JString ''a'', JTrue])]))
     = Inr (Some (JObject [(''port'', JNumber 80 0), (''services'', JArray [JString ''a'', JTrue])]))"
  using json_roundtrip [of "JObject [(''port'', JNumber 80 0), (''services'', JArray [JString ''a'', JTrue])]" "\<lambda>m e. []"]
  by (simp add: no_nul_def)

section \<open>Texts that crash the parser\<close>

lemma scan_plain:
  "\<forall>c \<in> set xs. code c \<noteq> 34 \<and> code c \<noteq> 92 \<Longrightarrow> scan_len s = Inl f \<Longrightarrow> scan_len (xs @ s) = Inl f"
  by (induction xs) auto

lemma parse_hex4_bad: "hex_val c = None \<Longrightarrow> parse_hex4 (c # s) = 0"
proof -
  have four: "(4 :: nat) = Suc (Suc (Suc (Suc 0)))" by simp
  show "hex_val c = None \<Longrightarrow> parse_hex4 (c # s) = 0" unfolding parse_hex4_def four by simp
qed

lemma decode_plain_end:
  "\<forall>c \<in> set xs. code c \<noteq> 34 \<and> code c \<noteq> 92 \<Longrightarrow> decode xs = Inr (xs, [])"
  by (induction xs) auto

lemma parse_of_string:
  assumes "cur s = 34"
  shows "cJSON_Parse s = (case parse_string s of
      Parsed x r \<Rightarrow> Inr (Some (JString x)) | Rejected \<Rightarrow> Inr None | Crashed f \<Rightarrow> Inl f | OutOfFuel \<Rightarrow> Inr None)"
proof -
  have "skip s = s" using assms by (intro skip_visible) simp
  moreover have "parse_scalar s = Some (parse_bind (parse_string s) (\<lambda>x. Parsed (JString x)))"
    using assms by (cases s) (auto simp: parse_scalar_def)
  ultimately show ?thesis
    by (cases "parse_string s") (simp_all add: cJSON_Parse_def cJSON_ParseWithOpts_def)
qed

text \<open>
  C39: a string that ends in a backslash makes the parser read past the end of the text, and a
  \<open>\u\<close> escape that is followed by the closing quote makes it skip the quote and write past
  the end of its buffer: both texts crash it, whatever characters they are padded with.
\<close>

theorem json_crashes:
  assumes "list_all (\<lambda>c. code c \<noteq> 34 \<and> code c \<noteq> 92) xs" and "1 < length xs"
  shows "cJSON_Parse (CHR 0x22 # xs @ [CHR 0x5C]) = Inl OutOfBounds
    \<and> cJSON_Parse (CHR 0x22 # CHR 0x5C # CHR ''u'' # CHR 0x22 # a # b # c # xs) = Inl OutOfBounds"
proof
  have plain: "\<forall>c \<in> set xs. code c \<noteq> 34 \<and> code c \<noteq> 92" using assms(1) by (simp add: list_all_iff)
  show "cJSON_Parse (CHR 0x22 # xs @ [CHR 0x5C]) = Inl OutOfBounds"
    by (subst parse_of_string) (simp_all add: parse_string_def scan_plain [OF plain, of _ OutOfBounds])
  have "escape CHR ''u'' (CHR 0x22 # a # b # c # xs) = Inr ([], xs)"
    by (simp add: escape_def unicode_escape_def parse_hex4_bad hex_val_def)
  then have "decode (CHR 0x5C # CHR ''u'' # CHR 0x22 # a # b # c # xs) = Inr (xs, [])"
    using decode_plain_end [OF plain] by simp
  moreover have "scan_len (CHR 0x5C # CHR ''u'' # CHR 0x22 # a # b # c # xs) = Inr 1" by simp
  ultimately have "parse_string (CHR 0x22 # CHR 0x5C # CHR ''u'' # CHR 0x22 # a # b # c # xs) = Crashed OutOfBounds"
    using assms(2) by (simp add: parse_string_def del: decode.simps scan_len.simps)
  then show "cJSON_Parse (CHR 0x22 # CHR 0x5C # CHR ''u'' # CHR 0x22 # a # b # c # xs) = Inl OutOfBounds"
    by (simp add: parse_of_string)
qed

theorem json_crashes_witness:
  "cJSON_Parse (CHR 0x22 # ''ab'' @ [CHR 0x5C]) = Inl OutOfBounds"
  using json_crashes [of "''ab''"] by simp

end
