(* ===== verification/Url_Encode.thy ===== *)
theory Url_Encode
  imports Prelude
begin

text \<open>
  Percent encoding of node contents: \<open>hextoint\<close>, \<open>url_encode\<close> and \<open>url_decode\<close> of
  soaagent/url_encode.c (soaregister/url_encode.c is the same file).  A provider publishes
  its service description as a ZooKeeper node name, so the encoder and the decoder must be
  inverse to each other.  The decoder also returns how many bytes it stores in the buffer
  it allocated, because the C code allocates \<open>len\<close> bytes and writes a terminating NUL.
\<close>

section \<open>Operations\<close>

definition hexchars :: string where
  "hexchars = ''0123456789ABCDEF''"

definition hexdigit_val :: "char \<Rightarrow> int" where
  "hexdigit_val ch =
     (let c = (if isupper ch then tolower ch else ch)
      in if isdigit c then int (code c) - 48 else int (code c) - 97 + 10)"

text \<open>\<open>value = ... * 16; value += ...\<close>, then the cast to \<open>char\<close> in the caller.\<close>

definition hextoint :: "char \<Rightarrow> char \<Rightarrow> int" where
  "hextoint h l = hexdigit_val h * 16 + hexdigit_val l"

definition isxdigit :: "char \<Rightarrow> bool" where
  "isxdigit c \<longleftrightarrow> isdigit c \<or> (65 \<le> code c \<and> code c \<le> 70) \<or> (97 \<le> code c \<and> code c \<le> 102)"

text \<open>The condition under which the encoder escapes a byte.\<close>

definition must_escape :: "char \<Rightarrow> bool" where
  "must_escape c \<longleftrightarrow>
     (code c < 48 \<and> c \<noteq> CHR ''-'' \<and> c \<noteq> CHR ''.'') \<or>
     (code c < 65 \<and> code c > 57) \<or>
     (code c > 90 \<and> code c < 97 \<and> c \<noteq> CHR ''_'') \<or>
     code c > 122"

fun url_encode :: "string \<Rightarrow> string" where
  "url_encode [] = []"
| "url_encode (c # from) =
     (if c = CHR '' '' then CHR ''+'' # url_encode from
      else if must_escape c then
        CHR ''%'' # hexchars ! (code c div 16) # hexchars ! (code c mod 16) # url_encode from
      else c # url_encode from)"

fun url_decode :: "string \<Rightarrow> string" where
  "url_decode [] = []"
| "url_decode (c # data) =
     (if c = CHR ''+'' then CHR '' '' # url_decode data
      else if c = CHR ''%'' then
        (case data of
           h # l # data' \<Rightarrow>
             if isxdigit h \<and> isxdigit l then char_of (hextoint h l) # url_decode data'
             else c # url_decode data
         | _ \<Rightarrow> c # url_decode data)
      else c # url_decode data)"

text \<open>
  The buffers: \<open>calloc(1, 3 * len + 1)\<close> in the encoder, \<open>malloc(len)\<close> in the decoder;
  both store the result and a NUL.
\<close>

definition url_encode_alloc :: "nat \<Rightarrow> nat" where
  "url_encode_alloc len = 3 * len + 1"

definition url_decode_alloc :: "nat \<Rightarrow> nat" where
  "url_decode_alloc len = len"

definition url_decode_call :: "string \<Rightarrow> fault + string" where
  "url_decode_call s =
     (if length (url_decode s) + 1 \<le> url_decode_alloc (length s)
      then Inr (url_decode s) else Inl OutOfBounds)"

section \<open>Hexadecimal digits\<close>

lemma hexchars_nth:
  assumes "n < 16"
  shows "isxdigit (hexchars ! n)" and "hexdigit_val (hexchars ! n) = int n"
proof -
  have "\<forall>n \<in> set [0..<16]. isxdigit (hexchars ! n) \<and> hexdigit_val (hexchars ! n) = int n"
    by code_simp
  with assms show "isxdigit (hexchars ! n)" and "hexdigit_val (hexchars ! n) = int n"
    by auto
qed

lemma hex_quotient_less [simp]: "code c div 16 < 16"
  by (simp add: less_mult_imp_div_less)

lemma hextoint_hexchars:
  "hextoint (hexchars ! (code c div 16)) (hexchars ! (code c mod 16)) = int (code c)"
proof -
  have "int (code c div 16) * 16 + int (code c mod 16) = int (code c)"
    by (metis div_mult_mod_eq of_nat_add of_nat_mult of_nat_numeral)
  then show ?thesis by (simp add: hextoint_def hexchars_nth)
qed

lemma char_of_int_code [simp]: "char_of (int (code c)) = c"
  by (simp add: of_nat_of_char)

section \<open>Round trip and buffer sizes\<close>

lemma must_escape_specials [simp]: "must_escape CHR ''+''" "must_escape CHR ''%''"
  by (simp_all add: must_escape_def)

lemma url_decode_encode: "url_decode (url_encode s) = s"
  by (induction s) (auto simp: hexchars_nth hextoint_hexchars)

lemma url_encode_longer:
  "length s \<le> length (url_encode s) \<and> (c \<in> set s \<longrightarrow> must_escape c \<longrightarrow> c \<noteq> CHR '' '' \<longrightarrow> length s < length (url_encode s))"
  by (induction s) auto

lemma url_decode_call_encode:
  "c \<in> set s \<Longrightarrow> must_escape c \<Longrightarrow> c \<noteq> CHR '' '' \<Longrightarrow> url_decode_call (url_encode s) = Inr s"
  using url_encode_longer [of s c] by (simp add: url_decode_call_def url_decode_alloc_def url_decode_encode)

text \<open>
  C36: \<open>url_decode\<close> inverts \<open>url_encode\<close> on every byte string, so the agent reads
  back exactly the service description a provider published as a node name.
\<close>

theorem url_roundtrip: "url_decode (url_encode s) = s"
  by (rule url_decode_encode)

lemma url_encode_length: "length (url_encode s) \<le> 3 * length s"
  by (induction s) auto

text \<open>The encoder's alphabet: no slash, so an encoded description is one path component.\<close>

definition url_safe :: "char \<Rightarrow> bool" where
  "url_safe c \<longleftrightarrow> c = CHR ''+'' \<or> c = CHR ''%'' \<or> \<not> must_escape c"

lemma hexchars_safe: "n < 16 \<Longrightarrow> \<not> must_escape (hexchars ! n)"
proof -
  have "\<forall>n \<in> set [0..<16]. \<not> must_escape (hexchars ! n)"
    by code_simp
  then show "n < 16 \<Longrightarrow> \<not> must_escape (hexchars ! n)" by auto
qed

lemma url_encode_safe: "c \<in> set (url_encode s) \<Longrightarrow> url_safe c"
  by (induction s) (auto simp: url_safe_def hexchars_safe split: if_splits)

lemma url_encode_no_slash: "CHR ''/'' \<notin> set (url_encode s)"
proof
  assume "CHR ''/'' \<in> set (url_encode s)"
  then have "url_safe CHR ''/''" by (rule url_encode_safe)
  then show False by (simp add: url_safe_def must_escape_def)
qed

text \<open>What may stand in a node name of a ZooKeeper path.\<close>

definition node_char :: "char \<Rightarrow> bool" where
  "node_char c \<longleftrightarrow> c \<noteq> CHR ''/'' \<and> 32 < code c \<and> code c < 127"

text \<open>
  The encoder never writes past its buffer, and its output has no slash, blank or
  control character: it is a single component of a ZooKeeper path.
\<close>

theorem url_encode_bounds:
  "length (url_encode s) + 1 \<le> url_encode_alloc (length s) \<and> list_all node_char (url_encode s)"
proof -
  have "node_char c" if "url_safe c" for c
    using that by (auto simp: node_char_def url_safe_def must_escape_def)
  then show ?thesis
    using url_encode_length [of s] url_encode_safe [of _ s]
    by (auto simp: url_encode_alloc_def list_all_iff)
qed

text \<open>The number of escape sequences the decoder consumes.\<close>

fun escapes :: "string \<Rightarrow> nat" where
  "escapes [] = 0"
| "escapes (c # data) =
     (if c = CHR ''%'' then
        (case data of
           h # l # data' \<Rightarrow> if isxdigit h \<and> isxdigit l then Suc (escapes data') else escapes data
         | _ \<Rightarrow> escapes data)
      else escapes data)"

lemma url_decode_plain:
  assumes "\<not> (c = CHR ''%'' \<and> (\<exists>h l d. data = h # l # d \<and> isxdigit h \<and> isxdigit l))"
  shows "length (url_decode (c # data)) = Suc (length (url_decode data))
         \<and> escapes (c # data) = escapes data"
  using assms
  by (auto simp: url_decode.simps(2) [of c data] escapes.simps(2) [of c data]
      simp del: url_decode.simps(2) escapes.simps(2) split: list.splits)

lemma url_decode_escapes: "length (url_decode s) + 2 * escapes s = length s"
proof (induction s rule: length_induct)
  case (1 s)
  show ?case
  proof (cases s)
    case (Cons c data)
    show ?thesis
    proof (cases "c = CHR ''%'' \<and> (\<exists>h l d. data = h # l # d \<and> isxdigit h \<and> isxdigit l)")
      case True
      then obtain h l d where esc: "c = CHR ''%''" "data = h # l # d" "isxdigit h" "isxdigit l"
        by blast
      have "length (url_decode d) + 2 * escapes d = length d"
        using "1" Cons esc by simp
      with Cons esc show ?thesis by simp
    next
      case False
      have "length (url_decode data) + 2 * escapes data = length data"
        using "1" Cons by simp
      with url_decode_plain [OF False] Cons show ?thesis by simp
    qed
  qed simp
qed

text \<open>
  C37: the decoder writes its terminating NUL one byte past the buffer of \<open>len\<close> bytes
  exactly when the input holds no escape sequence (every character decodes to one
  character); with at least one escape the NUL still fits.
\<close>

theorem url_decode_overflow:
  "url_decode_call s = (if escapes s = 0 then Inl OutOfBounds else Inr (url_decode s))"
  using url_decode_escapes [of s]
  by (auto simp: url_decode_call_def url_decode_alloc_def)

end
