(* ===== verification/Register_Info.thy ===== *)
theory Register_Info
  imports Cjson Service_Conf Url_Encode
begin

text \<open>
  The JSON reader of soaagent/service_conf.c: \<open>parse_node_register_info\<close> turns the
  description a provider published into registrations of the declared services.  The member
  of an object that is missing is a NULL pointer, and so is the \<open>valuestring\<close> of one that is
  not a string; using it is a fault.
\<close>

definition the_string :: "string option \<Rightarrow> fault + string" where
  "the_string s = (case s of None \<Rightarrow> Inl NullDeref | Some x \<Rightarrow> Inr x)"

text \<open>The body of the loop over the services of a node.\<close>

definition add_service ::
  "service_filters \<Rightarrow> string option \<Rightarrow> string option \<Rightarrow> int \<Rightarrow> json option \<Rightarrow> register_info_array
     \<Rightarrow> fault + register_info_array" where
  "add_service filters grp_value hst_value prt_value service_item result =
     after (cJSON_GetObjectItem service_item ''service'') (\<lambda>i. after (valuestring i) (\<lambda>service_name.
     after (cJSON_GetObjectItem service_item ''version'') (\<lambda>i. after (valuestring i) (\<lambda>ver_value.
     after (the_string grp_value) (\<lambda>g. after (the_string service_name) (\<lambda>s.
     after (the_string ver_value) (\<lambda>v. after (the_string hst_value) (\<lambda>h.
       let reg_info = register_info_padding 0 g s v h prt_value in
       Inr (if service_filter_match filters reg_info
            then (if \<not> find_register_info result reg_info then result @ [reg_info] else result)
            else result)))))))))"

fun add_services ::
  "service_filters \<Rightarrow> string option \<Rightarrow> string option \<Rightarrow> int \<Rightarrow> json option \<Rightarrow> nat list
     \<Rightarrow> register_info_array \<Rightarrow> fault + register_info_array" where
  "add_services filters g h p services_array [] result = Inr result"
| "add_services filters g h p services_array (j # js) result =
     after (cJSON_GetArrayItem services_array j) (\<lambda>service_item.
     after (add_service filters g h p service_item result) (\<lambda>result.
       add_services filters g h p services_array js result))"

definition parse_node_register_info ::
  "service_filters \<Rightarrow> register_info_array option \<Rightarrow> string \<Rightarrow> fault + int \<times> register_info_array option" where
  "parse_node_register_info filters result content =
     after (cJSON_Parse content) (\<lambda>root.
       case root of
         None \<Rightarrow> Inr (-1, result)
       | Some _ \<Rightarrow>
           let result = (case result of None \<Rightarrow> [] | Some rs \<Rightarrow> rs) in
           after (cJSON_GetObjectItem root ''host'') (\<lambda>i. after (valuestring i) (\<lambda>hst_value.
           after (cJSON_GetObjectItem root ''port'') (\<lambda>i. after (valueint i) (\<lambda>prt_value.
           after (cJSON_GetObjectItem root ''group'') (\<lambda>i. after (valuestring i) (\<lambda>grp_value.
           after (cJSON_GetObjectItem root ''services'') (\<lambda>services_array.
           after (cJSON_GetArraySize services_array) (\<lambda>srv_len.
           after (add_services filters grp_value hst_value prt_value services_array [0 ..< srv_len] result)
             (\<lambda>result. Inr (0, Some result)))))))))))"

section \<open>What a provider's description stands for\<close>

text \<open>The members the reader looks at; others, their order and the layout do not matter.\<close>

definition offers :: "json \<Rightarrow> string \<times> string \<Rightarrow> bool" where
  "offers item = (\<lambda>(s, v). find_child (children item) ''service'' = Some (JString s)
     \<and> find_child (children item) ''version'' = Some (JString v))"

definition provides :: "json \<Rightarrow> string \<Rightarrow> int \<Rightarrow> string \<Rightarrow> (string \<times> string) list \<Rightarrow> bool" where
  "provides root h p g svs \<longleftrightarrow>
     find_child (children root) ''host'' = Some (JString h)
     \<and> (\<exists>m e. find_child (children root) ''port'' = Some (JNumber m e) \<and> num_int m e = p)
     \<and> find_child (children root) ''group'' = Some (JString g)
     \<and> (\<exists>arr. find_child (children root) ''services'' = Some arr
          \<and> list_all2 offers (map snd (children arr)) svs)"

definition registration :: "string \<Rightarrow> int \<Rightarrow> string \<Rightarrow> string \<times> string \<Rightarrow> register_info" where
  "registration h p g = (\<lambda>(s, v). register_info_padding 0 g s v h p)"

definition declare_one :: "service_filters \<Rightarrow> register_info \<Rightarrow> register_info_array \<Rightarrow> register_info_array" where
  "declare_one filters r rs =
     (if service_filter_match filters r \<and> \<not> find_register_info rs r then rs @ [r] else rs)"

lemma add_service_offers:
  "offers item sv \<Longrightarrow> add_service filters (Some g) (Some h) p (Some item) rs
     = Inr (declare_one filters (registration h p g sv) rs)"
  by (auto simp: offers_def add_service_def cJSON_GetObjectItem_def valuestring_def the_string_def
      declare_one_def registration_def Let_def split: prod.splits)

lemma add_services_fold:
  assumes "list_all2 offers (map snd (children arr)) svs" and "i \<le> length svs"
  shows "add_services filters (Some g) (Some h) p (Some arr) [i ..< length svs] rs
    = Inr (fold (declare_one filters) (map (registration h p g) (drop i svs)) rs)"
  using assms(2)
proof (induction "length svs - i" arbitrary: i rs)
  case 0
  then show ?case by simp
next
  case (Suc n)
  then have i: "i < length svs" by simp
  have len: "length (children arr) = length svs" using list_all2_lengthD [OF assms(1)] by simp
  have "offers (snd (children arr ! i)) (svs ! i)"
    using list_all2_nthD2 [OF assms(1) i] i len by simp
  note step = add_service_offers [OF this, of filters g h p rs]
  have rest: "[i ..< length svs] = i # [Suc i ..< length svs]" using i by (rule upt_conv_Cons)
  have svs: "drop i svs = svs ! i # drop (Suc i) svs" using i by (rule Cons_nth_drop_Suc [symmetric])
  show ?case
    unfolding rest svs using Suc.hyps(1) [of "Suc i"] Suc.hyps(2) i len step
    by (simp add: cJSON_GetArrayItem_def)
qed

lemma endpoints_declare_one:
  "endpoints (Some (declare_one filters r rs))
     = endpoints (Some rs) \<union> (if service_filter_match filters r then {endpoint r} else {})"
  by (auto simp: declare_one_def endpoints_def find_register_info_iff)

lemma endpoints_declare:
  "endpoints (Some (fold (declare_one filters) rs' rs))
     = endpoints (Some rs) \<union> endpoint ` {r \<in> set rs'. service_filter_match filters r}"
  by (induction rs' arbitrary: rs) (auto simp: endpoints_declare_one)

lemma parse_node_fold:
  assumes "cJSON_Parse content = Inr (Some root)" and "provides root h p g svs"
  shows "parse_node_register_info filters res content
    = Inr (0, Some (fold (declare_one filters) (map (registration h p g) svs) (case res of None \<Rightarrow> [] | Some rs \<Rightarrow> rs)))"
proof -
  obtain m e arr where f: "find_child (children root) ''host'' = Some (JString h)"
    "find_child (children root) ''port'' = Some (JNumber m e)" "num_int m e = p"
    "find_child (children root) ''group'' = Some (JString g)"
    "find_child (children root) ''services'' = Some arr"
    and arr: "list_all2 offers (map snd (children arr)) svs"
    using assms(2) by (auto simp: provides_def)
  have "length (children arr) = length svs" using list_all2_lengthD [OF arr] by simp
  then show ?thesis
    using assms(1) f add_services_fold [OF arr, of 0]
    by (simp add: parse_node_register_info_def cJSON_GetObjectItem_def valuestring_def valueint_def
        cJSON_GetArraySize_def Let_def)
qed

lemma parse_node_register_info_adds:
  assumes "cJSON_Parse content = Inr (Some root)" and "provides root h p g svs"
  shows "\<exists>rs. parse_node_register_info filters res content = Inr (0, Some rs)
    \<and> endpoints (Some rs) = endpoints res \<union>
        {endpoint (register_info_padding 0 g s v h p) | s v.
           (s, v) \<in> set svs \<and> service_filter_padding g s v \<in> set filters}"
proof -
  have "endpoint ` {r \<in> set (map (registration h p g) svs). service_filter_match filters r}
      = {endpoint (register_info_padding 0 g s v h p) | s v.
           (s, v) \<in> set svs \<and> service_filter_padding g s v \<in> set filters}"
    by (force simp: registration_def service_filter_match_def service_filter_find_in register_info_padding_def)
  then show ?thesis
    unfolding parse_node_fold [OF assms] using endpoints_declare by (cases res) (auto simp: endpoints_def)
qed

text \<open>
  Reading a provider's description adds exactly the endpoints of its declared services
  to the registrations read so far, each once.
\<close>

theorem parse_node_register_info_spec:
  assumes "cJSON_Parse content = Inr (Some root)" and "provides root h p g svs"
  shows "\<exists>rs. parse_node_register_info filters res content = Inr (0, Some rs)
    \<and> endpoints (Some rs) = endpoints res \<union>
        {endpoint (register_info_padding 0 g s v h p) | s v.
           (s, v) \<in> set svs \<and> service_filter_padding g s v \<in> set filters}"
  using assms by (rule parse_node_register_info_adds)

text \<open>The description as the provider library writes it.\<close>

definition provider_doc :: "string \<Rightarrow> int \<Rightarrow> string \<Rightarrow> (string \<times> string) list \<Rightarrow> json" where
  "provider_doc h p g svs = JObject [(''host'', JString h), (''port'', JNumber p 0), (''group'', JString g),
     (''services'', JArray (map (\<lambda>(s, v). JObject [(''service'', JString s), (''version'', JString v)]) svs))]"

lemma provider_doc_provides: "provides (provider_doc h p g svs) h p g svs"
proof -
  have "list_all2 offers (map (\<lambda>(s, v). JObject [(''service'', JString s), (''version'', JString v)]) svs) svs"
    by (induction svs) (auto simp: offers_def cJSON_strcasecmp_def tolower_def isupper_def)
  then show ?thesis
    by (auto simp: provides_def provider_doc_def cJSON_strcasecmp_def num_int_def comp_def tolower_def isupper_def)
qed

theorem parse_node_register_info_spec_witness:
  "\<exists>rs. parse_node_register_info [service_filter_padding ''g'' ''s'' ''1''] None
      (cJSON_Print (\<lambda>m e. []) (provider_doc ''10.0.0.1'' 80 ''g'' [(''s'', ''1''), (''t'', ''1'')])) = Inr (0, Some rs)
     \<and> endpoints (Some rs) = {endpoint (register_info_padding 0 ''g'' ''s'' ''1'' ''10.0.0.1'' 80)}"
proof -
  let ?doc = "provider_doc ''10.0.0.1'' 80 ''g'' [(''s'', ''1''), (''t'', ''1'')]"
  have "cJSON_Parse (cJSON_Print (\<lambda>m e. []) ?doc) = Inr (Some ?doc)" by code_simp
  from parse_node_register_info_spec [OF this provider_doc_provides, of "[service_filter_padding ''g'' ''s'' ''1'']" None]
  obtain rs where rs: "parse_node_register_info [service_filter_padding ''g'' ''s'' ''1''] None
      (cJSON_Print (\<lambda>m e. []) ?doc) = Inr (0, Some rs)"
    "endpoints (Some rs) = endpoints None \<union>
        {endpoint (register_info_padding 0 ''g'' s v ''10.0.0.1'' 80) | s v.
           (s, v) \<in> set [(''s'', ''1''), (''t'', ''1'')]
           \<and> service_filter_padding ''g'' s v \<in> set [service_filter_padding ''g'' ''s'' ''1'']}" by blast
  have "service_filter_padding ''g'' ''t'' ''1'' \<noteq> service_filter_padding ''g'' ''s'' ''1''"
    by code_simp
  then have "endpoints (Some rs) = {endpoint (register_info_padding 0 ''g'' ''s'' ''1'' ''10.0.0.1'' 80)}"
    unfolding rs(2) by (auto simp: endpoints_def)
  with rs(1) show ?thesis by blast
qed

end
