(* ===== verification/Zk_Handle.thy ===== *)
theory Zk_Handle
  imports File_System
begin

text \<open>
  soaagent/zk_handle.c.  The ZooKeeper client library is not part of the program: its functions
  are the fields of \<open>zk_client\<close>, over an unknown state of the session and the servers.  What the
  program relies on is the documented effect of \<open>zoo_exists\<close> and \<open>zoo_create\<close> on the tree of
  znodes (\<open>zk_documented\<close>).
\<close>

section \<open>The client library\<close>

text \<open>
  A pair of numbers stands for the pointer to a watcher context; \<open>zoo_wget_children2\<close> returns its result code and the
  vector it filled in, \<open>None\<close> when it left the caller's vector untouched.
\<close>

record 'z zk_client =
  zookeeper_init :: "string \<Rightarrow> 'z \<Rightarrow> bool \<times> 'z"
  zookeeper_close :: "'z \<Rightarrow> int \<times> 'z"
  zoo_exists :: "string \<Rightarrow> 'z \<Rightarrow> int"
  zoo_create :: "string \<Rightarrow> string option \<Rightarrow> bool \<Rightarrow> 'z \<Rightarrow> int \<times> 'z"
  zoo_delete :: "string \<Rightarrow> 'z \<Rightarrow> int \<times> 'z"
  zoo_wget :: "string \<Rightarrow> nat \<times> nat \<Rightarrow> 'z \<Rightarrow> int \<times> string \<times> 'z"
  zoo_wget_children2 :: "string \<Rightarrow> nat \<times> nat \<Rightarrow> 'z \<Rightarrow> int \<times> string list option \<times> 'z"

definition ZOK :: int where "ZOK = 0"

datatype node_type = NORMAL_NODE | EPHEMERAL_NODE

section \<open>Operations\<close>

definition exist_node :: "'z zk_client \<Rightarrow> 'z \<Rightarrow> string \<Rightarrow> bool" where
  "exist_node api z path \<longleftrightarrow> zoo_exists api path z = ZOK"

definition create_node ::
  "'z zk_client \<Rightarrow> string \<Rightarrow> string option \<Rightarrow> node_type \<Rightarrow> 'z \<Rightarrow> int \<times> 'z" where
  "create_node api path val type z =
     (let (result_status, z) = zoo_create api path val (type = EPHEMERAL_NODE) z
      in if result_status = ZOK then (0, z) else (-1, z))"

definition delete_node :: "'z zk_client \<Rightarrow> string \<Rightarrow> 'z \<Rightarrow> int \<times> 'z" where
  "delete_node api path z =
     (let (result_status, z) = zoo_delete api path z
      in if result_status = ZOK then (0, z) else (-1, z))"

text \<open>The loop of \<open>make_sure_node_path\<close>, over the prefixes; the result of \<open>create_node\<close> is ignored.\<close>

fun make_nodes :: "'z zk_client \<Rightarrow> string list \<Rightarrow> 'z \<Rightarrow> 'z" where
  "make_nodes api [] z = z"
| "make_nodes api (path # paths) z =
     (if \<not> exist_node api z path
      then make_nodes api paths (snd (create_node api path None NORMAL_NODE z))
      else make_nodes api paths z)"

definition make_sure_node_path :: "'z zk_client \<Rightarrow> string option \<Rightarrow> 'z \<Rightarrow> int \<times> 'z" where
  "make_sure_node_path api path z =
     (case path of
        None \<Rightarrow> (-1, z)
      | Some path \<Rightarrow>
          if length path \<le> 1 then (-1, z)
          else (0, make_nodes api (slash_prefixes (take 1 path) (drop 1 path)) z))"

definition make_sure_enode :: "'z zk_client \<Rightarrow> string \<Rightarrow> string option \<Rightarrow> 'z \<Rightarrow> int \<times> 'z" where
  "make_sure_enode api path val z =
     (case strrchr CHR ''/'' path of
        None \<Rightarrow> (-1, z)
      | Some k \<Rightarrow>
          if k = 0 then (-1, z)
          else create_node api path val EPHEMERAL_NODE (snd (make_sure_node_path api (Some (take (k + 1) path)) z)))"

definition get_node :: "'z zk_client \<Rightarrow> string \<Rightarrow> nat \<times> nat \<Rightarrow> 'z \<Rightarrow> (int \<times> string) \<times> 'z" where
  "get_node api path watcher_ctx z =
     (let (result_status, buf, z) = zoo_wget api path watcher_ctx z
      in if result_status = ZOK then ((0, buf), z) else ((-1, buf), z))"

text \<open>
  The callback gets the children; at the end the vector is freed, which is a fault when the
  library never filled it in.
\<close>

definition get_children ::
  "'z zk_client \<Rightarrow> string \<Rightarrow> nat \<times> nat \<Rightarrow> (string list \<Rightarrow> 'st \<Rightarrow> fault + 'st) \<Rightarrow> 'z \<Rightarrow> 'st
     \<Rightarrow> fault + int \<times> 'z \<times> 'st" where
  "get_children api node_group_value ctx children_change_func z st =
     (let (result_status, str_vector, z) = zoo_wget_children2 api node_group_value ctx z
      in case str_vector of
           None \<Rightarrow> Inl Uninitialised
         | Some data \<Rightarrow>
             if result_status = ZOK
             then after (children_change_func data st) (\<lambda>st. Inr (0, z, st))
             else Inr (-1, z, st))"

text \<open>The client's log file is named after the process.\<close>

definition zk_log_name :: "int \<Rightarrow> string" where
  "zk_log_name pid = snprintf_s PATH_MAX (''/tmp/soa/zkc.'' @ show_int pid @ ''.log'')"

definition init_zk_handle ::
  "'z zk_client \<Rightarrow> string \<Rightarrow> int \<Rightarrow> 'z \<Rightarrow> filesystem \<Rightarrow> int \<times> 'z \<times> filesystem" where
  "init_zk_handle api zk_addrs pid z fs =
     (let (r, fs) = make_sure_dir (Some (zk_log_name pid)) MODE_755 fs in
      if r \<noteq> 0 then (-1, z, fs)
      else
        let fs = (case open_append (zk_log_name pid) fs of Some fs' \<Rightarrow> fs' | None \<Rightarrow> fs);
            (connected, z) = zookeeper_init api zk_addrs z
        in if \<not> connected then (-1, z, fs)
           else if \<not> exist_node api z ''/'' then (-1, z, fs)
           else (0, z, fs))"

definition fini_zk_handle :: "'z zk_client \<Rightarrow> 'z \<Rightarrow> int \<times> 'z" where
  "fini_zk_handle api z =
     (let (result_status, z) = zookeeper_close api z in if result_status = ZOK then (0, z) else (-1, z))"

section \<open>What the program relies on\<close>

text \<open>A znode name, and the canonical path of a list of names.\<close>

definition znode_name :: "string \<Rightarrow> bool" where
  "znode_name n \<longleftrightarrow> n \<noteq> [] \<and> CHR ''/'' \<notin> set n \<and> n \<noteq> ''.'' \<and> n \<noteq> ''..''"

fun zpath :: "string list \<Rightarrow> string" where
  "zpath [] = []"
| "zpath (n # ns) = CHR ''/'' # n @ zpath ns"

definition canonical :: "string \<Rightarrow> bool" where
  "canonical p \<longleftrightarrow> (\<exists>ns. p = zpath ns \<and> ns \<noteq> [] \<and> list_all znode_name ns)"

text \<open>
  A znode has a value, possibly NULL, and is ephemeral or not.  Documented: \<open>zoo_exists\<close> answers
  \<open>ZOK\<close> exactly for existing nodes; \<open>zoo_create\<close> adds a missing node below an existing one that
  is not ephemeral, and fails without effect when the node exists.
\<close>

type_synonym znodes = "string list \<rightharpoonup> string option \<times> bool"

definition zk_documented :: "'z zk_client \<Rightarrow> ('z \<Rightarrow> znodes) \<Rightarrow> bool" where
  "zk_documented api nodes \<longleftrightarrow>
     (\<forall>p z. canonical p \<longrightarrow> zoo_exists api p z = ZOK \<longleftrightarrow> nodes z (comps p) \<noteq> None)
   \<and> (\<forall>p v e z w. canonical p \<longrightarrow> nodes z (comps p) = None \<longrightarrow> nodes z (butlast (comps p)) = Some (w, False) \<longrightarrow>
        (\<exists>z'. zoo_create api p v e z = (ZOK, z') \<and> nodes z' = (nodes z)(comps p \<mapsto> (v, e))))
   \<and> (\<forall>p v e z. canonical p \<longrightarrow> nodes z (comps p) \<noteq> None \<longrightarrow>
        (\<exists>rc z'. zoo_create api p v e z = (rc, z') \<and> rc \<noteq> ZOK \<and> nodes z' = nodes z))"

lemma comps_zpath: "list_all znode_name ns \<Longrightarrow> comps (zpath ns) = ns"
proof (induction ns rule: rev_induct)
  case (snoc n ns)
  have z: "zpath (ns @ [n]) = zpath ns @ CHR ''/'' # n" by (induction ns) auto
  show ?case using snoc by (simp add: z comps_plain znode_name_def seg_def)
qed simp

lemma zpath_append: "zpath (as @ bs) = zpath as @ zpath bs"
  by (induction as) auto

text \<open>The client is a store of paths.\<close>

lemma zk_path_store:
  assumes "zk_documented api nodes"
  shows "path_store (\<lambda>_. comps) (\<lambda>z. dom (nodes z)) (\<lambda>z k. \<exists>w. nodes z k = Some (w, False)) (exist_node api)
    (\<lambda>p. create_node api p None NORMAL_NODE)
    (\<lambda>z z' k. nodes z' k = nodes z k \<or> nodes z k = None \<and> nodes z' k = Some (None, False)) canonical"
proof
  fix z p
  show "canonical p \<Longrightarrow> exist_node api z p \<longleftrightarrow> comps p \<in> dom (nodes z)"
    using assms by (auto simp: exist_node_def zk_documented_def)
  assume p: "canonical p" "comps p \<notin> dom (nodes z)" "\<exists>w. nodes z (butlast (comps p)) = Some (w, False)"
  then obtain z' where z': "zoo_create api p None False z = (ZOK, z')" "nodes z' = (nodes z)(comps p \<mapsto> (None, False))"
    using assms unfolding zk_documented_def by (metis domIff)
  then show "\<exists>s'. create_node api p None NORMAL_NODE z = (0, s') \<and> comps = comps
      \<and> dom (nodes s') = insert (comps p) (dom (nodes z)) \<and> (\<exists>w. nodes s' (comps p) = Some (w, False))
      \<and> (\<forall>k. (\<exists>w. nodes z k = Some (w, False)) \<longrightarrow> (\<exists>w. nodes s' k = Some (w, False)))
      \<and> (\<forall>k. nodes s' k = nodes z k \<or> nodes z k = None \<and> nodes s' k = Some (None, False))"
    using p(2) by (intro exI [of _ z']) (auto simp: create_node_def)
qed auto

section \<open>Ephemeral nodes and their ancestors\<close>

lemma make_nodes_ensure:
  "ensure_all (exist_node api) (\<lambda>p. create_node api p None NORMAL_NODE) ps z = (0, z') \<Longrightarrow> make_nodes api ps z = z'"
  by (induction api ps z rule: make_nodes.induct) (auto split: prod.splits if_splits)

text \<open>The prefixes the walk stops at, for the path of a list of names with a slash at its end.\<close>

lemma slash_prefixes_zpath:
  "list_all znode_name (n # ns) \<Longrightarrow>
     slash_prefixes (zpath as @ ''/'') (n @ zpath ns @ ''/'') =
       map (\<lambda>i. zpath (as @ take i (n # ns))) [1 ..< Suc (length (n # ns))]"
proof (induction ns arbitrary: as n)
  case Nil
  then show ?case
    using slash_prefixes_step [of n "zpath as @ ''/''" "[]"]
    by (simp add: znode_name_def slash_prefixes_stop zpath_append)
next
  case (Cons m ns)
  have n: "CHR ''/'' \<notin> set n" "n \<noteq> []" using Cons.prems by (simp_all add: znode_name_def)
  have "slash_prefixes (zpath as @ ''/'') (n @ zpath (m # ns) @ ''/'')
      = zpath (as @ [n]) # slash_prefixes (zpath (as @ [n]) @ ''/'') (m @ zpath ns @ ''/'')"
    using slash_prefixes_step [OF n, of "zpath as @ ''/''" "m @ zpath ns @ ''/''"] by (simp add: zpath_append)
  also have "slash_prefixes (zpath (as @ [n]) @ ''/'') (m @ zpath ns @ ''/'')
      = map (\<lambda>i. zpath ((as @ [n]) @ take i (m # ns))) [1 ..< Suc (length (m # ns))]"
    using Cons by simp
  also have "\<dots> = map (\<lambda>i. zpath (as @ take i (n # m # ns))) [2 ..< Suc (length (n # m # ns))]"
  proof -
    have "[2 ..< Suc (length (n # m # ns))] = map Suc [1 ..< Suc (length (m # ns))]"
      by (simp add: map_Suc_upt numeral_2_eq_2 del: upt_Suc)
    then show ?thesis by simp
  qed
  also have "zpath (as @ [n]) # \<dots> = map (\<lambda>i. zpath (as @ take i (n # m # ns))) [1 ..< Suc (length (n # m # ns))]"
    by (subst (2) upt_conv_Cons) (simp_all add: numeral_2_eq_2 del: upt_Suc)
  finally show ?case .
qed

text \<open>No ephemeral node is above: it could not have children.\<close>

definition no_ephemeral_above :: "znodes \<Rightarrow> string list \<Rightarrow> bool" where
  "no_ephemeral_above t ns \<longleftrightarrow>
     list_all (\<lambda>i. case t (take i ns) of Some (_, e) \<Rightarrow> \<not> e | None \<Rightarrow> i \<noteq> 0) [0 ..< length ns]"

lemma no_ephemeral_aboveD:
  assumes "no_ephemeral_above t (ns @ [n])"
  shows "\<exists>w. t [] = Some (w, False)" and "t (take i ns) = Some (w, e) \<Longrightarrow> \<not> e"
proof -
  have all: "case t (take i (ns @ [n])) of Some (_, e) \<Rightarrow> \<not> e | None \<Rightarrow> i \<noteq> 0" if "i \<le> length ns" for i
    using assms that by (auto simp: no_ephemeral_above_def list_all_iff)
  show "\<exists>w. t [] = Some (w, False)" using all [of 0] by (auto split: option.splits)
  have "take i ns = take (min i (length ns)) (ns @ [n])" by (simp add: min_def)
  then show "t (take i ns) = Some (w, e) \<Longrightarrow> \<not> e" using all [of "min i (length ns)"] by (auto split: option.splits)
qed

lemma canonical_prefix:
  assumes "list_all znode_name ns" and "0 < i" and "ns \<noteq> []"
  shows "canonical (zpath (take i ns)) \<and> comps (zpath (take i ns)) \<in> range (\<lambda>i. take i ns)"
proof -
  have ok: "list_all znode_name (take i ns)" using assms(1) by (auto simp: list_all_iff dest: in_set_takeD)
  moreover have "take i ns \<noteq> []" using assms(2,3) by simp
  ultimately show ?thesis using comps_zpath [OF ok] unfolding canonical_def by blast
qed

lemma created_along:
  assumes "dom t' = dom t \<union> {take i ns | i. True}" and "t' k = t k \<or> t k = None \<and> t' k = Some v"
  shows "t' k = (if t k = None \<and> k \<in> range (\<lambda>i. take i ns) then Some v else t k)"
proof -
  have "{take i ns | i. True} = range (\<lambda>i. take i ns)" by auto
  then have "t' k \<noteq> None \<longleftrightarrow> t k \<noteq> None \<or> k \<in> range (\<lambda>i. take i ns)" using assms(1) by (simp add: domIff set_eq_iff)
  with assms(2) show ?thesis by (cases "t k = None"; cases "k \<in> range (\<lambda>i. take i ns)") auto
qed

lemma make_sure_node_path_creates:
  assumes doc: "zk_documented api nodes" and names: "list_all znode_name ns" "ns \<noteq> []"
    and above: "no_ephemeral_above (nodes z) (ns @ [n])"
  shows "\<exists>z'. make_sure_node_path api (Some (zpath ns @ ''/'')) z = (0, z')
    \<and> (\<forall>k. nodes z' k = (if nodes z k = None \<and> k \<in> range (\<lambda>i. take i ns) then Some (None, False) else nodes z k))"
proof -
  note store = zk_path_store [OF doc]
  obtain m ms where ns: "ns = m # ms" using names(2) by (cases ns) auto
  let ?ps = "map (\<lambda>i. zpath (take i ns)) [1 ..< length ns]"
  have cuts: "slash_prefixes ''/'' (m @ zpath ms @ ''/'') = ?ps @ [zpath ns]"
    using slash_prefixes_zpath [of m ms "[]"] names(1) ns by simp
  have valid: "canonical x \<and> comps x \<in> range (\<lambda>i. take i ns)" if x: "x \<in> set (?ps @ [zpath ns])" for x
  proof -
    have "\<exists>i. x = zpath (take i ns) \<and> 0 < i"
    proof (cases "x \<in> set ?ps")
      case True
      then show ?thesis by auto
    next
      case False
      then show ?thesis using x names(2) by (intro exI [of _ "length ns"]) simp
    qed
    then obtain i where i: "x = zpath (take i ns)" "0 < i" by blast
    from canonical_prefix [OF names(1) i(2) names(2)] show ?thesis unfolding i(1) by blast
  qed
  have last: "comps (zpath ns) = ns" by (rule comps_zpath [OF names(1)])
  have "comps ''/'' = []" by simp
  then have chain: "chain [] (map comps (?ps @ [zpath ns]))"
    using slash_prefixes_chain [of "''/''" "[]" "m @ zpath ms @ ''/''"] unfolding cuts by (simp only: append_Nil)
  have clear: "path_store.clear_for (\<lambda>z. dom (nodes z)) (\<lambda>z k. \<exists>w. nodes z k = Some (w, False)) z (take i ns)" for i
  proof -
    have "butlast (take i ns) = take (min i (length ns) - 1) ns"
      by (cases "i \<le> length ns") (simp_all add: butlast_take butlast_conv_take min_def)
    then show ?thesis
      unfolding path_store.clear_for_def [OF store]
      using no_ephemeral_aboveD(2) [OF above, of "min i (length ns) - 1"]
      by (cases "nodes z (butlast (take i ns))") auto
  qed
  have root: "[] \<in> dom (nodes z)" using no_ephemeral_aboveD(1) [OF above] by auto
  have canon: "\<forall>x \<in> set (?ps @ [zpath ns]). canonical x" using valid by blast
  obtain z' where z': "ensure_all (exist_node api) (\<lambda>p. create_node api p None NORMAL_NODE) (?ps @ [zpath ns]) z = (0, z')"
    "dom (nodes z') = dom (nodes z) \<union> {take i ns | i. True}"
    "\<forall>k. nodes z' k = nodes z k \<or> nodes z k = None \<and> nodes z' k = Some (None, False)"
    using path_store.walk_reaches [OF store, of "[]" z ?ps "zpath ns"] root chain canon clear
    unfolding path_store.made_def [OF store] last by auto
  have "make_sure_node_path api (Some (zpath ns @ ''/'')) z = (0, z')"
    using make_nodes_ensure [OF z'(1)] cuts ns by (simp add: make_sure_node_path_def)
  moreover have "nodes z' k = (if nodes z k = None \<and> k \<in> range (\<lambda>i. take i ns) then Some (None, False) else nodes z k)" for k
    using z'(3) by (intro created_along [OF z'(2)]) blast
  ultimately show ?thesis by blast
qed

lemma make_sure_enode_creates:
  assumes doc: "zk_documented api nodes" and names: "list_all znode_name (ns @ [n])" "ns \<noteq> []"
    and above: "no_ephemeral_above (nodes z) (ns @ [n])"
  shows "\<exists>r z'. make_sure_enode api (zpath (ns @ [n])) val z = (r, z')
    \<and> r = (if nodes z (ns @ [n]) = None then 0 else -1)
    \<and> (\<forall>k. nodes z' k =
          (if nodes z k \<noteq> None then nodes z k
           else if k = ns @ [n] then Some (val, True)
           else if k \<in> range (\<lambda>i. take i ns) then Some (None, False) else None))"
proof -
  let ?path = "zpath (ns @ [n])"
  have path: "?path = zpath ns @ CHR ''/'' # n" by (simp add: zpath_append)
  have n: "CHR ''/'' \<notin> set n" using names(1) by (simp add: znode_name_def)
  have pos: "length (zpath ns) \<noteq> 0" using names(2) by (cases ns) auto
  obtain z1 where z1: "make_sure_node_path api (Some (zpath ns @ ''/'')) z = (0, z1)"
    "\<forall>k. nodes z1 k = (if nodes z k = None \<and> k \<in> range (\<lambda>i. take i ns) then Some (None, False) else nodes z k)"
    using make_sure_node_path_creates [OF doc _ names(2) above] names(1) by auto
  have run: "make_sure_enode api ?path val z = create_node api ?path val EPHEMERAL_NODE z1"
    using pos strrchr_append [OF n, of "zpath ns"] z1(1) by (simp add: make_sure_enode_def path)
  have canon: "canonical ?path" using names(1) by (auto simp: canonical_def)
  have c: "comps ?path = ns @ [n]" by (rule comps_zpath [OF names(1)])
  have far: "ns @ [n] \<notin> range (\<lambda>i. take i ns)" by (auto dest: arg_cong [of _ _ length])
  have "ns \<in> range (\<lambda>i. take i ns)" by (rule range_eqI [of _ _ "length ns"]) simp
  then have parent: "\<exists>w. nodes z1 ns = Some (w, False)"
    using z1(2) no_ephemeral_aboveD(2) [OF above, of "length ns"] by (cases "nodes z ns") auto
  show ?thesis
  proof (cases "nodes z (ns @ [n])")
    case None
    then have "nodes z1 (comps ?path) = None" using z1(2) far c by simp
    moreover obtain w where "nodes z1 (butlast (comps ?path)) = Some (w, False)" using parent c by auto
    ultimately obtain z' where "zoo_create api ?path val True z1 = (ZOK, z')"
      "nodes z' = (nodes z1)(comps ?path \<mapsto> (val, True))"
      using doc canon unfolding zk_documented_def by blast
    then show ?thesis
      using run None z1(2) c far by (intro exI [of _ 0] exI [of _ z']) (auto simp: create_node_def)
  next
    case (Some v)
    then have "nodes z1 (comps ?path) \<noteq> None" using z1(2) far c by simp
    then obtain rc z' where "zoo_create api ?path val True z1 = (rc, z')" "rc \<noteq> ZOK" "nodes z' = nodes z1"
      using doc canon unfolding zk_documented_def by blast
    then show ?thesis
      using run Some z1(2) by (intro exI [of _ "-1"] exI [of _ z']) (auto simp: create_node_def)
  qed
qed

text \<open>
  C32: registering an ephemeral node.  On a client that behaves as documented, for a path of two
  or more names, \<open>make_sure_enode\<close> creates the missing ancestors as ordinary nodes and then the
  node with its value, whatever part of the path exists, and touches no other node; when the
  node exists already, say from a session that has not expired yet, it fails and the ancestors
  are all it leaves.
\<close>

theorem make_sure_enode_spec:
  assumes doc: "zk_documented api nodes" and names: "list_all znode_name (ns @ [n])" "ns \<noteq> []"
    and above: "no_ephemeral_above (nodes z) (ns @ [n])"
  shows "\<exists>r z'. make_sure_enode api (zpath (ns @ [n])) val z = (r, z')
    \<and> r = (if nodes z (ns @ [n]) = None then 0 else -1)
    \<and> (\<forall>k. nodes z' k =
          (if nodes z k \<noteq> None then nodes z k
           else if k = ns @ [n] then Some (val, True)
           else if k \<in> range (\<lambda>i. take i ns) then Some (None, False) else None))"
  using assms by (rule make_sure_enode_creates)

text \<open>A client whose state is the tree itself.\<close>

definition tree_client :: "znodes zk_client" where
  "tree_client = \<lparr>zookeeper_init = (\<lambda>_ z. (True, z)), zookeeper_close = (\<lambda>z. (ZOK, z)),
     zoo_exists = (\<lambda>p z. if z (comps p) = None then -101 else ZOK),
     zoo_create = (\<lambda>p v e z. if z (comps p) \<noteq> None then (-110, z)
        else (case z (butlast (comps p)) of Some (_, False) \<Rightarrow> (ZOK, z(comps p \<mapsto> (v, e))) | _ \<Rightarrow> (-101, z))),
     zoo_delete = (\<lambda>p z. if z (comps p) = None then (-101, z) else (ZOK, z(comps p := None))),
     zoo_wget = (\<lambda>p _ z. (-101, [], z)),
     zoo_wget_children2 = (\<lambda>p _ z. (-101, None, z))\<rparr>"

lemma tree_client_documented: "zk_documented tree_client (\<lambda>z. z)"
  by (auto simp: zk_documented_def tree_client_def ZOK_def)

theorem make_sure_enode_spec_witness:
  "\<exists>z'. make_sure_enode tree_client ''/shop/providers/x'' (Some ''v'') [[] \<mapsto> (None, False)] = (0, z')
     \<and> z' [''shop'', ''providers'', ''x''] = Some (Some ''v'', True) \<and> z' [''shop''] = Some (None, False)"
proof -
  let ?z = "[[] \<mapsto> (None, False)] :: znodes"
  have "list_all znode_name [''shop'', ''providers'', ''x'']" by code_simp
  moreover have "no_ephemeral_above ?z ([''shop'', ''providers''] @ [''x''])"
    by (simp add: no_ephemeral_above_def upt_rec)
  ultimately obtain z' where z': "make_sure_enode tree_client (zpath [''shop'', ''providers'', ''x'']) (Some ''v'') ?z = (0, z')"
    "\<forall>k. z' k = (if ?z k \<noteq> None then ?z k
           else if k = [''shop'', ''providers'', ''x''] then Some (Some ''v'', True)
           else if k \<in> range (\<lambda>i. take i [''shop'', ''providers'']) then Some (None, False) else None)"
    using make_sure_enode_spec [OF tree_client_documented, of "[''shop'', ''providers'']" "''x''" ?z "Some ''v''"]
    by auto
  have "[''shop''] \<in> range (\<lambda>i. take i [''shop'', ''providers''])" by (rule range_eqI [of _ _ 1]) simp
  then show ?thesis using z' by (intro exI [of _ z']) simp
qed

end
