(* ===== verification/Invoke_Stub.thy ===== *)
theory Invoke_Stub
  imports Resource_Mgt Register_Info Zk_Handle
begin

text \<open>
  soaagent/invoke_stub.c: the agent's state, the reaction to registry events, the watching of
  the declared services, and the call of a service.  The registry callbacks run under
  \<open>modify_resource_lock\<close>, the watching under \<open>watch_lock\<close>; \<open>api\<close> is the ZooKeeper client.
\<close>

section \<open>Watcher contexts\<close>

datatype execute_type = EXE_FULL | EXE_INCREMENT

record change_context =
  exe_type :: execute_type
  node_group_value :: string

definition MAX_GROUP_VALUE_LEN :: nat where "MAX_GROUP_VALUE_LEN = 512"
definition MAX_NODE_PATH_LEN :: nat where "MAX_NODE_PATH_LEN = 1024 * 10 + MAX_GROUP_VALUE_LEN + 100"

text \<open>
  The contexts live in a growing array.  \<open>utarray_reserve\<close> doubles it with \<open>realloc\<close> when it is
  full, which makes every pointer into the old block invalid: a pointer is the number of its
  block and an index.
\<close>

record context_array =
  block :: nat
  capacity :: nat
  contexts :: "change_context list"

type_synonym context_ptr = "nat \<times> nat"

definition contexts_new :: context_array where
  "contexts_new = \<lparr>block = 0, capacity = 0, contexts = []\<rparr>"

definition contexts_push :: "change_context \<Rightarrow> context_array \<Rightarrow> context_array" where
  "contexts_push c a =
     (let a = (if length (contexts a) + 1 > capacity a
               then a\<lparr>block := Suc (block a), capacity := (if capacity a = 0 then 8 else 2 * capacity a)\<rparr>
               else a)
      in a\<lparr>contexts := contexts a @ [c]\<rparr>)"

definition contexts_at :: "context_ptr \<Rightarrow> context_array \<Rightarrow> fault + change_context" where
  "contexts_at p a =
     (if fst p = block a \<and> snd p < length (contexts a) then Inr (contexts a ! snd p) else Inl OutOfBounds)"

section \<open>The agent's state\<close>

record 'z agent =
  rs :: resources
  filters :: service_filters
  mapping :: register_mapping
  watchers :: context_array
  last_modified :: nat
  disk :: filesystem
  zk :: 'z

section \<open>Changes of the registry\<close>

definition notify_change :: "config \<Rightarrow> register_info \<Rightarrow> resources \<Rightarrow> resources" where
  "notify_change cfg reg_info r =
     (let s = srv_info reg_info in
      if status reg_info = -1 then
        resource_delete (group_value s) (service_value s) (version_value s) (host_value reg_info) (port_value reg_info) r
      else if status reg_info = 1 then
        resource_add cfg (group_value s) (service_value s) (version_value s) (host_value reg_info) (port_value reg_info) r
      else r)"

text \<open>The loop over the names of the children; a failed parse is only reported.\<close>

fun decode_children ::
  "service_filters \<Rightarrow> string list \<Rightarrow> register_info_array option \<Rightarrow> fault + register_info_array option" where
  "decode_children fs [] remote = Inr remote"
| "decode_children fs (node_name # node_names) remote =
     after (url_decode_call node_name) (\<lambda>debuf.
     after (parse_node_register_info fs remote debuf) (\<lambda>(ret, remote).
       decode_children fs node_names remote))"

definition children_change_func_impl ::
  "config \<Rightarrow> execute_type \<Rightarrow> string \<Rightarrow> string list \<Rightarrow> 'z agent \<Rightarrow> fault + 'z agent" where
  "children_change_func_impl cfg exe node_group node_names st =
     after (decode_children (filters st) node_names None) (\<lambda>remote.
       let local = register_mapping_find (mapping st) node_group;
           diff = diff_register_info local remote;
           r = (case diff of None \<Rightarrow> rs st | Some ds \<Rightarrow> fold (notify_change cfg) ds (rs st))
       in Inr (st\<lparr>rs := r, mapping := register_mapping_put node_group remote (mapping st)\<rparr>))"

text \<open>\<open>get_children\<close> with that callback and a context.\<close>

definition get_group_children ::
  "'z zk_client \<Rightarrow> config \<Rightarrow> context_ptr \<Rightarrow> change_context \<Rightarrow> 'z agent \<Rightarrow> fault + int \<times> 'z agent" where
  "get_group_children api cfg ptr cxt st =
     after (get_children api (node_group_value cxt) ptr
              (children_change_func_impl cfg (exe_type cxt) (node_group_value cxt)) (zk st) st)
       (\<lambda>(ret, z, st). Inr (ret, st\<lparr>zk := z\<rparr>))"

text \<open>The key is printed with a length that is larger than the buffer.\<close>

definition watch_group_change :: "'z zk_client \<Rightarrow> config \<Rightarrow> string \<Rightarrow> 'z agent \<Rightarrow> fault + 'z agent" where
  "watch_group_change api cfg group_name st =
     (let path = provider_construct_key group_name MAX_NODE_PATH_LEN in
      if MAX_GROUP_VALUE_LEN \<le> length path then Inl OutOfBounds
      else
        let cxt = \<lparr>exe_type = EXE_FULL, node_group_value = path\<rparr>;
            a = contexts_push cxt (watchers st)
        in after (get_group_children api cfg (block a, length (contexts a) - 1) cxt (st\<lparr>watchers := a\<rparr>))
             (\<lambda>(ret, st). Inr st))"

section \<open>The declared services\<close>

text \<open>The inner and the outer loop of \<open>watch_declared_services\<close>.\<close>

fun declare_services ::
  "string option \<Rightarrow> json option \<Rightarrow> nat list \<Rightarrow> service_filters \<Rightarrow> fault + service_filters" where
  "declare_services group_name services_array [] fs = Inr fs"
| "declare_services group_name services_array (j # js) fs =
     after (cJSON_GetArrayItem services_array j) (\<lambda>service_item.
     after (cJSON_GetObjectItem service_item ''service'') (\<lambda>i. after (valuestring i) (\<lambda>service_name.
     after (cJSON_GetObjectItem service_item ''version'') (\<lambda>i. after (valuestring i) (\<lambda>ver_value.
     after (the_string group_name) (\<lambda>g. after (the_string service_name) (\<lambda>s. after (the_string ver_value) (\<lambda>v.
       declare_services group_name services_array js (service_filter_add fs (service_filter_padding g s v))))))))))"

fun declare_groups ::
  "json option \<Rightarrow> nat list \<Rightarrow> string_array \<Rightarrow> service_filters \<Rightarrow> fault + string_array \<times> service_filters" where
  "declare_groups root [] names fs = Inr (names, fs)"
| "declare_groups root (i # is) names fs =
     after (cJSON_GetArrayItem root i) (\<lambda>define_item.
     after (cJSON_GetObjectItem define_item ''group'') (\<lambda>x. after (valuestring x) (\<lambda>group_name.
     after (the_string group_name) (\<lambda>g.
     after (cJSON_GetObjectItem define_item ''services'') (\<lambda>services_array.
     after (cJSON_GetArraySize services_array) (\<lambda>srv_len.
     after (declare_services group_name services_array [0 ..< srv_len] fs) (\<lambda>fs.
       declare_groups root is (string_array_add names g) fs)))))))"

definition watch_declared_services ::
  "'z zk_client \<Rightarrow> config \<Rightarrow> string \<Rightarrow> bool \<Rightarrow> 'z agent \<Rightarrow> fault + int \<times> 'z agent" where
  "watch_declared_services api cfg config_file_path force_refresh st =
     (if \<not> is_path_exist (disk st) config_file_path then Inr (-1, st)
      else
        let modified = get_file_last_modified config_file_path (disk st) in
        if \<not> force_refresh \<and> modified = last_modified st then Inr (0, st)
        else
          (case read_content_from_file (Some config_file_path) (disk st) of
             None \<Rightarrow> Inr (-1, st)
           | Some content \<Rightarrow>
               after (cJSON_Parse (c_string content)) (\<lambda>root.
                 case root of
                   None \<Rightarrow> Inr (-1, st)
                 | Some _ \<Rightarrow>
                     after (cJSON_GetArraySize root) (\<lambda>array_len.
                     after (declare_groups root [0 ..< array_len] string_array_init (filters st)) (\<lambda>(names, fs).
                     after (string_array_walk names
                              (Some (\<lambda>g r. after r (watch_group_change api cfg g))) (Inr (st\<lparr>filters := fs\<rparr>)))
                       (\<lambda>st. Inr (0, st\<lparr>last_modified := get_file_last_modified config_file_path (disk st)\<rparr>)))))))"

section \<open>Events\<close>

datatype zoo_event = ZOO_CREATED_EVENT | ZOO_DELETED_EVENT | ZOO_CHANGED_EVENT | ZOO_CHILD_EVENT
  | ZOO_SESSION_EVENT | ZOO_NOTWATCHING_EVENT

datatype zoo_state = ZOO_EXPIRED_SESSION_STATE | ZOO_AUTH_FAILED_STATE | ZOO_CONNECTING_STATE
  | ZOO_ASSOCIATING_STATE | ZOO_CONNECTED_STATE

text \<open>What the handle remembers: the addresses and the file of declarations.\<close>

definition MAX_ZK_ADDR_LEN :: nat where "MAX_ZK_ADDR_LEN = 4096"

record zk_handle =
  zk_addrs :: string
  config_file_path :: string
  agent_pid :: int

definition my_zk_watcher_marshal ::
  "'z zk_client \<Rightarrow> config \<Rightarrow> zk_handle \<Rightarrow> zoo_event \<Rightarrow> zoo_state \<Rightarrow> context_ptr \<Rightarrow> 'z agent \<Rightarrow> fault + 'z agent" where
  "my_zk_watcher_marshal api cfg h type state context st =
     after (if type = ZOO_CHILD_EVENT then
              after (contexts_at context (watchers st)) (\<lambda>cxt.
                let cxt = cxt\<lparr>exe_type := EXE_INCREMENT\<rparr>;
                    st = st\<lparr>watchers := (watchers st)\<lparr>contexts := (contexts (watchers st))[snd context := cxt]\<rparr>\<rparr>
                in after (get_group_children api cfg context cxt st) (\<lambda>(ret, st). Inr st))
            else Inr st)
       (\<lambda>st.
          if type = ZOO_SESSION_EVENT \<and> state = ZOO_EXPIRED_SESSION_STATE then
            (let (_, z) = fini_zk_handle api (zk st);
                 (r, z, fs) = init_zk_handle api (zk_addrs h) (agent_pid h) z (disk st);
                 st = st\<lparr>zk := z, disk := fs\<rparr>
             in if r \<noteq> 0 then Inr st
                else after (watch_declared_services api cfg (config_file_path h) True st) (\<lambda>(_, st). Inr st))
          else Inr st)"

definition refresh_declared_services ::
  "'z zk_client \<Rightarrow> config \<Rightarrow> zk_handle \<Rightarrow> 'z agent \<Rightarrow> fault + int \<times> 'z agent" where
  "refresh_declared_services api cfg h st =
     after (watch_declared_services api cfg (config_file_path h) False st) (\<lambda>(_, st). Inr (0, st))"

definition show_resource_status :: "'z agent \<Rightarrow> string \<times> string" where
  "show_resource_status st = (service_resource_status 81920 (rs st), node_resource_status 81920 (rs st))"

definition invoke_stub_init ::
  "'z zk_client \<Rightarrow> config \<Rightarrow> string \<Rightarrow> string \<Rightarrow> int \<Rightarrow> world \<Rightarrow> filesystem \<Rightarrow> 'z
     \<Rightarrow> fault + int \<times> zk_handle \<times> 'z agent" where
  "invoke_stub_init api cfg addrs config_file pid w fs z =
     (let h = \<lparr>zk_addrs = snprintf_s MAX_ZK_ADDR_LEN addrs, config_file_path = snprintf_s PATH_MAX config_file,
               agent_pid = pid\<rparr>;
          (r, z, fs) = init_zk_handle api (zk_addrs h) pid z fs;
          st = \<lparr>rs = service_resource_init (node_resource_init w), filters = service_filter_init,
                mapping = register_mapping_init, watchers = contexts_new, last_modified = 0, disk = fs, zk = z\<rparr>
      in if r \<noteq> 0 then Inr (-1, h, st)
         else after (watch_declared_services api cfg config_file True st) (\<lambda>(r, st).
                Inr (if r \<noteq> 0 then -1 else 0, h, st)))"

text \<open>
  The end, with the flag \<open>g_inited\<close>.  The block of watcher contexts is freed; a node whose pool
  cannot be destroyed is freed all the same (theory Resource\_Mgt).
\<close>

definition invoke_stub_destroy :: "'z zk_client \<Rightarrow> bool \<Rightarrow> 'z agent \<Rightarrow> fault + int \<times> bool \<times> 'z agent" where
  "invoke_stub_destroy api g_inited st =
     (if g_inited then
        let st = st\<lparr>watchers := \<lparr>block = Suc (block (watchers st)), capacity = 0, contexts = []\<rparr>, filters := []\<rparr>;
            (_, z) = fini_zk_handle api (zk st)
        in after (node_resource_destroy (service_resource_destroy (rs st))) (\<lambda>r.
             Inr (0, False, st\<lparr>zk := z, rs := r, mapping := register_mapping_destroy (mapping st)\<rparr>))
      else Inr (0, False, st))"

end
