(* ===== verification/Agent_Routes.thy ===== *)
theory Agent_Routes
  imports Invoke_Stub
begin

text \<open>
  What the agent's registry handling achieves: in every reachable state the resources are well
  formed, and the routes are exactly those of the registrations last read for each watched group
  when what is read is the group's own (\<open>providers_honest\<close>).  The registry's events, the calls
  and the maintenance run one after another here, each to its end.
\<close>

section \<open>Endpoints and routes\<close>

type_synonym endpoint = "service_info \<times> string \<times> int"

definition route_of :: "endpoint \<Rightarrow> string \<times> string" where
  "route_of = (\<lambda>(s, host, port).
     (service_key_of (group_value s) (service_value s) (version_value s), node_key_of host port))"

text \<open>An endpoint that belongs to the group of provider key \<open>k\<close>, with fields that fit and hold no separator.\<close>

definition genuine :: "string \<Rightarrow> endpoint \<Rightarrow> bool" where
  "genuine k = (\<lambda>(s, host, port).
     k = provider_construct_key (group_value s) MAX_NODE_PATH_LEN
     \<and> CHR ''#'' \<notin> set (group_value s) \<and> CHR ''#'' \<notin> set (service_value s) \<and> CHR ''#'' \<notin> set host
     \<and> length (group_value s) < FIELD_GROUP_LEN \<and> length (service_value s) < FIELD_SERVICE_LEN
     \<and> length (version_value s) < FIELD_VERSION_LEN \<and> length host < FIELD_HOST_LEN \<and> 0 \<le> port \<and> port < 65536)"

lemma route_of_inject:
  assumes "genuine k e" and "genuine k' e'" and "route_of e = route_of e'"
  shows "e = e' \<and> k = k'"
proof -
  obtain s h p s' h' p' where e: "e = (s, h, p)" "e' = (s', h', p')" by (metis prod_cases3)
  have "service_key_of (group_value s) (service_value s) (version_value s)
      = service_key_of (group_value s') (service_value s') (version_value s')"
    and "node_key_of h p = node_key_of h' p'" using assms(3) by (simp_all add: route_of_def e)
  then have "group_value s = group_value s'" "service_value s = service_value s'" "version_value s = version_value s'"
    "h = h'" "p = p'"
    using assms(1,2) service_key_inject [of "group_value s" "service_value s" "group_value s'" "service_value s'"
        "version_value s" "version_value s'"] node_key_inject [of h h' p p']
    by (simp_all add: genuine_def e service_key_of_def node_key_of_def)
  then show ?thesis using assms(1,2) by (simp add: genuine_def e)
qed

section \<open>Applying a difference\<close>

lemma notify_change_keeps:
  assumes "res_ok r"
  shows "status i = -1 \<Longrightarrow> res_ok (notify_change cfg i r) \<and> routes (notify_change cfg i r) = routes r - {route_of (endpoint i)}"
    and "status i = 1 \<Longrightarrow> res_ok (notify_change cfg i r) \<and> routes (notify_change cfg i r) = insert (route_of (endpoint i)) (routes r)"
  using resource_delete_keeps [OF assms] resource_add_keeps [OF assms]
  by (simp_all add: notify_change_def Let_def route_of_def endpoint_def)

text \<open>Whatever the changes, the resources stay well formed and within the limits.\<close>

lemma notify_change_wf:
  "res_ok r \<Longrightarrow> res_ok (notify_change cfg i r) \<and> (fds_fit (world r) \<longrightarrow> fds_fit (world (notify_change cfg i r)))"
  using resource_delete_keeps [of r] resource_add_keeps [of r] resource_add_bounded(1) [of r] resource_delete_bounded [of r]
  by (auto simp: notify_change_def Let_def stays_bounded_def)

lemma notify_changes_wf:
  "res_ok r \<Longrightarrow> res_ok (fold (notify_change cfg) ds r)
     \<and> (fds_fit (world r) \<longrightarrow> fds_fit (world (fold (notify_change cfg) ds r)))"
proof (induction ds arbitrary: r)
  case (Cons d ds)
  then show ?case using notify_change_wf [of r cfg d] by auto
qed simp

lemma notify_deletes:
  "res_ok r \<Longrightarrow> \<forall>i \<in> set ds. status i = -1 \<Longrightarrow>
     res_ok (fold (notify_change cfg) ds r) \<and> routes (fold (notify_change cfg) ds r) = routes r - route_of ` endpoint ` set ds"
proof (induction ds arbitrary: r)
  case (Cons d ds)
  then have "res_ok (notify_change cfg d r)" "routes (notify_change cfg d r) = routes r - {route_of (endpoint d)}"
    using notify_change_keeps(1) [of r d cfg] by simp_all
  then show ?case using Cons by auto
qed simp

lemma notify_adds:
  "res_ok r \<Longrightarrow> \<forall>i \<in> set ds. status i = 1 \<Longrightarrow>
     res_ok (fold (notify_change cfg) ds r) \<and> routes (fold (notify_change cfg) ds r) = routes r \<union> route_of ` endpoint ` set ds"
proof (induction ds arbitrary: r)
  case (Cons d ds)
  then have "res_ok (notify_change cfg d r)" "routes (notify_change cfg d r) = insert (route_of (endpoint d)) (routes r)"
    using notify_change_keeps(2) [of r d cfg] by simp_all
  then show ?case using Cons by auto
qed simp

lemma notify_diff:
  fixes cfg and l m :: "register_info_array option"
  assumes "res_ok r"
  defines "r' \<equiv> (case diff_register_info l m of None \<Rightarrow> r | Some ds \<Rightarrow> fold (notify_change cfg) ds r)"
  shows "res_ok r' \<and> routes r' =
    routes r - route_of ` (endpoints l - endpoints m) \<union> route_of ` (endpoints m - endpoints l)"
proof (cases "l = None \<and> m = None")
  case True
  then show ?thesis using assms(1) by (simp add: r'_def diff_register_info_def endpoints_def)
next
  case False
  define dels where "dels = map (\<lambda>p. p\<lparr>status := -1\<rparr>) (filter (\<lambda>p. endpoint p \<notin> endpoints m) (case l of None \<Rightarrow> [] | Some ls \<Rightarrow> ls))"
  define adds where "adds = map (\<lambda>p. p\<lparr>status := 1\<rparr>) (filter (\<lambda>p. endpoint p \<notin> endpoints l) (case m of None \<Rightarrow> [] | Some ms \<Rightarrow> ms))"
  have r': "r' = fold (notify_change cfg) adds (fold (notify_change cfg) dels r)"
    using False by (auto simp: r'_def diff_register_info_map dels_def adds_def)
  have "endpoint ` set dels = endpoints l - endpoints m" "endpoint ` set adds = endpoints m - endpoints l"
    by (auto simp: dels_def adds_def endpoints_def image_iff split: option.splits)
  moreover have "\<forall>i \<in> set dels. status i = -1" "\<forall>i \<in> set adds. status i = 1" by (auto simp: dels_def adds_def)
  ultimately show ?thesis
    using notify_deletes [OF assms(1), of dels cfg] notify_adds [of "fold (notify_change cfg) dels r" adds cfg]
    unfolding r' by auto
qed

section \<open>The invariant\<close>

definition published :: "'z agent \<Rightarrow> string \<Rightarrow> endpoint set" where
  "published st k = endpoints (register_mapping_find (mapping st) k)"

definition agent_ok :: "'z agent \<Rightarrow> bool" where
  "agent_ok st \<longleftrightarrow> res_ok (rs st) \<and> (\<forall>k. \<forall>e \<in> published st k. genuine k e)
     \<and> routes (rs st) = (\<Union>k. route_of ` published st k)"

text \<open>What the providers of a group are trusted with.\<close>

definition honest :: "service_filters \<Rightarrow> string \<Rightarrow> string list \<Rightarrow> bool" where
  "honest fs k names \<longleftrightarrow> length k < PROVIDER_KEY_LEN \<and>
     (case decode_children fs names None of
        Inr (Some remote) \<Rightarrow> list_all (\<lambda>r. genuine k (endpoint r)) remote
      | _ \<Rightarrow> True)"

lemma find_after_put:
  "length k < PROVIDER_KEY_LEN \<Longrightarrow>
     register_mapping_find (register_mapping_put k v m) k' = (if k' = k then v else register_mapping_find m k')"
  using hash_find_put [of k v m k']
  by (simp add: register_mapping_find_def register_mapping_find_item_def register_mapping_put_hash)

lemma children_change_published:
  "length k < PROVIDER_KEY_LEN \<Longrightarrow> decode_children (filters st) ns None = Inr remote \<Longrightarrow>
     children_change_func_impl cfg exe k ns st = Inr st' \<Longrightarrow> published st' = (published st)(k := endpoints remote)"
  by (auto simp: children_change_func_impl_def Let_def published_def find_after_put fun_eq_iff)

text \<open>
  Taking away the routes of the endpoints that went and adding those of the endpoints that came leaves the
  routes of what is published now: endpoints of different groups have different routes.
\<close>

lemma route_union_replace:
  assumes genuine: "\<forall>j. \<forall>e \<in> P j. genuine j e"
  shows "(\<Union>j. route_of ` P j) - route_of ` (P k - R) \<union> route_of ` (R - P k) = (\<Union>j. route_of ` (P(k := R)) j)"
    (is "?L = ?M")
proof (intro set_eqI iffI)
  fix x assume "x \<in> ?L"
  then consider j e where "e \<in> P j" "x = route_of e" "x \<notin> route_of ` (P k - R)" | "x \<in> route_of ` (R - P k)" by blast
  then show "x \<in> ?M"
  proof cases
    case 1
    then have "e \<in> (P(k := R)) j" by auto
    with 1 show ?thesis by blast
  next
    case 2
    then have "x \<in> route_of ` (P(k := R)) k" by auto
    then show ?thesis by blast
  qed
next
  fix x assume "x \<in> ?M"
  then obtain j e where e: "e \<in> (P(k := R)) j" "x = route_of e" by blast
  show "x \<in> ?L"
  proof (cases "e \<in> P j")
    case True
    have "x \<notin> route_of ` (P k - R)"
    proof
      assume "x \<in> route_of ` (P k - R)"
      then obtain e' where e': "e' \<in> P k" "e' \<notin> R" "route_of e' = route_of e" using e by auto
      then have "e' = e \<and> k = j" using route_of_inject [of k e' j e] genuine True by blast
      then show False using e e' by simp
    qed
    then show ?thesis using True e(2) by blast
  next
    case False
    then have "j = k" "e \<in> R" using e by (auto split: if_splits)
    then show ?thesis using False e by blast
  qed
qed

lemma children_change_keeps:
  assumes ok: "agent_ok st" and honest: "honest (filters st) k names"
    and run: "children_change_func_impl cfg exe k names st = Inr st'"
  shows "agent_ok st' \<and> (\<exists>remote. decode_children (filters st) names None = Inr remote
    \<and> published st' = (published st)(k := endpoints remote))"
proof -
  obtain remote where remote: "decode_children (filters st) names None = Inr remote"
    "mapping st' = register_mapping_put k remote (mapping st)"
    "rs st' = (case diff_register_info (register_mapping_find (mapping st) k) remote of
       None \<Rightarrow> rs st | Some ds \<Rightarrow> fold (notify_change cfg) ds (rs st))"
    using run by (auto simp: children_change_func_impl_def Let_def)
  let ?L = "published st k" and ?R = "endpoints remote"
  have pub: "published st' = (published st)(k := ?R)"
    using honest remote(2) by (auto simp: published_def fun_eq_iff honest_def find_after_put)
  have gR: "\<forall>e \<in> ?R. genuine k e"
    using honest remote(1) by (auto simp: honest_def endpoints_def list_all_iff split: option.splits)
  have genuine: "\<forall>j. \<forall>e \<in> published st j. genuine j e" using ok by (simp add: agent_ok_def)
  have r': "res_ok (rs st')" "routes (rs st') = routes (rs st) - route_of ` (?L - ?R) \<union> route_of ` (?R - ?L)"
    using notify_diff [of "rs st" cfg "register_mapping_find (mapping st) k" remote] ok
    unfolding remote(3) published_def by (auto simp: agent_ok_def)
  have "routes (rs st) = (\<Union>j. route_of ` published st j)" using ok by (simp add: agent_ok_def)
  then have "routes (rs st') = (\<Union>j. route_of ` published st' j)"
    unfolding r'(2) pub using route_union_replace [OF genuine, of k ?R] by simp
  moreover have "\<forall>j. \<forall>e \<in> published st' j. genuine j e" using genuine gR by (simp add: pub)
  ultimately show ?thesis using r'(1) remote(1) pub unfolding agent_ok_def by blast
qed

lemma children_change_wf:
  assumes "res_ok (rs st)" and "children_change_func_impl cfg exe k names st = Inr st'"
  shows "res_ok (rs st') \<and> (fds_fit (world (rs st)) \<longrightarrow> fds_fit (world (rs st')))"
proof -
  obtain remote where rs: "rs st' = (case diff_register_info (register_mapping_find (mapping st) k) remote of
       None \<Rightarrow> rs st | Some ds \<Rightarrow> fold (notify_change cfg) ds (rs st))"
    using assms(2) by (auto simp: children_change_func_impl_def Let_def)
  from assms(1) show ?thesis unfolding rs by (simp add: notify_changes_wf split: option.split)
qed

section \<open>Through the callbacks\<close>

text \<open>
  The trust in the providers, as a property of what the ZooKeeper client answers: a successful
  listing of a group is made of endpoints of this group.
\<close>

definition providers_honest :: "'z zk_client \<Rightarrow> bool" where
  "providers_honest api \<longleftrightarrow>
     (\<forall>path ptr z z' names fs. zoo_wget_children2 api path ptr z = (ZOK, Some names, z') \<longrightarrow> honest fs path names)"

text \<open>
  The invariant of the whole agent: the resources are well formed, their connections fit into the
  set of \<open>select\<close> when \<open>fit\<close> is asked for, and the routes are right when the providers
  are trusted.
\<close>

definition agent_inv :: "bool \<Rightarrow> bool \<Rightarrow> 'z agent \<Rightarrow> bool" where
  "agent_inv trusted fit st \<longleftrightarrow>
     res_ok (rs st) \<and> (fit \<longrightarrow> fds_fit (world (rs st))) \<and> (trusted \<longrightarrow> agent_ok st)"

lemma agent_ok_fields [simp]:
  "agent_ok (st\<lparr>zk := z\<rparr>) = agent_ok st" "agent_ok (st\<lparr>watchers := a\<rparr>) = agent_ok st"
  "agent_ok (st\<lparr>disk := d\<rparr>) = agent_ok st" "agent_ok (st\<lparr>filters := f\<rparr>) = agent_ok st"
  "agent_ok (st\<lparr>last_modified := m\<rparr>) = agent_ok st"
  by (simp_all add: agent_ok_def published_def)

lemma agent_inv_fields [simp]:
  "agent_inv t f (st\<lparr>zk := z\<rparr>) = agent_inv t f st" "agent_inv t f (st\<lparr>watchers := a\<rparr>) = agent_inv t f st"
  "agent_inv t f (st\<lparr>disk := d\<rparr>) = agent_inv t f st" "agent_inv t f (st\<lparr>filters := fs\<rparr>) = agent_inv t f st"
  "agent_inv t f (st\<lparr>last_modified := m\<rparr>) = agent_inv t f st"
  by (simp_all add: agent_inv_def)

lemma get_group_children_keeps:
  assumes "tr \<longrightarrow> providers_honest api" and "agent_inv tr ft st"
  shows "yields (\<lambda>x. agent_inv tr ft (snd x)) (get_group_children api cfg ptr cxt st)"
proof -
  obtain rc names z where w: "zoo_wget_children2 api (node_group_value cxt) ptr (zk st) = (rc, names, z)"
    by (metis prod_cases3)
  show ?thesis
  proof (cases "rc = ZOK \<and> names \<noteq> None")
    case True
    then obtain ns where ns: "names = Some ns" by blast
    have honest: "tr \<longrightarrow> honest (filters st) (node_group_value cxt) ns"
      using assms(1) w True ns unfolding providers_honest_def by blast
    have keeps: "yields (agent_inv tr ft) (children_change_func_impl cfg (exe_type cxt) (node_group_value cxt) ns st)"
      using children_change_wf [of st cfg "exe_type cxt" "node_group_value cxt" ns]
        children_change_keeps [of st "node_group_value cxt" ns cfg "exe_type cxt"] honest assms(2)
      by (auto simp: yields_def agent_inv_def)
    have "get_group_children api cfg ptr cxt st =
      after (children_change_func_impl cfg (exe_type cxt) (node_group_value cxt) ns st) (\<lambda>st. Inr (0, st\<lparr>zk := z\<rparr>))"
      using w True ns by (cases "children_change_func_impl cfg (exe_type cxt) (node_group_value cxt) ns st")
        (simp_all add: get_group_children_def get_children_def)
    then show ?thesis by (simp add: yields_after [OF keeps])
  next
    case False
    then show ?thesis
      using assms(2) w by (auto simp: get_group_children_def get_children_def split: option.splits)
  qed
qed

lemma watch_group_change_keeps:
  assumes "tr \<longrightarrow> providers_honest api" and "agent_inv tr ft st"
  shows "yields (agent_inv tr ft) (watch_group_change api cfg g st)"
proof -
  have "yields (agent_inv tr ft) (after (get_group_children api cfg ptr cxt (st\<lparr>watchers := a\<rparr>)) (\<lambda>(ret, st). Inr st))" for ptr cxt a
    by (rule yields_after [OF get_group_children_keeps]) (use assms in \<open>auto split: prod.split\<close>)
  then show ?thesis
    unfolding watch_group_change_def Let_def by simp
qed

lemma watch_declared_services_keeps:
  assumes "tr \<longrightarrow> providers_honest api" and "agent_inv tr ft st"
  shows "yields (\<lambda>x. agent_inv tr ft (snd x)) (watch_declared_services api cfg path force st)"
proof -
  have walk: "yields (agent_inv tr ft) (string_array_walk names (Some (\<lambda>g r. after r (watch_group_change api cfg g))) (Inr (st\<lparr>filters := fs\<rparr>)))"
    for names fs
    unfolding string_array_walk_def option.case
    by (rule yields_fold) (simp_all add: watch_group_change_keeps assms)
  have found: "yields (\<lambda>x. agent_inv tr ft (snd x))
     (after (string_array_walk names (Some (\<lambda>g r. after r (watch_group_change api cfg g))) (Inr (st\<lparr>filters := fs\<rparr>)))
            (\<lambda>st. Inr (0, st\<lparr>last_modified := get_file_last_modified path (disk st)\<rparr>)))" for names fs
    by (rule yields_after [OF walk]) simp
  have parsed: "yields (\<lambda>x. agent_inv tr ft (snd x)) (case root of
      None \<Rightarrow> Inr (-1, st)
    | Some _ \<Rightarrow>
        after (cJSON_GetArraySize root) (\<lambda>array_len.
        after (declare_groups root [0 ..< array_len] string_array_init (filters st)) (\<lambda>(names, fs).
        after (string_array_walk names (Some (\<lambda>g r. after r (watch_group_change api cfg g))) (Inr (st\<lparr>filters := fs\<rparr>)))
          (\<lambda>st. Inr (0, st\<lparr>last_modified := get_file_last_modified path (disk st)\<rparr>)))))" for root
    by (cases root) (auto simp: assms(2) intro!: yields_after_any found)
  show ?thesis
    unfolding watch_declared_services_def Let_def
    by (cases "read_content_from_file (Some path) (disk st)") (auto simp: assms(2) intro!: yields_after_any parsed)
qed

lemma my_zk_watcher_marshal_keeps:
  assumes "tr \<longrightarrow> providers_honest api" and "agent_inv tr ft st"
  shows "yields (agent_inv tr ft) (my_zk_watcher_marshal api cfg h type state ptr st)"
  unfolding my_zk_watcher_marshal_def
proof (rule yields_after)
  have children: "yields (agent_inv tr ft) (after (get_group_children api cfg ptr cxt (st\<lparr>watchers := a\<rparr>)) (\<lambda>(ret, st). Inr st))" for cxt a
    by (rule yields_after [OF get_group_children_keeps]) (use assms in \<open>auto split: prod.split\<close>)
  show "yields (agent_inv tr ft) (if type = ZOO_CHILD_EVENT then
              after (contexts_at ptr (watchers st)) (\<lambda>cxt.
                let cxt = cxt\<lparr>exe_type := EXE_INCREMENT\<rparr>;
                    st = st\<lparr>watchers := (watchers st)\<lparr>contexts := (contexts (watchers st))[snd ptr := cxt]\<rparr>\<rparr>
                in after (get_group_children api cfg ptr cxt st) (\<lambda>(ret, st). Inr st))
            else Inr st)"
    unfolding Let_def by (simp add: assms(2) children yields_after_any)
next
  fix st1 :: "'a agent" assume st1: "agent_inv tr ft st1"
  have watch: "yields (agent_inv tr ft) (after (watch_declared_services api cfg path force (st1\<lparr>zk := z, disk := fs\<rparr>)) (\<lambda>(_, st). Inr st))"
    for path force z fs
    by (rule yields_after [OF watch_declared_services_keeps]) (use assms(1) st1 in \<open>auto split: prod.split\<close>)
  then show "yields (agent_inv tr ft) (if type = ZOO_SESSION_EVENT \<and> state = ZOO_EXPIRED_SESSION_STATE then
            (let (_, z) = fini_zk_handle api (zk st1);
                 (r, z, fs) = init_zk_handle api (zk_addrs h) (agent_pid h) z (disk st1);
                 st = st1\<lparr>zk := z, disk := fs\<rparr>
             in if r \<noteq> 0 then Inr st
                else after (watch_declared_services api cfg (config_file_path h) True st) (\<lambda>(_, st). Inr st))
          else Inr st1)"
    using st1 by (simp add: Let_def split: prod.split)
qed

section \<open>The reachable states\<close>

text \<open>
  What the agent does with the resources besides: a call looks up a node, takes a connection
  and returns it, the checker and the destroying threads maintain the pools.
\<close>

inductive worker_step :: "resources \<Rightarrow> resources \<Rightarrow> bool" where
  route: "service_resource_require_node_key g s v st = (key, st') \<Longrightarrow> worker_step st st'"
| require: "node_require_connection key st = Inr (conn, st') \<Longrightarrow> worker_step st st'"
| release: "hash_find (nodes st) k = Some q \<Longrightarrow> a \<in> set (used_conn_list q) \<Longrightarrow>
     node_release_connection (Some k) (Some a) st = Inr st' \<Longrightarrow> worker_step st st'"
| check: "conn_check_thd_func st = Inr st' \<Longrightarrow> worker_step st st'"
| destroy: "pool_destroy_thd_step i st = Inr st' \<Longrightarrow> worker_step st st'"

lemma worker_step_keeps:
  "worker_step r r' \<Longrightarrow> res_ok r \<Longrightarrow> res_ok r' \<and> routes r' = routes r \<and> stays_bounded r r'"
proof (induction rule: worker_step.induct)
  case (route g s v st key st')
  then show ?case using require_key_keeps [of st g s v] by simp
next
  case (require key st conn st')
  then show ?case using require_keeps [of st key] by auto
next
  case (release st k q a st')
  then show ?case using release_keeps [of st k q a] by auto
next
  case (check st st')
  then show ?case
    using check_nodes_keeps [of st "map fst (hash_iter (nodes st))"] by (auto simp: conn_check_thd_func_def)
next
  case (destroy i st st')
  then show ?case using destroy_step_keeps [of st i] by auto
qed

text \<open>
  A step of the agent: an event of the registry, the periodic refresh, the work of the other
  threads, or a change of the files and of the servers' state behind the client.
\<close>

inductive agent_step :: "'z zk_client \<Rightarrow> config \<Rightarrow> zk_handle \<Rightarrow> 'z agent \<Rightarrow> 'z agent \<Rightarrow> bool" for api cfg h where
  event: "my_zk_watcher_marshal api cfg h type state ptr st = Inr st' \<Longrightarrow> agent_step api cfg h st st'"
| refresh: "refresh_declared_services api cfg h st = Inr (r, st') \<Longrightarrow> agent_step api cfg h st st'"
| work: "worker_step (rs st) r \<Longrightarrow> agent_step api cfg h st (st\<lparr>rs := r\<rparr>)"
| outside: "agent_step api cfg h st (st\<lparr>disk := d, zk := z\<rparr>)"

lemma agent_step_keeps:
  assumes "tr \<longrightarrow> providers_honest api"
  shows "agent_step api cfg h st st' \<Longrightarrow> agent_inv tr ft st \<Longrightarrow> agent_inv tr ft st'"
proof (induction rule: agent_step.induct)
  case (event type state ptr st st')
  then show ?case using my_zk_watcher_marshal_keeps [OF assms] yieldsD by metis
next
  case (refresh st r st')
  then obtain x where "watch_declared_services api cfg (config_file_path h) False st = Inr (x, st')"
    by (auto simp: refresh_declared_services_def)
  then show ?case using yieldsD [OF watch_declared_services_keeps [OF assms refresh.prems]] by fastforce
next
  case (work st r)
  then show ?case
    using worker_step_keeps [of "rs st" r] by (auto simp: agent_inv_def agent_ok_def published_def stays_bounded_def)
qed simp

lemma find_init: "register_mapping_find register_mapping_init k = None"
  by (simp add: register_mapping_find_def register_mapping_find_item_def register_mapping_init_def hash_find_def)

lemma agent_ok_init:
  assumes "world_ok w"
  shows "agent_ok \<lparr>rs = service_resource_init (node_resource_init w), filters = f,
     mapping = register_mapping_init, watchers = a, last_modified = m, disk = d, zk = z\<rparr>"
  using res_ok_init [OF assms]
  by (simp add: agent_ok_def published_def find_init endpoints_def service_resource_init_def routes_def
      node_resource_init_def hash_find_def)

lemma invoke_stub_init_keeps:
  assumes "tr \<longrightarrow> providers_honest api" and "world_ok w" and "ft \<longrightarrow> fds_fit w"
    and "invoke_stub_init api cfg addrs file pid w fs z = Inr (r, h, st)"
  shows "agent_inv tr ft st"
proof -
  obtain r0 z0 fs0 where init: "init_zk_handle api (snprintf_s MAX_ZK_ADDR_LEN addrs) pid z fs = (r0, z0, fs0)"
    by (metis prod_cases3)
  let ?st = "\<lparr>rs = service_resource_init (node_resource_init w), filters = service_filter_init,
     mapping = register_mapping_init, watchers = contexts_new, last_modified = 0, disk = fs0, zk = z0\<rparr>"
  have "agent_ok ?st" by (rule agent_ok_init [OF assms(2)])
  then have ok: "agent_inv tr ft ?st"
    using assms(3) by (simp add: agent_inv_def agent_ok_def service_resource_init_def node_resource_init_def)
  show ?thesis
  proof (cases "r0 = 0")
    case False
    then show ?thesis using assms(4) init ok by (simp add: invoke_stub_init_def Let_def)
  next
    case True
    then obtain x where "watch_declared_services api cfg file True ?st = Inr (x, st)"
      using assms(4) init by (auto simp: invoke_stub_init_def Let_def)
    then show ?thesis using yieldsD [OF watch_declared_services_keeps [OF assms(1) ok]] by fastforce
  qed
qed

lemma reachable_agent_inv:
  "(agent_step api cfg h)\<^sup>*\<^sup>* st0 st \<Longrightarrow> (tr \<longrightarrow> providers_honest api) \<Longrightarrow> agent_inv tr ft st0 \<Longrightarrow> agent_inv tr ft st"
  by (induction rule: rtranclp_induct) (auto intro: agent_step_keeps)

section \<open>What the providers publish\<close>

text \<open>
  A provider publishes its description, url-encoded, as the name of a node; the agent takes
  the endpoints of the services it has declared.
\<close>

type_synonym provider = "string \<times> int \<times> string \<times> (string \<times> string) list"

definition described :: "string \<Rightarrow> provider \<Rightarrow> bool" where
  "described content = (\<lambda>(h, p, g, svs). CHR 34 \<in> set content
     \<and> (\<exists>root. cJSON_Parse content = Inr (Some root) \<and> provides root h p g svs))"

definition declared :: "service_filters \<Rightarrow> provider \<Rightarrow> endpoint set" where
  "declared fs = (\<lambda>(h, p, g, svs). {endpoint (register_info_padding 0 g s v h p) | s v.
     (s, v) \<in> set svs \<and> service_filter_padding g s v \<in> set fs})"

lemma decode_children_described:
  "list_all2 described contents ds \<Longrightarrow>
     \<exists>remote. decode_children fs (map url_encode contents) r = Inr remote
       \<and> endpoints remote = endpoints r \<union> (\<Union>d \<in> set ds. declared fs d)"
proof (induction contents ds arbitrary: r rule: list_all2_induct)
  case (Cons content cs d ds)
  obtain h p g svs where d: "d = (h, p, g, svs)" by (metis prod_cases4)
  obtain root where "CHR 34 \<in> set content" "cJSON_Parse content = Inr (Some root)" "provides root h p g svs"
    using Cons.hyps(1) by (auto simp: described_def d)
  moreover from this have "url_decode_call (url_encode content) = Inr content"
    by (intro url_decode_call_encode [of "CHR 34"]) (simp_all add: must_escape_def)
  moreover obtain rs where "parse_node_register_info fs r content = Inr (0, Some rs)"
    "endpoints (Some rs) = endpoints r \<union> declared fs d"
    using parse_node_register_info_adds [OF calculation(2,3), of fs r] by (auto simp: declared_def d)
  ultimately show ?case using Cons.IH [of "Some rs"] by auto
qed simp

lemma children_change_total:
  assumes "list_all2 described contents ds"
  shows "\<exists>st' remote. children_change_func_impl cfg exe k (map url_encode contents) st = Inr st'
    \<and> decode_children (filters st) (map url_encode contents) None = Inr remote
    \<and> endpoints remote = (\<Union>d \<in> set ds. declared (filters st) d)"
  using decode_children_described [OF assms, of "filters st" None]
  by (auto simp: children_change_func_impl_def Let_def endpoints_def)

lemma described_honest:
  assumes "list_all2 described contents ds" and "length k < PROVIDER_KEY_LEN"
    and "\<forall>d \<in> set ds. \<forall>e \<in> declared fs d. genuine k e"
  shows "honest fs k (map url_encode contents)"
proof -
  obtain remote where remote: "decode_children fs (map url_encode contents) None = Inr remote"
    "endpoints remote = (\<Union>d \<in> set ds. declared fs d)"
    using decode_children_described [OF assms(1), of fs None] by (auto simp: endpoints_def)
  then have "\<forall>e \<in> endpoints remote. genuine k e" using assms(3) by simp
  then show ?thesis using assms(2) remote(1) by (auto simp: honest_def list_all_iff endpoints_def split: option.splits)
qed

section \<open>Watcher contexts\<close>

lemma contexts_push_run:
  fixes cs
  defines "a \<equiv> fold contexts_push cs contexts_new"
  shows "contexts a = cs \<and> length cs \<le> capacity a \<and> (cs = [] \<longrightarrow> capacity a = 0 \<and> block a = 0)
    \<and> (0 < length cs \<and> length cs \<le> 8 \<longrightarrow> block a = 1 \<and> capacity a = 8) \<and> (8 < length cs \<longrightarrow> 1 < block a)"
  unfolding a_def
proof (induction cs rule: rev_induct)
  case (snoc c cs)
  then show ?case by (cases cs rule: rev_cases) (auto simp: contexts_push_def Let_def)
qed (simp add: contexts_new_def)

section \<open>Properties\<close>

text \<open>
  C1: from the agent's start on, after any sequence of registry events, expired sessions,
  refreshes, steps of calls, maintenance and changes of files and servers (one after another, each
  to its end), the resources are well formed and a node has a connection pool exactly while some
  service is routed to it, whatever the registry answers.  When each listing the registry answers
  is genuine (its descriptions name the group that was asked for, hold no '\#' in a group, service or
  host and a port number, and the group's path has fewer than 49 characters), the routes are
  exactly those of the registrations last read for each group.
\<close>

theorem reachable_agent_routes:
  assumes "invoke_stub_init api cfg addrs file pid w fs z = Inr (r, h, st0)"
    and "(agent_step api cfg h)\<^sup>*\<^sup>* st0 st" and "world_ok w"
  shows "res_ok (rs st)
    \<and> (node_resource_get_by_key (Some n) (rs st) \<noteq> None \<longleftrightarrow> n \<in> snd ` routes (rs st))
    \<and> (providers_honest api \<longrightarrow>
         routes (rs st) = (\<Union>k. route_of ` endpoints (register_mapping_find (mapping st) k)))"
proof -
  have inv: "agent_inv (providers_honest api) False st"
    using invoke_stub_init_keeps [OF _ assms(3) _ assms(1), of "providers_honest api" False]
      reachable_agent_inv [OF assms(2)] by blast
  then have "res_ok (rs st)" by (simp only: agent_inv_def)
  moreover from this have "hash_find (nodes (rs st)) n \<noteq> None \<longleftrightarrow> n \<in> snd ` routes (rs st)"
    by (simp only: res_ok_def nodes_match_def)
  moreover have "providers_honest api \<longrightarrow>
      routes (rs st) = (\<Union>k. route_of ` endpoints (register_mapping_find (mapping st) k))"
    using inv unfolding agent_inv_def agent_ok_def published_def by blast
  ultimately show ?thesis by (simp add: node_resource_get_by_key_def)
qed

text \<open>
  C13: when the providers of a group publish their descriptions, reading the group never faults,
  the agent then holds for it exactly the endpoints of the declared services of these
  descriptions, its routes are those of all groups, and the other groups keep theirs.
\<close>

theorem children_change_routes:
  assumes "agent_ok st" and "list_all2 described contents ds" and "length k < PROVIDER_KEY_LEN"
    and "\<forall>d \<in> set ds. \<forall>e \<in> declared (filters st) d. genuine k e"
  shows "\<exists>st'. children_change_func_impl cfg exe k (map url_encode contents) st = Inr st'
    \<and> published st' = (published st)(k := \<Union>d \<in> set ds. declared (filters st) d)
    \<and> routes (rs st') = (\<Union>j. route_of ` published st' j) \<and> res_ok (rs st')"
proof -
  obtain st' remote where run: "children_change_func_impl cfg exe k (map url_encode contents) st = Inr st'"
    "decode_children (filters st) (map url_encode contents) None = Inr remote"
    "endpoints remote = (\<Union>d \<in> set ds. declared (filters st) d)"
    using children_change_total [OF assms(2), of cfg exe k st] by auto
  from children_change_keeps [OF assms(1) described_honest [OF assms(2-4)] run(1)] run(2,3)
  have "agent_ok st'" "published st' = (published st)(k := \<Union>d \<in> set ds. declared (filters st) d)" by auto
  then show ?thesis using run(1) unfolding agent_ok_def by blast
qed

text \<open>
  C40: a watcher context is the address of an element of a growing array.  Once more than eight
  groups have been watched the array has moved, and the next event of any of the first eight
  groups reads a context that has been freed.
\<close>

theorem watcher_contexts_dangle:
  assumes "i < 8" and "8 < length cs" and "watchers st = fold contexts_push cs contexts_new"
  shows "my_zk_watcher_marshal api cfg h ZOO_CHILD_EVENT state
    (block (fold contexts_push (take (Suc i) cs) contexts_new), i) st = Inl OutOfBounds"
  using assms contexts_push_run [of "take (Suc i) cs"] contexts_push_run [of cs]
  by (simp add: my_zk_watcher_marshal_def contexts_at_def)


section \<open>A small system\<close>

text \<open>One group with one provider, and an agent that has declared one of its two services.\<close>

definition demo_doc :: string where
  "demo_doc = cJSON_PrintUnformatted (\<lambda>m e. []) (provider_doc ''10.0.0.1'' 80 ''g'' [(''s'', ''1''), (''t'', ''1'')])"

definition demo_declaration :: json where
  "demo_declaration = JArray [JObject [(''group'', JString ''g''),
     (''services'', JArray [JObject [(''service'', JString ''s''), (''version'', JString ''1'')]])]]"

definition demo_client :: "unit zk_client" where
  "demo_client = \<lparr>zookeeper_init = (\<lambda>_ z. (True, z)), zookeeper_close = (\<lambda>z. (ZOK, z)),
     zoo_exists = (\<lambda>p z. ZOK), zoo_create = (\<lambda>p v e z. (-110, z)), zoo_delete = (\<lambda>p z. (-101, z)),
     zoo_wget = (\<lambda>p _ z. (-101, [], z)),
     zoo_wget_children2 = (\<lambda>p _ z. if p = ''/g/providers'' then (ZOK, Some [url_encode demo_doc], z) else (-101, Some [], z))\<rparr>"

definition demo_fs :: filesystem where
  "demo_fs = \<lparr>cwd = [], tree = [[] \<mapsto> Dir True,
     [''services.json''] \<mapsto> File (cJSON_PrintUnformatted (\<lambda>m e. []) demo_declaration) 7], fs_time = 8\<rparr>"

abbreviation demo_provider :: provider where
  "demo_provider \<equiv> (''10.0.0.1'', 80, ''g'', [(''s'', ''1''), (''t'', ''1'')])"

lemma demo_key: "provider_construct_key ''g'' MAX_NODE_PATH_LEN = ''/g/providers''"
  by code_simp

lemma demo_described: "list_all2 described [demo_doc] [demo_provider]"
proof -
  have "CHR 34 \<in> set demo_doc" by code_simp
  moreover have "json_ok (provider_doc ''10.0.0.1'' 80 ''g'' [(''s'', ''1''), (''t'', ''1'')])" by code_simp
  ultimately show ?thesis
    using parse_print by (auto simp: described_def demo_doc_def intro: provider_doc_provides)
qed

lemma demo_genuine: "e \<in> declared fs demo_provider \<Longrightarrow> genuine ''/g/providers'' e"
  by (auto simp: declared_def genuine_def endpoint_def register_info_padding_def service_filter_padding_def
      snprintf_s_def field_sizes demo_key)

lemma demo_key_fits: "length ''/g/providers'' < PROVIDER_KEY_LEN"
  by code_simp

lemma demo_honest: "providers_honest demo_client"
  using described_honest [OF demo_described demo_key_fits] demo_genuine
  by (auto simp: providers_honest_def demo_client_def ZOK_def split: if_splits)

definition demo_start :: "unit agent" where
  "demo_start = \<lparr>rs = service_resource_init (node_resource_init sample_world),
     filters = [service_filter_padding ''g'' ''s'' ''1''], mapping = register_mapping_init,
     watchers = contexts_new, last_modified = 0, disk = demo_fs, zk = ()\<rparr>"

lemma demo_declared:
  "endpoint (register_info_padding 0 ''g'' ''s'' ''1'' ''10.0.0.1'' 80) \<in> declared [service_filter_padding ''g'' ''s'' ''1''] demo_provider"
  by (auto simp: declared_def)

lemma demo_route:
  "route_of (endpoint (register_info_padding 0 ''g'' ''s'' ''1'' ''10.0.0.1'' 80))
     = (service_key_of ''g'' ''s'' ''1'', node_key_of ''10.0.0.1'' 80)"
  by (simp add: route_of_def endpoint_def register_info_padding_def service_filter_padding_def
      snprintf_s_def field_sizes)

theorem children_change_routes_witness:
  "\<exists>st'. children_change_func_impl (\<lambda>name dflt. dflt) EXE_FULL ''/g/providers'' [url_encode demo_doc] demo_start = Inr st'
     \<and> (service_key_of ''g'' ''s'' ''1'', node_key_of ''10.0.0.1'' 80) \<in> routes (rs st')"
proof -
  have "agent_ok demo_start"
    unfolding demo_start_def by (rule agent_ok_init [OF sample_world_ok])
  from children_change_routes [OF this demo_described demo_key_fits, of "\<lambda>name dflt. dflt" EXE_FULL] demo_genuine
  obtain st' where st': "children_change_func_impl (\<lambda>name dflt. dflt) EXE_FULL ''/g/providers'' [url_encode demo_doc] demo_start = Inr st'"
    "published st' = (published demo_start)(''/g/providers'' := declared (filters demo_start) demo_provider)"
    "routes (rs st') = (\<Union>j. route_of ` published st' j)" by auto
  have "endpoint (register_info_padding 0 ''g'' ''s'' ''1'' ''10.0.0.1'' 80) \<in> published st' ''/g/providers''"
    using demo_declared by (simp add: st'(2) demo_start_def)
  then have "route_of (endpoint (register_info_padding 0 ''g'' ''s'' ''1'' ''10.0.0.1'' 80)) \<in> routes (rs st')"
    unfolding st'(3) by blast
  with st'(1) show ?thesis unfolding demo_route by blast
qed

abbreviation demo_text :: string where
  "demo_text \<equiv> cJSON_PrintUnformatted (\<lambda>m e. []) demo_declaration"

lemma demo_init:
  assumes init: "init_zk_handle demo_client (snprintf_s MAX_ZK_ADDR_LEN addrs) pid () fs0 = (0, (), fs)"
    and declares: "is_path_exist fs path" "read_content_from_file (Some path) fs = Some demo_text"
  shows "\<exists>h st. invoke_stub_init demo_client cfg addrs path pid w fs0 () = Inr (0, h, st)
     \<and> published st ''/g/providers'' = declared [service_filter_padding ''g'' ''s'' ''1''] demo_provider"
proof -
  have "json_ok demo_declaration" by code_simp
  then have parse: "cJSON_Parse demo_text = Inr (Some demo_declaration)"
    using parse_print by blast
  have text_string: "c_string demo_text = demo_text"
    by code_simp
  have groups: "declare_groups (Some demo_declaration) [0] string_array_init service_filter_init
    = Inr (string_array_add string_array_init ''g'', [service_filter_padding ''g'' ''s'' ''1''])" by code_simp
  have sz: "cJSON_GetArraySize (Some demo_declaration) = Inr (Suc 0)" by code_simp
  have walk: "string_array_walk (string_array_add string_array_init ''g'') (Some (\<lambda>g r. after r (f g))) (Inr s) = f ''g'' s" for f and s :: "unit agent"
    by (simp add: string_array_walk_def string_array_add_def string_array_init_def string_array_find_def)
  have "\<exists>s'. watch_group_change demo_client cfg ''g'' s = Inr s'
      \<and> published s' ''/g/providers'' = declared (filters s) demo_provider" for s :: "unit agent"
  proof -
    obtain s' remote where "children_change_func_impl cfg EXE_FULL ''/g/providers'' [url_encode demo_doc]
       (s\<lparr>watchers := contexts_push \<lparr>exe_type = EXE_FULL, node_group_value = ''/g/providers''\<rparr> (watchers s)\<rparr>) = Inr s'"
      "decode_children (filters s) [url_encode demo_doc] None = Inr remote" "endpoints remote = declared (filters s) demo_provider"
      using children_change_total [OF demo_described, of cfg EXE_FULL "''/g/providers''"
        "s\<lparr>watchers := contexts_push \<lparr>exe_type = EXE_FULL, node_group_value = ''/g/providers''\<rparr> (watchers s)\<rparr>"]
      by (auto simp del: decode_children.simps)
    moreover from this have "published s' ''/g/providers'' = declared (filters s) demo_provider"
      using children_change_published [OF demo_key_fits _ calculation(1), of remote] by (simp del: decode_children.simps)
    ultimately show ?thesis
      by (auto simp: watch_group_change_def Let_def demo_key MAX_GROUP_VALUE_LEN_def get_group_children_def
          get_children_def demo_client_def published_def simp del: decode_children.simps)
  qed
  then obtain s' where "watch_group_change demo_client cfg ''g''
     \<lparr>rs = service_resource_init (node_resource_init w), filters = [service_filter_padding ''g'' ''s'' ''1''],
      mapping = register_mapping_init, watchers = contexts_new, last_modified = 0, disk = fs, zk = ()\<rparr> = Inr s'"
    "published s' ''/g/providers'' = declared [service_filter_padding ''g'' ''s'' ''1''] demo_provider" by fastforce
  then show ?thesis
    using init declares parse groups walk sz text_string
    by (simp add: invoke_stub_init_def Let_def watch_declared_services_def published_def del: declare_groups.simps)
qed

lemma demo_init_run:
  "\<exists>h st. invoke_stub_init demo_client (\<lambda>name dflt. dflt) ''localhost:2181'' ''/services.json'' 42 sample_world demo_fs () = Inr (0, h, st)
     \<and> published st ''/g/providers'' = declared [service_filter_padding ''g'' ''s'' ''1''] demo_provider"
proof -
  have "case init_zk_handle demo_client (snprintf_s MAX_ZK_ADDR_LEN ''localhost:2181'') 42 () demo_fs of (r, z, fs) \<Rightarrow> r = 0
      \<and> is_path_exist fs ''/services.json'' \<and> read_content_from_file (Some ''/services.json'') fs = Some demo_text"
    by code_simp
  then show ?thesis using demo_init by (auto split: prod.splits)
qed

theorem reachable_agent_routes_witness:
  "\<exists>h st. invoke_stub_init demo_client (\<lambda>name dflt. dflt) ''localhost:2181'' ''/services.json'' 42 sample_world demo_fs () = Inr (0, h, st)
     \<and> (service_key_of ''g'' ''s'' ''1'', node_key_of ''10.0.0.1'' 80) \<in> routes (rs st)"
proof -
  obtain h st where run: "invoke_stub_init demo_client (\<lambda>name dflt. dflt) ''localhost:2181'' ''/services.json'' 42 sample_world demo_fs () = Inr (0, h, st)"
    "published st ''/g/providers'' = declared [service_filter_padding ''g'' ''s'' ''1''] demo_provider"
    using demo_init_run by blast
  have "routes (rs st) = (\<Union>k. route_of ` published st k)"
    using reachable_agent_routes [OF run(1) rtranclp.rtrancl_refl sample_world_ok] demo_honest by (simp add: published_def)
  moreover have "route_of (endpoint (register_info_padding 0 ''g'' ''s'' ''1'' ''10.0.0.1'' 80)) \<in> route_of ` published st ''/g/providers''"
    unfolding run(2) by (rule imageI [OF demo_declared])
  ultimately show ?thesis using run(1) unfolding demo_route by blast
qed

theorem watcher_contexts_dangle_witness:
  "my_zk_watcher_marshal demo_client (\<lambda>name dflt. dflt) \<lparr>zk_addrs = [], config_file_path = [], agent_pid = 1\<rparr>
     ZOO_CHILD_EVENT ZOO_CONNECTED_STATE (1, 0)
     (demo_start\<lparr>watchers := fold contexts_push (replicate 9 \<lparr>exe_type = EXE_FULL, node_group_value = ''/g/providers''\<rparr>) contexts_new\<rparr>)
   = Inl OutOfBounds"
proof -
  let ?cs = "replicate 9 \<lparr>exe_type = EXE_FULL, node_group_value = ''/g/providers''\<rparr>"
  have "block (fold contexts_push (take (Suc 0) ?cs) contexts_new) = 1" by code_simp
  then show ?thesis
    using watcher_contexts_dangle [of 0 ?cs "demo_start\<lparr>watchers := fold contexts_push ?cs contexts_new\<rparr>" demo_client
      "\<lambda>name dflt. dflt" "\<lparr>zk_addrs = [], config_file_path = [], agent_pid = 1\<rparr>" ZOO_CONNECTED_STATE] by simp
qed

end
