(* ===== verification/Invoke_Service.thy ===== *)
theory Invoke_Service
  imports Resource_Mgt
begin

text \<open>
  The call of a service, \<open>invoke_service\<close> of soaagent/invoke_stub.c: route, take a connection,
  exchange a request and its response with one retry on a new connection, give the connection
  back.  The definition is one call from beginning to end; the other threads come between calls.
  \<open>None\<close> is a call still blocked in the kernel.
\<close>

definition RETRY_TIMES :: nat where "RETRY_TIMES = 1"

text \<open>
  One attempt on the descriptor of a connection: whether it succeeded, what \<open>*res_buf\<close> holds, and
  the state.  A descriptor without a line (the last \<open>connect\<close> on it failed, or there was
  no descriptor left for it) takes no data: \<open>send\<close> fails at once.
\<close>

definition line_of :: "world \<Rightarrow> int \<Rightarrow> channel option" where
  "line_of w fd = (if 0 \<le> fd then lines w fd else None)"

definition exchange ::
  "int \<Rightarrow> u32 \<Rightarrow> byte list \<Rightarrow> world \<Rightarrow> (fault + bool \<times> byte list option \<times> world) option" where
  "exchange fd ident req_body w =
     (case line_of w fd of
        None \<Rightarrow> Some (Inr (False, None, w))
      | Some line \<Rightarrow>
          (case send_message line ident BIZ_REQ_MSG_TYPE req_body of
             None \<Rightarrow> None
           | Some (r, ch) \<Rightarrow>
               if r \<noteq> 0 then Some (Inr (False, None, w\<lparr>lines := (lines w)(fd \<mapsto> ch)\<rparr>))
               else
                 (case receive_message fd True ch of
                    Inl f \<Rightarrow> Some (Inl f)
                  | Inr None \<Rightarrow> None
                  | Inr (Some (None, ch)) \<Rightarrow> Some (Inr (False, None, w\<lparr>lines := (lines w)(fd \<mapsto> ch)\<rparr>))
                  | Inr (Some (Some (res_identifier, res_type, res_buf), ch)) \<Rightarrow>
                      Some (Inr (res_identifier = ident \<and> res_type = BIZ_RES_MSG_TYPE, Some res_buf,
                                 w\<lparr>lines := (lines w)(fd \<mapsto> ch)\<rparr>)))))"

text \<open>The loop \<open>while (retry-- > 0)\<close>; a failed reconnection is only logged.\<close>

fun invoke_loop ::
  "nat \<Rightarrow> addr \<Rightarrow> u32 \<Rightarrow> byte list \<Rightarrow> byte list option \<Rightarrow> world
     \<Rightarrow> (fault + int \<times> byte list option \<times> world) option" where
  "invoke_loop 0 a ident req_body res_buf w = Some (Inr (0, res_buf, w))"
| "invoke_loop (Suc retry) a ident req_body res_buf w =
     (case heap w a of
        None \<Rightarrow> Some (Inl OutOfBounds)
      | Some conn \<Rightarrow>
          (case exchange (sock_fd conn) ident req_body w of
             None \<Rightarrow> None
           | Some (Inl f) \<Rightarrow> Some (Inl f)
           | Some (Inr (success, res_buf, w)) \<Rightarrow>
               if success then Some (Inr (0, res_buf, w))
               else if retry > 0 then
                 (let (_, conn, w) = conn_reconnect conn w
                  in invoke_loop retry a ident req_body res_buf (store_conn a conn w))
               else Some (Inr (-1, res_buf, w))))"

definition invoke_service ::
  "string \<Rightarrow> string \<Rightarrow> string \<Rightarrow> byte list \<Rightarrow> resources \<Rightarrow> u32
     \<Rightarrow> (fault + int \<times> byte list option \<times> resources \<times> u32) option" where
  "invoke_service grp service version req_body st seq =
     (let (node_key_const, st) = service_resource_require_node_key grp service version st in
      case node_key_const of
        None \<Rightarrow> Some (Inr (-1, None, st, seq))
      | Some key \<Rightarrow>
          let node_key = snprintf_s 30 key in
          (case node_resource_get_by_key (Some node_key) st of
             None \<Rightarrow> Some (Inr (-1, None, st, seq))
           | Some pool \<Rightarrow>
               (case pool_require_connection pool (world st) of
                  Inl f \<Rightarrow> Some (Inl f)
                | Inr (None, pool, w) \<Rightarrow>
                    Some (Inr (-1, None, st\<lparr>nodes := hash_upd node_key pool (nodes st), world := w\<rparr>, seq))
                | Inr (Some conn, pool, w) \<Rightarrow>
                    let (ident, seq) = next_identifier seq;
                        (start_time, w) = get_now_time w
                    in (case invoke_loop (RETRY_TIMES + 1) conn ident req_body None w of
                          None \<Rightarrow> None
                        | Some (Inl f) \<Rightarrow> Some (Inl f)
                        | Some (Inr (return_code, res_buf, w)) \<Rightarrow>
                            (case pool_release_connection pool (Some conn) True w of
                               Inl f \<Rightarrow> Some (Inl f)
                             | Inr (pool, w) \<Rightarrow>
                                 let (end_time, w) = get_now_time w
                                 in Some (Inr (return_code, res_buf,
                                      st\<lparr>nodes := hash_upd node_key pool (nodes st), world := w\<rparr>, seq)))))))"

section \<open>What one attempt and the loop do\<close>

text \<open>
  \<open>answered\<close>: on this line the request went out and then exactly the frame of its answer was read.
\<close>

definition answered :: "u32 \<Rightarrow> byte list \<Rightarrow> byte list \<Rightarrow> channel \<Rightarrow> channel \<Rightarrow> bool" where
  "answered ident req res l l' \<longleftrightarrow> ch_out l' = ch_out l @ message_buf ident BIZ_REQ_MSG_TYPE req
     \<and> (\<exists>pad. length pad = 3 \<and> (let data = be32 ident @ be32 (word_of_nat (length res)) @ [BIZ_RES_MSG_TYPE] @ pad @ res
           in ch_in l = be32 (crc32 data) @ data @ ch_in l'))"

lemma socket_receive_out: "socket_receive fd ch n t = Inr (Some (r, out, ch')) \<Longrightarrow> ch_out ch' = ch_out ch"
  by (auto simp: socket_receive_def receive_ready_def split: option.splits if_splits)

lemma receive_message_out: "receive_message fd True ch = Inr (Some (m, ch')) \<Longrightarrow> ch_out ch' = ch_out ch"
  by (auto simp: receive_message_def receive_body_def Let_def split: option.splits sum.splits if_splits prod.splits
      dest!: socket_receive_out)

text \<open>Reading faults only beyond the set of \<open>select\<close>.\<close>

lemma receive_message_fault: "receive_message fd True ch = Inl f \<Longrightarrow> f = OutOfBounds \<and> \<not> selectable fd"
  by (auto simp: receive_message_def receive_body_def socket_receive_def Let_def
      split: option.splits sum.splits if_splits prod.splits)

lemma send_message_in: "send_message ch ident type buffer = Some (r, ch') \<Longrightarrow> ch_in ch' = ch_in ch"
  by (auto simp: send_message_def socket_send_def split: option.splits)

lemma send_message_sent:
  "send_message ch ident type buffer = Some (0, ch') \<Longrightarrow> ch_out ch' = ch_out ch @ message_buf ident type buffer"
  using socket_send_spec [of ch "message_buf ident type buffer" 0 ch'] by (simp add: send_message_def)

text \<open>An attempt that does not fault changes the line only, and succeeds only on an answer.\<close>

definition line_changed :: "int \<Rightarrow> world \<Rightarrow> world \<Rightarrow> bool" where
  "line_changed fd w w' \<longleftrightarrow> (\<exists>ls. w' = w\<lparr>lines := ls\<rparr> \<and> (\<forall>fd'. fd' \<noteq> fd \<longrightarrow> ls fd' = lines w fd'))"

lemma line_changed_simps [simp]: "line_changed fd w w" "line_changed fd w (w\<lparr>lines := (lines w)(fd := l)\<rparr>)"
  unfolding line_changed_def by (metis world.surjective world.update_convs(9)) auto

lemma exchange_result:
  assumes "exchange fd ident req w = Some r"
  shows "(r = Inl OutOfBounds \<and> 0 \<le> fd \<and> \<not> selectable fd) \<or> (\<exists>ok res w'. r = Inr (ok, res, w') \<and> line_changed fd w w'
    \<and> (ok \<longrightarrow> (\<exists>body l l'. res = Some body \<and> lines w fd = Some l \<and> lines w' fd = Some l' \<and> answered ident req body l l')))"
proof (cases "line_of w fd")
  case None
  then show ?thesis using assms by (auto simp: exchange_def)
next
  case (Some line)
  then have fd: "0 \<le> fd" and line: "lines w fd = Some line" by (auto simp: line_of_def split: if_splits)
  obtain x ch where sent: "send_message line ident BIZ_REQ_MSG_TYPE req = Some (x, ch)"
    using assms Some by (auto simp: exchange_def split: option.splits)
  show ?thesis
  proof (cases "x = 0")
    case False
    then show ?thesis using assms sent Some by (auto simp: exchange_def)
  next
    case True
    show ?thesis
    proof (cases "receive_message fd True ch")
      case (Inl f)
      then show ?thesis using assms sent True Some fd receive_message_fault [OF Inl] by (auto simp: exchange_def)
    next
      case (Inr recv)
      then obtain m ch' where recv: "receive_message fd True ch = Inr (Some (m, ch'))"
        using assms sent True Some by (cases recv) (auto simp: exchange_def)
      show ?thesis
      proof (cases m)
        case None
        then show ?thesis using assms sent True recv Some by (auto simp: exchange_def)
      next
        case msg': (Some msg)
        obtain ri rt body where msg: "msg = (ri, rt, body)" by (metis prod_cases3)
        have r: "r = Inr (ri = ident \<and> rt = BIZ_RES_MSG_TYPE, Some body, w\<lparr>lines := (lines w)(fd \<mapsto> ch')\<rparr>)"
          using assms sent True recv Some msg' msg by (simp add: exchange_def)
        have "answered ident req body line ch'" if "ri = ident" "rt = BIZ_RES_MSG_TYPE"
          using receive_message_reads [of fd ch ri rt body ch'] recv msg' msg that send_message_in [OF sent]
            receive_message_out [OF recv] send_message_sent [of line] sent True
          by (auto simp: answered_def Let_def)
        then show ?thesis using r line by auto
      qed
    qed
  qed
qed

text \<open>
  Where the line of a connection comes from: it was there at the start, or one of the
  \<open>connect\<close> calls in between made it.
\<close>

definition line_from :: "world \<Rightarrow> addr \<Rightarrow> world \<Rightarrow> int \<Rightarrow> channel \<Rightarrow> bool" where
  "line_from w a w' fd l \<longleftrightarrow> (\<exists>c. heap w a = Some c \<and> sock_fd c = fd \<and> lines w fd = Some l)
     \<or> (\<exists>n. attempts w \<le> n \<and> n < attempts w' \<and> l = peers w n)"

definition new_line :: "world \<Rightarrow> addr \<Rightarrow> world \<Rightarrow> bool" where
  "new_line w a w' \<longleftrightarrow> (\<exists>c. heap w' a = Some c \<and> (\<forall>l. lines w' (sock_fd c) = Some l \<longrightarrow> l = peers w (attempts w)))
     \<and> attempts w' = Suc (attempts w) \<and> peers w' = peers w"

lemma line_from_new:
  assumes "new_line w a w1" and "line_from w1 a w' fd l" and "attempts w1 \<le> attempts w'"
  shows "line_from w a w' fd l"
proof -
  have w1: "attempts w1 = Suc (attempts w)" "peers w1 = peers w" using assms(1) by (simp_all add: new_line_def)
  from assms(2) show ?thesis
    unfolding line_from_def [of w1]
  proof
    assume "\<exists>c. heap w1 a = Some c \<and> sock_fd c = fd \<and> lines w1 fd = Some l"
    then have "l = peers w (attempts w)" using assms(1) by (auto simp: new_line_def)
    then show ?thesis using w1(1) assms(3) unfolding line_from_def by (intro disjI2 exI [of _ "attempts w"]) simp
  next
    assume "\<exists>n. attempts w1 \<le> n \<and> n < attempts w' \<and> l = peers w1 n"
    then obtain n where "attempts w1 \<le> n" "n < attempts w'" "l = peers w1 n" by blast
    then show ?thesis using w1 unfolding line_from_def by (intro disjI2 exI [of _ n]) simp
  qed
qed

lemma conn_connect_line:
  assumes "conn_connect c w = (r, c', w')"
  shows "(\<forall>l. lines w' (sock_fd c') = Some l \<longrightarrow> l = peers w (attempts w))
    \<and> attempts w' = Suc (attempts w) \<and> peers w' = peers w"
  using assms by (auto simp: conn_connect_def socket_def connect_def get_now_time_def Let_def split: if_splits prod.splits)

lemma reconnect_line:
  assumes "conn_reconnect c w = (r, c', w')"
  shows "new_line w a (store_conn a c' w')"
proof -
  obtain r1 c1 w1 where d: "conn_disconnect c w = (r1, c1, w1)" by (metis prod_cases3)
  then have k: "conn_connect c1 w1 = (r, c', w')" using assms by (simp add: conn_reconnect_def)
  have "attempts w1 = attempts w" "peers w1 = peers w"
    using d by (auto simp: conn_disconnect_def close_fd_def Let_def split: prod.splits if_splits)
  then show ?thesis using conn_connect_line [OF k] by (simp add: new_line_def store_conn_def)
qed

lemma require_line:
  assumes "pool_require_connection q w = Inr (Some a, p, w')"
  shows "w' = w \<or> new_line w a w'"
proof (cases "unused_conn_list q")
  case Cons
  then show ?thesis using assms
    by (auto simp: pool_require_connection_def pool_get_idle_conn_num_def list_delete_def split: if_splits)
next
  case Nil
  obtain r c w1 where k: "conn_connect (conn_init (junk (snd (malloc_conn w))) (pool_host q) (pool_port q)
      (pool_timeout_secs q)) (snd (malloc_conn w)) = (r, c, w1)" by (metis prod_cases3)
  have "a = next_addr w" "w' = store_conn a c w1"
    using assms Nil k
    by (auto simp: pool_require_connection_def pool_get_idle_conn_num_def malloc_conn_def Let_def split: if_splits)
  moreover have "attempts (snd (malloc_conn w)) = attempts w" "peers (snd (malloc_conn w)) = peers w"
    by (simp_all add: malloc_conn_def)
  ultimately show ?thesis using conn_connect_line [OF k] by (auto simp: new_line_def store_conn_def)
qed

lemma keeps_lines: "world_ok w \<Longrightarrow> pool_ok w p \<Longrightarrow> keeps w p (w\<lparr>lines := l\<rparr>) p"
  and keeps_ticks: "world_ok w \<Longrightarrow> pool_ok w p \<Longrightarrow> keeps w p (w\<lparr>ticks := t\<rparr>) p"
  by (auto simp: keeps_def pool_defs fds_ok_def)

lemma reconnect_keeps:
  assumes "world_ok w" and "pool_ok w p" and "a \<in> conns p" and "heap w a = Some c"
    and "conn_reconnect c w = (r, c', w')"
  shows "keeps w p (store_conn a c' w') p"
proof -
  obtain r1 c1 w1 where d: "conn_disconnect c w = (r1, c1, w1)" by (metis prod_cases3)
  then have k: "conn_connect c1 w1 = (r, c', w')" using assms(5) by (simp add: conn_reconnect_def)
  have "heap w' = heap w" "next_addr w' = next_addr w" "conn_host c' = conn_host c" "conn_port c' = conn_port c"
    "fd_limit w' = fd_limit w" "sock_fd c' < int (fd_limit w)"
    using conn_disconnect_props [OF d] conn_connect_props [OF k] by auto
  then show ?thesis
    using assms(1-4) by (auto simp: keeps_def store_conn_def pool_ok_def world_ok_def only_touches_def fds_ok_def)
qed

text \<open>A connection of a world within the limits is selectable.\<close>

lemma fds_fit_selectable: "fds_fit w \<Longrightarrow> heap w a = Some c \<Longrightarrow> 0 \<le> sock_fd c \<Longrightarrow> selectable (sock_fd c)"
  by (force simp: fds_fit_def fds_ok_def selectable_def)

text \<open>The result of the loop: a fault, or the state and, on success, the answer on the line.\<close>

definition loop_result ::
  "addr \<Rightarrow> u32 \<Rightarrow> byte list \<Rightarrow> world \<Rightarrow> int \<Rightarrow> byte list option \<Rightarrow> world \<Rightarrow> bool" where
  "loop_result a ident req w ret res w' \<longleftrightarrow> ret \<in> {0, -1} \<and> attempts w \<le> attempts w' \<and> peers w' = peers w
     \<and> (ret = 0 \<longrightarrow> (\<exists>c body l l'. heap w' a = Some c \<and> res = Some body \<and> lines w' (sock_fd c) = Some l'
          \<and> answered ident req body l l' \<and> line_from w a w' (sock_fd c) l))"

lemma loop_result_new:
  "new_line w a w1 \<Longrightarrow> loop_result a ident req w1 ret res w' \<Longrightarrow> loop_result a ident req w ret res w'"
  using line_from_new [of w a w1] by (fastforce simp: loop_result_def new_line_def)

lemma invoke_loop_keeps:
  "invoke_loop n a ident req res0 w = Some r \<Longrightarrow> 0 < n \<Longrightarrow> world_ok w \<Longrightarrow> pool_ok w p \<Longrightarrow> a \<in> conns p \<Longrightarrow>
     (r = Inl OutOfBounds \<and> \<not> fds_fit w)
     \<or> (\<exists>ret res w'. r = Inr (ret, res, w') \<and> keeps w p w' p \<and> loop_result a ident req w ret res w')"
proof (induction n arbitrary: res0 w)
  case (Suc n)
  obtain c where c: "heap w a = Some c" using Suc.prems(4,5) unfolding pool_ok_def by blast
  obtain ex where ex: "exchange (sock_fd c) ident req w = Some ex"
    using Suc.prems(1) c by (auto split: option.splits)
  show ?case
  proof (cases "ex = Inl OutOfBounds \<and> 0 \<le> sock_fd c \<and> \<not> selectable (sock_fd c)")
    case True
    then show ?thesis using Suc.prems(1) c ex fds_fit_selectable [of w a c] by auto
  next
    case False
    then obtain ok res w1 where r: "ex = Inr (ok, res, w1)" "line_changed (sock_fd c) w w1"
      "ok \<longrightarrow> (\<exists>body l l'. res = Some body \<and> lines w (sock_fd c) = Some l \<and> lines w1 (sock_fd c) = Some l'
         \<and> answered ident req body l l')"
      using exchange_result [OF ex] by blast
    obtain ls where w1: "w1 = w\<lparr>lines := ls\<rparr>" using r(2) by (auto simp: line_changed_def)
    have k: "keeps w p w1 p" using Suc.prems unfolding w1 by (intro keeps_lines)
    show ?thesis
    proof (cases "ok \<or> n = 0")
      case True
      then have run: "r = Inr (if ok then 0 else -1, res, w1)" using Suc.prems(1) c ex r(1) by auto
      have "loop_result a ident req w (if ok then 0 else -1) res w1"
        using r(3) c by (auto simp: loop_result_def line_from_def w1)
      then show ?thesis using run k by blast
    next
      case no: False
      obtain rr c' w' where re: "conn_reconnect c w1 = (rr, c', w')" by (metis prod_cases3)
      let ?w = "store_conn a c' w'"
      have k2: "keeps w1 p ?w p"
        by (rule reconnect_keeps [OF _ _ Suc.prems(5) _ re]) (use k c w1 in \<open>auto simp: keeps_def\<close>)
      have run: "invoke_loop n a ident req res ?w = Some r"
        using Suc.prems(1) c ex r(1) re no by simp
      have ok: "world_ok ?w" "pool_ok ?w p" using k2 by (simp_all add: keeps_def)
      have new: "new_line w a ?w" using reconnect_line [OF re, of a] by (simp add: new_line_def w1)
      from Suc.IH [OF run _ ok Suc.prems(5)] no keeps_trans [OF k k2] loop_result_new [OF new]
        keeps_trans [OF keeps_trans [OF k k2]] keeps_fds_fit [of w p ?w p]
      show ?thesis by blast
    qed
  qed
qed simp

section \<open>The whole call\<close>

lemma release_result:
  assumes "pool_release_connection p (Some a) True w = Inr (p', w')" and "heap w a = Some c"
  shows "lines w' = lines w \<and> attempts w' = attempts w \<and> (\<exists>c'. heap w' a = Some c' \<and> sock_fd c' = sock_fd c)"
  using assms
  by (auto simp: pool_release_connection_def get_now_time_def store_conn_def Let_def split: sum.splits)

abbreviation used_of :: "resources \<Rightarrow> string \<Rightarrow> addr list option" where
  "used_of st n \<equiv> map_option used_conn_list (hash_find (nodes st) n)"

text \<open>
  A successful call: \<open>st\<close> and \<open>st'\<close> are the states before and after it.  The
  connection that was given back last is the one it used; the line behind its descriptor is either
  the one that was there before the call (the connection was idle) or one that a \<open>connect\<close>
  of the call made, and what happened on it is that the request went out and the answer came in.
\<close>

definition call_answered ::
  "u32 \<Rightarrow> byte list \<Rightarrow> byte list \<Rightarrow> string \<Rightarrow> resources \<Rightarrow> resources \<Rightarrow> bool" where
  "call_answered ident req body n st st' \<longleftrightarrow> (\<exists>pool c l l'. hash_find (nodes st') n = Some pool
     \<and> unused_conn_list pool \<noteq> [] \<and> heap (world st') (last (unused_conn_list pool)) = Some c
     \<and> lines (world st') (sock_fd c) = Some l' \<and> answered ident req body l l'
     \<and> line_from (world st) (last (unused_conn_list pool)) (world st') (sock_fd c) l)"

text \<open>The call on a connection that has been obtained: the attempts and the release.\<close>

lemma invoke_connected:
  assumes k: "hash_find (nodes st) k = Some q" and req: "keeps (world st) q w p"
    and line: "w = world st \<or> new_line (world st) a w"
    and got: "a \<notin> set (used_conn_list q)" "used_conn_list p = used_conn_list q @ [a]"
    and loop: "invoke_loop (Suc (Suc 0)) a ident req_body None (w\<lparr>ticks := Suc (ticks w)\<rparr>) = Some lr"
  obtains (faults) "lr = Inl OutOfBounds" and "\<not> fds_fit (world st)"
  | (returns) ret res w2 p3 w3 where "lr = Inr (ret, res, w2)" and "ret \<in> {0, -1}"
    and "pool_release_connection p (Some a) True w2 = Inr (p3, w3)"
    and "keeps (world st) q (w3\<lparr>ticks := Suc (ticks w3)\<rparr>) p3" and "used_conn_list p3 = used_conn_list q"
    and "ret = 0 \<longrightarrow> (\<exists>body. res = Some body
           \<and> call_answered ident req_body body k st (st\<lparr>nodes := hash_upd k p3 (nodes st), world := w3\<lparr>ticks := Suc (ticks w3)\<rparr>\<rparr>))"
proof -
  let ?w1 = "w\<lparr>ticks := Suc (ticks w)\<rparr>"
  have k1: "keeps w p ?w1 p" using req by (intro keeps_ticks) (auto simp: keeps_def)
  have inv: "world_ok ?w1" "pool_ok ?w1 p" "a \<in> conns p" "a \<in> set (used_conn_list p)"
    using k1 got by (auto simp: keeps_def conns_def)
  from invoke_loop_keeps [OF loop zero_less_Suc inv(1-3)] show thesis
  proof (elim disjE conjE exE)
    assume "lr = Inl OutOfBounds" "\<not> fds_fit ?w1"
    then show thesis using faults keeps_fds_fit [OF keeps_trans [OF req k1]] by blast
  next
    fix ret res w2
    assume lr: "lr = Inr (ret, res, w2)" "keeps ?w1 p w2 p" and result: "loop_result a ident req_body ?w1 ret res w2"
    from pool_release_keeps [of w2 p a True] lr(2) inv(4) obtain p3 w3 where
      rel: "pool_release_connection p (Some a) True w2 = Inr (p3, w3)" "keeps w2 p w3 p3"
      "used_conn_list p3 = remove1 a (used_conn_list p)" "unused_conn_list p3 = unused_conn_list p @ [a]"
      by (auto simp: keeps_def)
    let ?w4 = "w3\<lparr>ticks := Suc (ticks w3)\<rparr>"
    let ?st = "st\<lparr>nodes := hash_upd k p3 (nodes st), world := ?w4\<rparr>"
    have "keeps w3 p3 ?w4 p3" using rel(2) by (intro keeps_ticks) (auto simp: keeps_def)
    with req k1 lr(2) rel(2) have kept: "keeps (world st) q ?w4 p3" using keeps_trans by meson
    have used: "used_conn_list p3 = used_conn_list q" using rel(3) got by (simp add: remove1_append)
    have "loop_result a ident req_body w ret res w2"
      using result by (simp add: loop_result_def line_from_def)
    with line have result': "loop_result a ident req_body (world st) ret res w2" using loop_result_new by blast
    have "call_answered ident req_body body k st ?st" if "ret = 0" "res = Some body" for body
    proof -
      from result' that obtain c l l' where c: "heap w2 a = Some c" and l: "lines w2 (sock_fd c) = Some l'"
        "answered ident req_body body l l'" "line_from (world st) a w2 (sock_fd c) l" by (auto simp: loop_result_def)
      from release_result [OF rel(1) c] obtain c' where
        "lines w3 = lines w2" "attempts w3 = attempts w2" "heap w3 a = Some c'" "sock_fd c' = sock_fd c" by blast
      moreover have "hash_find (nodes ?st) k = Some p3" using k by (simp add: hash_upd_put hash_find_put)
      ultimately show ?thesis
        using rel(4) l unfolding call_answered_def by (intro exI [of _ p3] exI [of _ c'] exI [of _ l] exI [of _ l'])
          (auto simp: line_from_def)
    qed
    then have "ret = 0 \<longrightarrow> (\<exists>body. res = Some body \<and> call_answered ident req_body body k st ?st)"
      using result' by (auto simp: loop_result_def)
    with result' show thesis using returns [OF lr(1) _ rel(1) kept used] by (auto simp: loop_result_def)
  qed
qed

text \<open>Finding the node and taking the connection leave the lines of the world to the call.\<close>

lemma invoke_service_keeps:
  assumes ok: "res_ok st" and run: "invoke_service g s v req st seq = Some r"
  shows "(r = Inl OutOfBounds \<and> \<not> fds_fit (world st))
    \<or> (\<exists>ret res st' seq'. r = Inr (ret, res, st', seq') \<and> res_ok st' \<and> routes st' = routes st
      \<and> used_of st' = used_of st \<and> stays_bounded st st' \<and> ret \<in> {0, -1}
      \<and> (ret = 0 \<longrightarrow> (\<exists>key body. (service_key_of g s v, key) \<in> routes st \<and> res = Some body
           \<and> seq' = seq + 1 \<and> call_answered seq' req body (snprintf_s 30 key) st st')))"
proof -
  obtain key st1 where nk: "service_resource_require_node_key g s v st = (key, st1)" by fastforce
  then have st1: "res_ok st1" "routes st1 = routes st" "nodes st1 = nodes st" "world st1 = world st" "stays_bounded st st1"
    and routed: "\<And>k. key = Some k \<Longrightarrow> (service_key_of g s v, k) \<in> routes st"
    using require_key_keeps [OF ok, of g s v]
    by (auto simp: service_resource_require_node_key_def split: option.splits prod.splits)
  show ?thesis
  proof (cases "\<exists>k q. key = Some k \<and> hash_find (nodes st1) (snprintf_s 30 k) = Some q")
    case False
    then have "r = Inr (-1, None, st1, seq)"
      using run nk by (cases key) (auto simp: invoke_service_def node_resource_get_by_key_def)
    then show ?thesis using st1 by auto
  next
    case True
    then obtain k q where k: "key = Some k" "hash_find (nodes st1) (snprintf_s 30 k) = Some q" by blast
    let ?k = "snprintf_s 30 k"
    have "pool_at st1 (Node ?k) = Some q" using k by (simp add: pool_at_def)
    then have wq: "world_ok (world st1)" "pool_ok (world st1) q"
      using st1(1) unfolding res_ok_def slots_ok_def by blast+
    from pool_require_keeps [OF this] obtain conn p w where
      req: "pool_require_connection q (world st1) = Inr (conn, p, w)" "keeps (world st1) q w p"
      and got: "\<And>a. conn = Some a \<Longrightarrow> a \<notin> set (used_conn_list q) \<and> used_conn_list p = used_conn_list q @ [a]"
      and none: "conn = None \<Longrightarrow> p = q" by (fastforce split: option.splits)
    have used: "used_of (st1\<lparr>nodes := hash_upd ?k p' (nodes st1), world := w'\<rparr>) = used_of st"
      if "used_conn_list p' = used_conn_list q" for p' w'
      using that k(2) st1(3) by (auto simp: hash_upd_put hash_find_put fun_eq_iff)
    have bounded: "stays_bounded st (st1\<lparr>nodes := hash_upd ?k p' (nodes st1), world := w'\<rparr>)"
      if "keeps (world st1) q w' p'" for p' w'
      using stays_bounded_trans [OF st1(5) node_update_bounded [OF k(2) that]] .
    show ?thesis
    proof (cases conn)
      case None
      then have "r = Inr (-1, None, st1\<lparr>nodes := hash_upd ?k q (nodes st1), world := w\<rparr>, seq)"
        using run nk k req none by (simp add: invoke_service_def node_resource_get_by_key_def)
      then show ?thesis
        using node_update_keeps [OF st1(1) k(2) req(2)] none [OF None] used [of q w] st1(2) bounded [OF req(2)] by auto
    next
      case (Some a)
      obtain lr where loop: "invoke_loop (Suc (Suc 0)) a (seq + 1) req None (w\<lparr>ticks := Suc (ticks w)\<rparr>) = Some lr"
        using run nk k req Some
        by (auto simp: invoke_service_def node_resource_get_by_key_def next_identifier_def get_now_time_def
            RETRY_TIMES_def Let_def simp del: invoke_loop.simps split: option.splits)
      have a: "a \<notin> set (used_conn_list q)" "used_conn_list p = used_conn_list q @ [a]" using got [OF Some] by auto
      have line: "w = world st1 \<or> new_line (world st1) a w" using require_line req(1) Some by blast
      from k(2) req(2) line a loop show ?thesis
      proof (cases rule: invoke_connected)
        case faults
        then show ?thesis using run nk k req Some loop st1(4)
          by (simp add: invoke_service_def node_resource_get_by_key_def next_identifier_def get_now_time_def
              RETRY_TIMES_def Let_def del: invoke_loop.simps)
      next
        case (returns ret res w2 p3 w3)
        let ?st = "st1\<lparr>nodes := hash_upd ?k p3 (nodes st1), world := w3\<lparr>ticks := Suc (ticks w3)\<rparr>\<rparr>"
        have r: "r = Inr (ret, res, ?st, seq + 1)"
          using run nk k req Some loop returns(1,3)
          by (simp add: invoke_service_def node_resource_get_by_key_def next_identifier_def get_now_time_def
              RETRY_TIMES_def Let_def del: invoke_loop.simps)
        have answer: "call_answered (seq + 1) req body ?k st1 ?st = call_answered (seq + 1) req body ?k st ?st" for body
          using st1(4) by (simp add: call_answered_def)
        have "\<exists>key body. (service_key_of g s v, key) \<in> routes st \<and> res = Some body
            \<and> call_answered (seq + 1) req body (snprintf_s 30 key) st ?st" if "ret = 0"
          using returns(6) that routed [OF k(1)] unfolding answer by blast
        then show ?thesis
          using node_update_keeps [OF st1(1) k(2) returns(4)] used [OF returns(5)] returns(2) st1(2) bounded [OF returns(4)]
          unfolding r by auto
      qed
    qed
  qed
qed

section \<open>Calls that get their answer\<close>

text \<open>A descriptor and the line behind it that take the request and bring the right answer.\<close>

definition ready :: "int \<Rightarrow> channel \<Rightarrow> u32 \<Rightarrow> byte list \<Rightarrow> byte list \<Rightarrow> bool" where
  "ready fd l ident req body \<longleftrightarrow> 0 \<le> fd \<and> (\<exists>ch1 ch2. send_message l ident BIZ_REQ_MSG_TYPE req = Some (0, ch1)
     \<and> receive_message fd True ch1 = Inr (Some (Some (ident, BIZ_RES_MSG_TYPE, body), ch2)))"

lemma ready_intro:
  assumes "send_message l ident BIZ_REQ_MSG_TYPE req = Some (0, l')" and "length body < 2 ^ 32"
    and "ch_in l = message_buf ident BIZ_RES_MSG_TYPE body @ rest" and "ch_sel l = SelReady # SelReady # sels"
    and "ch_recv l = e1 @ e2 @ later" and "delivers e1 header_size" and "delivers_body e2 (length body)"
    and "selectable fd"
  shows "ready fd l ident req body"
proof -
  have "ch_in l' = ch_in l" "ch_sel l' = ch_sel l" "ch_recv l' = ch_recv l"
    using assms(1) by (auto simp: send_message_def socket_send_def split: option.splits)
  then show ?thesis
    using assms message_received [of fd body l' ident BIZ_RES_MSG_TYPE rest sels e1 e2 later]
    by (auto simp: ready_def selectable_def)
qed

lemma exchange_ready: "lines w fd = Some l \<Longrightarrow> ready fd l ident req body \<Longrightarrow>
  \<exists>l. exchange fd ident req w = Some (Inr (True, Some body, w\<lparr>lines := (lines w)(fd \<mapsto> l)\<rparr>))"
  by (auto simp: ready_def exchange_def line_of_def)

lemma reconnect_connects:
  assumes "conn_reconnect c w = (r, c', w')" and "0 \<le> sock_fd c" and "nat (sock_fd c) \<in> set (open_fds w)"
    and "lowest_free (removeAll (nat (sock_fd c)) (open_fds w)) < fd_limit w"
    and "net w (attempts w) (conn_host c) (conn_port c)"
  shows "sock_fd c' = int (lowest_free (removeAll (nat (sock_fd c)) (open_fds w)))
    \<and> lines w' (sock_fd c') = Some (peers w (attempts w))"
  using assms
  by (auto simp: conn_reconnect_def conn_disconnect_def close_fd_def conn_connect_def socket_def connect_def
      get_now_time_def Let_def split: prod.splits)

text \<open>The connection can be made again, and the new line answers.\<close>

definition reconnects :: "conn_obj \<Rightarrow> world \<Rightarrow> u32 \<Rightarrow> byte list \<Rightarrow> byte list \<Rightarrow> bool" where
  "reconnects c w ident req body \<longleftrightarrow> 0 \<le> sock_fd c \<and> nat (sock_fd c) \<in> set (open_fds w)
     \<and> lowest_free (removeAll (nat (sock_fd c)) (open_fds w)) < fd_limit w
     \<and> net w (attempts w) (conn_host c) (conn_port c)
     \<and> ready (int (lowest_free (removeAll (nat (sock_fd c)) (open_fds w)))) (peers w (attempts w)) ident req body"

lemma invoke_loop_answers:
  assumes "heap w a = Some c"
    and "(\<exists>l. lines w (sock_fd c) = Some l \<and> ready (sock_fd c) l ident req body)
      \<or> (\<exists>res l. exchange (sock_fd c) ident req w = Some (Inr (False, res, w\<lparr>lines := l\<rparr>)))
         \<and> reconnects c w ident req body"
  shows "\<exists>w'. invoke_loop (Suc (Suc 0)) a ident req res0 w = Some (Inr (0, Some body, w'))"
  using assms(2)
proof
  assume "\<exists>l. lines w (sock_fd c) = Some l \<and> ready (sock_fd c) l ident req body"
  then show ?thesis using exchange_ready [of w "sock_fd c"] assms(1) by fastforce
next
  assume "(\<exists>res l. exchange (sock_fd c) ident req w = Some (Inr (False, res, w\<lparr>lines := l\<rparr>))) \<and> reconnects c w ident req body"
  then obtain res l where ex: "exchange (sock_fd c) ident req w = Some (Inr (False, res, w\<lparr>lines := l\<rparr>))"
    and rec: "reconnects c w ident req body" by blast
  obtain r c' w' where re: "conn_reconnect c (w\<lparr>lines := l\<rparr>) = (r, c', w')" by (metis prod_cases3)
  have "lines w' (sock_fd c') = Some (peers w (attempts w)) \<and> ready (sock_fd c') (peers w (attempts w)) ident req body"
    using reconnect_connects [OF re] rec by (clarsimp simp: reconnects_def)
  then have "lines (store_conn a c' w') (sock_fd c') = Some (peers w (attempts w))"
    "ready (sock_fd c') (peers w (attempts w)) ident req body"
    by (simp_all add: store_conn_def)
  from exchange_ready [OF this] obtain l' where
    "exchange (sock_fd c') ident req (store_conn a c' w')
       = Some (Inr (True, Some body, (store_conn a c' w')\<lparr>lines := (lines (store_conn a c' w'))(sock_fd c' \<mapsto> l')\<rparr>))"
    by blast
  moreover have "heap (store_conn a c' w') a = Some c'" by (simp add: store_conn_def)
  ultimately show ?thesis using assms(1) ex re by simp
qed

lemma invoke_service_reaches:
  assumes "res_ok st" and "service_resource_require_node_key g s v st = (Some key, st1)" and "length key < 30"
    and "hash_find (nodes st) key = Some pool" and "unused_conn_list pool = a # us"
    and "heap (world st) a = Some c"
    and "(\<exists>l. lines (world st) (sock_fd c) = Some l \<and> ready (sock_fd c) l (seq + 1) req body)
      \<or> (\<exists>res l. exchange (sock_fd c) (seq + 1) req ((world st)\<lparr>ticks := Suc (ticks (world st))\<rparr>)
             = Some (Inr (False, res, (world st)\<lparr>ticks := Suc (ticks (world st)), lines := l\<rparr>)))
         \<and> reconnects c (world st) (seq + 1) req body"
  shows "\<exists>st'. invoke_service g s v req st seq = Some (Inr (0, Some body, st', seq + 1)) \<and> res_ok st'"
proof -
  have st1: "nodes st1 = nodes st" "world st1 = world st"
    using assms(2) by (auto simp: service_resource_require_node_key_def split: option.splits prod.splits)
  let ?w = "(world st)\<lparr>ticks := Suc (ticks (world st))\<rparr>"
  let ?p = "pool\<lparr>unused_conn_list := us, used_conn_list := used_conn_list pool @ [a]\<rparr>"
  have "pool_at st (Node key) = Some pool" using assms(4) by (simp add: pool_at_def)
  then have inv: "world_ok (world st)" "pool_ok (world st) pool"
    using assms(1) unfolding res_ok_def slots_ok_def by blast+
  have req: "pool_require_connection pool (world st) = Inr (Some a, ?p, world st)"
    using assms(5) by (simp add: pool_require_connection_def pool_get_idle_conn_num_def list_delete_def list_append_def)
  have "keeps (world st) pool (world st) ?p"
    using pool_require_keeps [OF inv] req by auto
  then have p: "world_ok ?w" "pool_ok ?w ?p" "a \<in> conns ?p" "a \<in> set (used_conn_list ?p)"
    using keeps_ticks [of "world st" ?p "Suc (ticks (world st))"] by (auto simp: keeps_def conns_def)
  have "reconnects c ?w = reconnects c (world st)" by (simp add: reconnects_def fun_eq_iff)
  then obtain w' where loop: "invoke_loop (Suc (Suc 0)) a (seq + 1) req None ?w = Some (Inr (0, Some body, w'))"
    using invoke_loop_answers [of ?w a c "seq + 1" req body None] assms(6,7) by fastforce
  then have "keeps ?w ?p w' ?p" using invoke_loop_keeps [OF _ zero_less_Suc p(1-3)] by blast
  with pool_release_keeps [of w' ?p a True] p(4) obtain p' w2 where
    "pool_release_connection ?p (Some a) True w' = Inr (p', w2)" by (auto simp: keeps_def)
  with loop req st1 assms(2-4) have "\<exists>st'. invoke_service g s v req st seq = Some (Inr (0, Some body, st', seq + 1))"
    by (simp add: invoke_service_def snprintf_s_fits node_resource_get_by_key_def next_identifier_def
        get_now_time_def RETRY_TIMES_def Let_def del: invoke_loop.simps)
  then show ?thesis using invoke_service_keeps [OF assms(1)] by blast
qed

section \<open>Properties\<close>


text \<open>
  C31: a call succeeds with the node's answer when the node it is routed to has an idle connection
  and either this connection's line answers, or the first attempt fails in any way and a new
  connection can be made whose line answers.
\<close>

theorem invoke_service_answers:
  assumes "res_ok st" and "service_resource_require_node_key g s v st = (Some key, st1)" and "length key < 30"
    and "hash_find (nodes st) key = Some pool" and "unused_conn_list pool = a # us"
    and "heap (world st) a = Some c"
    and "(\<exists>l. lines (world st) (sock_fd c) = Some l \<and> ready (sock_fd c) l (seq + 1) req body)
      \<or> (\<exists>res l. exchange (sock_fd c) (seq + 1) req ((world st)\<lparr>ticks := Suc (ticks (world st))\<rparr>)
             = Some (Inr (False, res, (world st)\<lparr>ticks := Suc (ticks (world st)), lines := l\<rparr>)))
         \<and> reconnects c (world st) (seq + 1) req body"
  shows "\<exists>st'. invoke_service g s v req st seq = Some (Inr (0, Some body, st', seq + 1)) \<and> res_ok st'"
  using assms by (rule invoke_service_reaches)

text \<open>
  A world whose first connection breaks on the first request and whose later connections answer
  request 8, and an agent with one provider in it.
\<close>

definition demo_line :: channel where
  "demo_line = \<lparr>ch_send = [Sent 10, SendErr EINTR, Sent 8], ch_sel = [SelReady, SelReady],
     ch_recv = [Recv 16, Recv 1], ch_in = message_buf 8 BIZ_RES_MSG_TYPE [42], ch_out = []\<rparr>"

definition demo_world :: world where
  "demo_world = sample_world\<lparr>net := (\<lambda>n host port. True),
     peers := (\<lambda>n. if n = 0 then sample_channel\<lparr>ch_send := [SendErr EPIPE]\<rparr> else demo_line)\<rparr>"

definition demo_agent :: resources where
  "demo_agent = resource_add (\<lambda>name dflt. dflt) ''g'' ''s'' ''1'' ''10.0.0.1'' 80 (node_resource_init demo_world)"

lemma demo_agent_ok: "res_ok demo_agent"
proof -
  have "world_ok demo_world" using sample_world_ok by (simp add: demo_world_def world_ok_def)
  from resource_add_keeps [OF res_ok_init [OF this]] show ?thesis by (simp add: demo_agent_def)
qed

lemma demo_send: "send_message (sample_channel\<lparr>ch_send := [SendErr EPIPE]\<rparr>) ident type buffer = Some (-1, sample_channel)"
  by (simp add: send_message_def socket_send_def retryable_def sample_channel_def)

lemma demo_ready: "ready 3 demo_line 8 [1, 2] [42]"
  by (rule ready_intro [of _ _ _ _ _ "[]" "[]" "[Recv 16]" "[Recv 1]" "[]"])
     (simp_all add: demo_line_def send_message_def socket_send_def length_message_buf header_size_def retryable_def
        delivers_body_def selectable_def FD_SETSIZE_def)

lemma demo_agent_state:
  "map (\<lambda>(k, p). (k, unused_conn_list p)) (nodes demo_agent) = [(''10.0.0.1#80'', [0])]"
  "map_option (\<lambda>c. (sock_fd c, conn_host c, conn_port c)) (heap (world demo_agent) 0) = Some (3, ''10.0.0.1'', 80)"
  "fst (service_resource_require_node_key ''g'' ''s'' ''1'' demo_agent) = Some ''10.0.0.1#80''"
  "open_fds (world demo_agent) = [3, 0, 1, 2] \<and> fd_limit (world demo_agent) = 10 \<and> attempts (world demo_agent) = 1"
  by code_simp+

lemma demo_agent_net:
  "net (world demo_agent) 1 ''10.0.0.1'' 80" "peers (world demo_agent) 1 = demo_line"
  "lines (world demo_agent) 3 = Some (sample_channel\<lparr>ch_send := [SendErr EPIPE]\<rparr>)"
  by code_simp+

text \<open>What the two properties about calls need of this agent.\<close>

lemma demo_agent_call:
  obtains st1 p c where
    "service_resource_require_node_key ''g'' ''s'' ''1'' demo_agent = (Some ''10.0.0.1#80'', st1)"
    and "hash_find (nodes demo_agent) ''10.0.0.1#80'' = Some p" and "unused_conn_list p = [0]"
    and "heap (world demo_agent) 0 = Some c"
    and "\<exists>res l. exchange (sock_fd c) (7 + 1) [1, 2] ((world demo_agent)\<lparr>ticks := Suc (ticks (world demo_agent))\<rparr>)
      = Some (Inr (False, res, (world demo_agent)\<lparr>ticks := Suc (ticks (world demo_agent)), lines := l\<rparr>))"
    and "reconnects c (world demo_agent) (7 + 1) [1, 2] [42]"
proof -
  obtain st1 where route: "service_resource_require_node_key ''g'' ''s'' ''1'' demo_agent = (Some ''10.0.0.1#80'', st1)"
    using demo_agent_state(3) by (metis prod.collapse)
  obtain p where p: "nodes demo_agent = [(''10.0.0.1#80'', p)]" "unused_conn_list p = [0]"
    using demo_agent_state(1) by auto
  obtain c where c: "heap (world demo_agent) 0 = Some c" "sock_fd c = 3" "conn_host c = ''10.0.0.1''" "conn_port c = 80"
    using demo_agent_state(2) by auto
  have "reconnects c (world demo_agent) (7 + 1) [1, 2] [42]"
    using c demo_agent_state(4) demo_agent_net demo_ready by (simp add: reconnects_def lowest_free_def)
  moreover have "\<exists>res l. exchange (sock_fd c) (7 + 1) [1, 2] ((world demo_agent)\<lparr>ticks := Suc (ticks (world demo_agent))\<rparr>)
      = Some (Inr (False, res, (world demo_agent)\<lparr>ticks := Suc (ticks (world demo_agent)), lines := l\<rparr>))"
    using c demo_agent_net demo_send by (auto simp: exchange_def line_of_def)
  moreover have "hash_find (nodes demo_agent) ''10.0.0.1#80'' = Some p" using p(1) by (simp add: hash_find_def)
  ultimately show thesis using that route p(2) c(1) by blast
qed

lemma demo_agent_returns:
  "\<exists>st'. invoke_service ''g'' ''s'' ''1'' [1, 2] demo_agent 7 = Some (Inr (0, Some [42], st', 8)) \<and> res_ok st'"
  by (rule demo_agent_call) (use invoke_service_reaches [OF demo_agent_ok, of _ _ _ "''10.0.0.1#80''" _ _ _ "[]" _ 7] in fastforce)

theorem invoke_service_answers_witness:
  "\<exists>st'. invoke_service ''g'' ''s'' ''1'' [1, 2] demo_agent 7 = Some (Inr (0, Some [42], st', 8)) \<and> res_ok st'"
proof (rule demo_agent_call)
  fix st1 p c
  assume "service_resource_require_node_key ''g'' ''s'' ''1'' demo_agent = (Some ''10.0.0.1#80'', st1)"
    and "hash_find (nodes demo_agent) ''10.0.0.1#80'' = Some p" and "unused_conn_list p = [0]"
    and "heap (world demo_agent) 0 = Some c"
    and "\<exists>res l. exchange (sock_fd c) (7 + 1) [1, 2] ((world demo_agent)\<lparr>ticks := Suc (ticks (world demo_agent))\<rparr>)
      = Some (Inr (False, res, (world demo_agent)\<lparr>ticks := Suc (ticks (world demo_agent)), lines := l\<rparr>))"
    and "reconnects c (world demo_agent) (7 + 1) [1, 2] [42]"
  then show ?thesis
    using invoke_service_answers [OF demo_agent_ok, of "''g''" "''s''" "''1''" "''10.0.0.1#80''" st1 p 0 "[]" c 7 "[1, 2]" "[42]"]
    by simp
qed


end
