(* ===== verification/Proxy_Message.thy ===== *)
theory Proxy_Message
  imports Protocol
begin

text \<open>
  soaagent/proxy_message.c: the messages between the agent and its local clients, a length and a
  protobuf message.  The protobuf coding is generated code over a library that is not part of the
  program: \<open>proxy_codec\<close> holds the four functions the program calls, and \<open>codec_ok\<close> is what it
  relies on.
\<close>

section \<open>Messages\<close>

record proxy_request =
  req_group :: string
  req_service :: string
  req_version :: string
  req_data :: "byte list"

record proxy_response =
  resp_status :: int
  resp_data :: "byte list"

record proxy_codec =
  request_pack :: "proxy_request \<Rightarrow> byte list"
  request_unpack :: "byte list \<Rightarrow> proxy_request option"
  response_pack :: "proxy_response \<Rightarrow> byte list"
  response_unpack :: "byte list \<Rightarrow> proxy_response option"

definition codec_ok :: "proxy_codec \<Rightarrow> bool" where
  "codec_ok codec \<longleftrightarrow> (\<forall>m. request_unpack codec (request_pack codec m) = Some m)
     \<and> (\<forall>m. response_unpack codec (response_pack codec m) = Some m)"

section \<open>Coding\<close>

text \<open>A message without bytes is left as the NULL buffer of length 0.\<close>

definition proxy_request_encode ::
  "proxy_codec \<Rightarrow> string \<Rightarrow> string \<Rightarrow> string \<Rightarrow> byte list \<Rightarrow> byte list" where
  "proxy_request_encode codec grp service_name service_version request_body =
     request_pack codec \<lparr>req_group = grp, req_service = service_name, req_version = service_version,
                         req_data = request_body\<rparr>"

definition proxy_request_decode :: "proxy_codec \<Rightarrow> byte list \<Rightarrow> int \<times> proxy_request option" where
  "proxy_request_decode codec buffer =
     (case request_unpack codec buffer of None \<Rightarrow> (-1, None) | Some m \<Rightarrow> (0, Some m))"

definition proxy_response_encode :: "proxy_codec \<Rightarrow> int \<Rightarrow> byte list \<Rightarrow> byte list" where
  "proxy_response_encode codec st response_body =
     response_pack codec \<lparr>resp_status = st, resp_data = response_body\<rparr>"

definition proxy_response_decode :: "proxy_codec \<Rightarrow> byte list \<Rightarrow> int \<times> proxy_response option" where
  "proxy_response_decode codec buffer =
     (case response_unpack codec buffer of None \<Rightarrow> (-1, None) | Some m \<Rightarrow> (0, Some m))"

section \<open>Sending and receiving\<close>

definition proxy_header_size :: nat where "proxy_header_size = 4"

definition proxy_frame :: "byte list \<Rightarrow> byte list" where
  "proxy_frame buffer = be32 (word_of_nat (length buffer)) @ buffer"

definition proxy_request_send ::
  "proxy_codec \<Rightarrow> channel \<Rightarrow> string \<Rightarrow> string \<Rightarrow> string \<Rightarrow> byte list \<Rightarrow> (int \<times> channel) option" where
  "proxy_request_send codec ch grp service_name service_version request_body =
     (case socket_send ch (proxy_frame (proxy_request_encode codec grp service_name service_version request_body)) of
        None \<Rightarrow> None
      | Some (ret, ch) \<Rightarrow> Some (if ret \<noteq> 0 then -1 else 0, ch))"

definition proxy_response_send ::
  "proxy_codec \<Rightarrow> channel \<Rightarrow> int \<Rightarrow> byte list \<Rightarrow> (int \<times> channel) option" where
  "proxy_response_send codec ch st response_body =
     (case socket_send ch (proxy_frame (proxy_response_encode codec st response_body)) of
        None \<Rightarrow> None
      | Some (ret, ch) \<Rightarrow> Some (if ret \<noteq> 0 then -1 else 0, ch))"

text \<open>
  The two receivers have one shape; the agent waits without limit for a request, the client three
  seconds for a response.  A body of length 0 is not decoded.
\<close>

definition proxy_receive ::
  "int \<Rightarrow> int \<Rightarrow> (byte list \<Rightarrow> int \<times> 'm option) \<Rightarrow> channel \<Rightarrow> fault + (int \<times> 'm option \<times> channel) option" where
  "proxy_receive sockfd timeout decode ch =
     (case socket_receive sockfd ch proxy_header_size timeout of
        Inl f \<Rightarrow> Inl f
      | Inr None \<Rightarrow> Inr None
      | Inr (Some (r, header, ch)) \<Rightarrow>
          if r \<noteq> 0 then Inr (Some (-1, None, ch))
          else
            let len = unat (of_be32 header) in
            if len = 0 then Inr (Some (0, None, ch))
            else
              (case socket_receive sockfd ch len 3 of
                 Inl f \<Rightarrow> Inl f
               | Inr None \<Rightarrow> Inr None
               | Inr (Some (r, body_value, ch)) \<Rightarrow>
                   if r \<noteq> 0 then Inr (Some (-1, None, ch))
                   else (case decode body_value of (ret, m) \<Rightarrow>
                           Inr (Some (if ret \<noteq> 0 then (-1, None, ch) else (0, m, ch))))))"

definition proxy_request_receive ::
  "proxy_codec \<Rightarrow> int \<Rightarrow> channel \<Rightarrow> fault + (int \<times> proxy_request option \<times> channel) option" where
  "proxy_request_receive codec sockfd ch = proxy_receive sockfd (-1) (proxy_request_decode codec) ch"

definition proxy_response_receive ::
  "proxy_codec \<Rightarrow> int \<Rightarrow> channel \<Rightarrow> fault + (int \<times> proxy_response option \<times> channel) option" where
  "proxy_response_receive codec sockfd ch = proxy_receive sockfd 3 (proxy_response_decode codec) ch"

section \<open>Round trip\<close>

text \<open>What the kernel does with a frame: it delivers the header and the body in any pieces.\<close>

definition brings :: "int \<Rightarrow> channel \<Rightarrow> byte list \<Rightarrow> byte list \<Rightarrow> bool" where
  "brings timeout ch buffer rest \<longleftrightarrow> ch_in ch = proxy_frame buffer @ rest \<and> length buffer < 2 ^ 32
     \<and> (\<exists>e1 e2 later sels. ch_recv ch = e1 @ e2 @ later \<and> delivers e1 proxy_header_size
          \<and> delivers_body e2 (length buffer)
          \<and> ch_sel ch = (if timeout > 0 then [SelReady, SelReady] else [SelReady]) @ sels)"

lemma socket_receive_now:
  "t \<le> 0 \<Longrightarrow> ch_recv ch = evs @ later \<Longrightarrow> delivers evs need \<Longrightarrow> need \<le> length (ch_in ch) \<Longrightarrow>
     socket_receive sockfd ch need t = Inr (Some (0, take need (ch_in ch), ch\<lparr>ch_recv := later, ch_in := drop need (ch_in ch)\<rparr>))"
  by (simp add: socket_receive_def receive_ready_def recv_loop_delivers)

lemma proxy_receive_brings:
  assumes "brings t ch buffer rest" and fd: "selectable sockfd"
  shows "\<exists>ch'. ch_in ch' = rest \<and> proxy_receive sockfd t decode ch =
     Inr (Some (if buffer = [] then (0, None, ch')
           else case decode buffer of (ret, m) \<Rightarrow> if ret \<noteq> 0 then (-1, None, ch') else (0, m, ch')))"
proof -
  obtain e1 e2 later sels where ev: "ch_recv ch = e1 @ e2 @ later" "delivers e1 4" "delivers_body e2 (length buffer)"
    "ch_sel ch = (if t > 0 then [SelReady, SelReady] else [SelReady]) @ sels"
    and inp: "ch_in ch = proxy_frame buffer @ rest" and len: "length buffer < 2 ^ 32"
    using assms(1) by (auto simp: brings_def proxy_header_size_def)
  let ?h = "be32 (word_of_nat (length buffer))"
  have n: "unat (of_be32 ?h) = length buffer"
    using len of_be32_be32 [of "word_of_nat (length buffer)" "[]"] by (simp add: unat_of_nat)
  let ?ch = "ch\<lparr>ch_sel := SelReady # sels, ch_recv := e2 @ later, ch_in := buffer @ rest\<rparr>"
  have hdr: "socket_receive sockfd ch proxy_header_size t = Inr (Some (0, ?h, ?ch))"
  proof (cases "t > 0")
    case True
    then show ?thesis
      using fd ev inp socket_receive_delivers [of sockfd t ch "SelReady # sels" e1 "e2 @ later" 4]
      by (simp add: proxy_header_size_def proxy_frame_def)
  next
    case False
    then have "ch_sel ch = SelReady # sels" using ev by simp
    then have "ch\<lparr>ch_recv := e2 @ later, ch_in := buffer @ rest\<rparr> = ?ch" by simp
    then show ?thesis
      using False ev inp socket_receive_now [of t ch e1 "e2 @ later" 4 sockfd]
      by (simp add: proxy_header_size_def proxy_frame_def)
  qed
  show ?thesis
  proof (cases "buffer = []")
    case True
    then show ?thesis using hdr n by (simp add: proxy_receive_def)
  next
    case False
    then have "socket_receive sockfd ?ch (length buffer) 3 = Inr (Some (0, buffer, ch\<lparr>ch_sel := sels, ch_recv := later, ch_in := rest\<rparr>))"
      using fd socket_receive_delivers [of sockfd 3 ?ch sels e2 later "length buffer"] ev(3) by (simp add: delivers_body_def)
    then show ?thesis using hdr n False by (auto simp: proxy_receive_def split: prod.split)
  qed
qed

lemma proxy_request_received:
  assumes "codec_ok codec" and "proxy_request_encode codec g s v body \<noteq> []"
    and "brings (-1) ch (proxy_request_encode codec g s v body) rest" and "selectable sockfd"
  shows "\<exists>ch'. proxy_request_receive codec sockfd ch =
      Inr (Some (0, Some \<lparr>req_group = g, req_service = s, req_version = v, req_data = body\<rparr>, ch')) \<and> ch_in ch' = rest"
  using proxy_receive_brings [OF assms(3,4), of "proxy_request_decode codec"] assms(1,2)
  by (auto simp: proxy_request_receive_def proxy_request_decode_def proxy_request_encode_def codec_ok_def)

text \<open>
  C23: whatever the pieces and interruptions of delivery, the receiver of a proxy message gets the
  request, or the response, that was encoded, and nothing after it is consumed, on any descriptor
  that an \<open>fd_set\<close> can hold.
\<close>

theorem proxy_roundtrip:
  assumes "codec_ok codec"
    and "proxy_request_encode codec g s v body \<noteq> []" and "brings (-1) ch (proxy_request_encode codec g s v body) rest"
    and "proxy_response_encode codec st res \<noteq> []" and "brings 3 rch (proxy_response_encode codec st res) rest'"
    and "selectable sockfd"
  shows "(\<exists>ch'. proxy_request_receive codec sockfd ch =
        Inr (Some (0, Some \<lparr>req_group = g, req_service = s, req_version = v, req_data = body\<rparr>, ch')) \<and> ch_in ch' = rest)
    \<and> (\<exists>rch'. proxy_response_receive codec sockfd rch =
        Inr (Some (0, Some \<lparr>resp_status = st, resp_data = res\<rparr>, rch')) \<and> ch_in rch' = rest')"
proof
  show "\<exists>ch'. proxy_request_receive codec sockfd ch =
      Inr (Some (0, Some \<lparr>req_group = g, req_service = s, req_version = v, req_data = body\<rparr>, ch')) \<and> ch_in ch' = rest"
    by (rule proxy_request_received [OF assms(1-3,6)])
  show "\<exists>rch'. proxy_response_receive codec sockfd rch =
      Inr (Some (0, Some \<lparr>resp_status = st, resp_data = res\<rparr>, rch')) \<and> ch_in rch' = rest'"
    using proxy_receive_brings [OF assms(5,6), of "proxy_response_decode codec"] assms(1,4)
    by (auto simp: proxy_response_receive_def proxy_response_decode_def proxy_response_encode_def codec_ok_def)
qed

text \<open>A codec: one field after the other, each byte of it behind a mark, the status in unary.\<close>

fun put_field :: "byte list \<Rightarrow> byte list" where
  "put_field [] = [0]"
| "put_field (b # bs) = 1 # b # put_field bs"

fun get_field :: "byte list \<Rightarrow> (byte list \<times> byte list) option" where
  "get_field (m # bs) =
     (if m = 0 then Some ([], bs)
      else (case bs of [] \<Rightarrow> None
            | b # bs \<Rightarrow> (case get_field bs of None \<Rightarrow> None | Some (f, r) \<Rightarrow> Some (b # f, r))))"
| "get_field [] = None"

lemma get_put_field [simp]: "get_field (put_field f @ r) = Some (f, r)"
  by (induction f) auto

definition text_bytes :: "string \<Rightarrow> byte list" where "text_bytes = map (\<lambda>c. word_of_nat (of_char c))"
definition bytes_text :: "byte list \<Rightarrow> string" where "bytes_text = map (\<lambda>b. char_of (unat b))"

lemma bytes_text_inverse [simp]: "bytes_text (text_bytes s) = s"
proof -
  have "unat (word_of_nat (of_char c) :: byte) = of_char c" for c
    using nat_of_char_less_256 [of c] by (simp add: unat_of_nat)
  then show ?thesis by (simp add: bytes_text_def text_bytes_def map_idI)
qed

definition sample_codec :: proxy_codec where
  "sample_codec = \<lparr>
     request_pack = (\<lambda>m. put_field (text_bytes (req_group m)) @ put_field (text_bytes (req_service m))
        @ put_field (text_bytes (req_version m)) @ put_field (req_data m)),
     request_unpack = (\<lambda>b. Option.bind (get_field b) (\<lambda>(g, b). Option.bind (get_field b) (\<lambda>(s, b).
        Option.bind (get_field b) (\<lambda>(v, b). Option.bind (get_field b) (\<lambda>(d, b).
          Some \<lparr>req_group = bytes_text g, req_service = bytes_text s, req_version = bytes_text v, req_data = d\<rparr>))))),
     response_pack = (\<lambda>m. put_field (replicate (nat (resp_status m)) 0) @ put_field (replicate (nat (- resp_status m)) 0)
        @ put_field (resp_data m)),
     response_unpack = (\<lambda>b. Option.bind (get_field b) (\<lambda>(p, b). Option.bind (get_field b) (\<lambda>(n, b).
        Option.bind (get_field b) (\<lambda>(d, b). Some \<lparr>resp_status = int (length p) - int (length n), resp_data = d\<rparr>))))\<rparr>"

lemma sample_codec_ok: "codec_ok sample_codec"
proof -
  have last: "get_field (put_field f) = Some (f, [])" for f
    using get_put_field [of f "[]"] by simp
  have "int (nat n) - int (nat (- n)) = n" for n by simp
  then show ?thesis by (simp add: codec_ok_def sample_codec_def last)
qed

theorem proxy_roundtrip_witness:
  "\<exists>ch'. proxy_request_receive sample_codec 5 \<lparr>ch_send = [], ch_sel = [SelReady],
       ch_recv = [Recv 1, Recv 3, RecvErr EINTR, Recv 12],
       ch_in = proxy_frame (proxy_request_encode sample_codec ''g'' ''s'' ''1'' [5]) @ [9], ch_out = []\<rparr>
     = Inr (Some (0, Some \<lparr>req_group = ''g'', req_service = ''s'', req_version = ''1'', req_data = [5]\<rparr>, ch')) \<and> ch_in ch' = [9]"
proof -
  let ?q = "proxy_request_encode sample_codec ''g'' ''s'' ''1'' [5]" and ?r = "proxy_response_encode sample_codec 0 [6]"
  have len: "length ?q = 12" "length ?r = 5" by code_simp+
  let ?ch = "\<lparr>ch_send = [], ch_sel = [SelReady], ch_recv = [Recv 1, Recv 3, RecvErr EINTR, Recv 12],
     ch_in = proxy_frame ?q @ [9], ch_out = []\<rparr>"
  let ?rch = "\<lparr>ch_send = [], ch_sel = [SelReady, SelReady], ch_recv = [Recv 4, Recv 5],
     ch_in = proxy_frame ?r @ [], ch_out = []\<rparr>"
  have "brings (-1) ?ch ?q [9]"
    unfolding brings_def
    by (intro conjI exI [of _ "[Recv 1, Recv 3]"] exI [of _ "[RecvErr EINTR, Recv 12]"] exI [of _ "[]"])
       (simp_all add: len proxy_header_size_def delivers_body_def retryable_def)
  moreover have "brings 3 ?rch ?r []"
    unfolding brings_def
    by (intro conjI exI [of _ "[Recv 4]"] exI [of _ "[Recv 5]"] exI [of _ "[]"])
       (simp_all add: len proxy_header_size_def delivers_body_def)
  moreover have "selectable 5" by (simp add: selectable_def FD_SETSIZE_def)
  moreover have "?q \<noteq> []" "?r \<noteq> []" using len by auto
  ultimately show ?thesis
    using proxy_roundtrip [OF sample_codec_ok, of "''g''" "''s''" "''1''" "[5]" ?ch "[9]" 0 "[6]" ?rch "[]" 5] by blast
qed

end
