(* ===== verification/Server.thy ===== *)
theory Server
  imports Invoke_Service Proxy_Message Selector File_System "HOL-Library.Sublist"
begin

text \<open>
  soaagent/server.c: the listening thread hands each accepted connection to a worker through a
  pipe, the workers read requests from their clients, call the service and write the response.
  The event loop is libevent's; the model has its callbacks, with the buffers of a connection and
  the contents of the pipes as state.
\<close>

section \<open>State\<close>

record client =
  c_fd :: int
  c_input :: "byte list"
  c_output :: "byte list"

text \<open>\<open>m_notify\<close> holds what has been written to the worker's pipe and not yet read.\<close>

record worker_info =
  m_thread_name :: string
  m_notify :: "int list"
  m_clients :: "client list"

record server =
  global_worker_info_list :: "worker_info list"
  global_cycle_counter :: int

section \<open>Accepting\<close>

definition get_next_worker_index :: "int \<Rightarrow> int \<Rightarrow> fault + int \<times> int" where
  "get_next_worker_index thread_num seq =
     (if thread_num = 0 then Inl DivByZero
      else
        let index = seq mod thread_num; seq = seq + 1
        in Inr (index, if seq > 0xFFFF then 0 else seq))"

text \<open>\<open>fd\<close> is what \<open>accept\<close> returns; a refused descriptor is closed.\<close>

definition do_accept :: "int \<Rightarrow> server \<Rightarrow> fault + server" where
  "do_accept fd srv =
     (if fd < 0 then Inr srv
      else if fd > FD_SETSIZE then Inr srv
      else
        after (get_next_worker_index (int (length (global_worker_info_list srv))) (global_cycle_counter srv))
          (\<lambda>(index, seq).
             let i = nat index; w = global_worker_info_list srv ! i in
             Inr (srv\<lparr>global_worker_info_list :=
                        (global_worker_info_list srv)[i := w\<lparr>m_notify := m_notify w @ [fd]\<rparr>],
                      global_cycle_counter := seq\<rparr>)))"

definition do_handle_notify :: "worker_info \<Rightarrow> worker_info" where
  "do_handle_notify w =
     (case m_notify w of
        [] \<Rightarrow> w
      | fd # fds \<Rightarrow> w\<lparr>m_notify := fds, m_clients := m_clients w @ [\<lparr>c_fd = fd, c_input = [], c_output = []\<rparr>]\<rparr>)"

definition errorcb :: "int \<Rightarrow> worker_info \<Rightarrow> worker_info" where
  "errorcb fd w = w\<lparr>m_clients := filter (\<lambda>c. c_fd c \<noteq> fd) (m_clients w)\<rparr>"

section \<open>Requests\<close>

definition tick :: "resources \<Rightarrow> resources" where
  "tick st = st\<lparr>world := snd (get_now_time (world st))\<rparr>"

text \<open>
  Result code, the two buffers, the agent's resources and the identifier counter.  A body of
  length 0 removes nothing from the buffer, which the code takes for a failure.
\<close>

definition handle_buffer ::
  "proxy_codec \<Rightarrow> byte list \<Rightarrow> byte list \<Rightarrow> resources \<Rightarrow> u32
     \<Rightarrow> (fault + int \<times> byte list \<times> byte list \<times> resources \<times> u32) option" where
  "handle_buffer codec input output st seq =
     (let available = length input; body_len = unat (of_be32 (take proxy_header_size input)) in
      if available < proxy_header_size \<or> available < proxy_header_size + body_len
      then Some (Inr (0, input, output, st, seq))
      else
        let input = drop proxy_header_size input; st = tick st in
        if body_len = 0 then Some (Inr (0, input, output, tick st, seq))
        else
          let body = take body_len input; input = drop body_len input in
          (case proxy_request_decode codec body of
             (ret, req_msg) \<Rightarrow>
               if ret \<noteq> 0 then Some (Inr (-1, input, output, st, seq))
               else
                 (case req_msg of
                    None \<Rightarrow> Some (Inl NullDeref)
                  | Some m \<Rightarrow>
                      (case invoke_service (req_group m) (req_service m) (req_version m) (req_data m) st seq of
                         None \<Rightarrow> None
                       | Some (Inl f) \<Rightarrow> Some (Inl f)
                       | Some (Inr (ret, res_buf, st, seq)) \<Rightarrow>
                           let (st_code, resp) =
                             (if ret = 0 then (0, case res_buf of None \<Rightarrow> [] | Some b \<Rightarrow> b) else (1, []));
                             message_buf = proxy_frame (proxy_response_encode codec st_code resp)
                           in Some (Inr (0, input, output @ message_buf, tick st, seq))))))"

text \<open>Data arrive on a connection; the result is \<open>None\<close> for a connection that is closed.\<close>

definition readcb ::
  "proxy_codec \<Rightarrow> byte list \<Rightarrow> client \<Rightarrow> resources \<Rightarrow> u32
     \<Rightarrow> (fault + client option \<times> resources \<times> u32) option" where
  "readcb codec data c st seq =
     (case handle_buffer codec (c_input c @ data) (c_output c) st seq of
        None \<Rightarrow> None
      | Some (Inl f) \<Rightarrow> Some (Inl f)
      | Some (Inr (ret, input, output, st, seq)) \<Rightarrow>
          Some (Inr (if ret \<noteq> 0 then None else Some (c\<lparr>c_input := input, c_output := output\<rparr>), st, seq)))"

section \<open>Starting\<close>

text \<open>What the system answers at the start.\<close>

record startup_answers =
  base_ok :: bool
  bind_ok :: bool
  listen_ok :: bool
  socketpair_ok :: "nat \<Rightarrow> bool"
  worker_base_ok :: "nat \<Rightarrow> bool"
  thread_ok :: "nat \<Rightarrow> bool"

definition worker_name :: "nat \<Rightarrow> string" where
  "worker_name i = snprintf_s 20 (''worker-'' @ (if i < 10 then ''0'' else []) @ dec_nat i)"

definition tcp_server_startup_with_multibase :: "startup_answers \<Rightarrow> int \<Rightarrow> int \<times> server option" where
  "tcp_server_startup_with_multibase os thread_num =
     (if thread_num < 0 then (-1, None)
      else if \<not> base_ok os then (-1, None)
      else if \<not> bind_ok os then (-1, None)
      else if \<not> listen_ok os then (-1, None)
      else
        let n = nat thread_num in
        if \<not> list_all (\<lambda>i. socketpair_ok os i \<and> worker_base_ok os i) [0 ..< n] then (-1, None)
        else if \<not> list_all (thread_ok os) [0 ..< n] then (-1, None)
        else (0, Some \<lparr>global_worker_info_list =
                         map (\<lambda>i. \<lparr>m_thread_name = worker_name i, m_notify = [], m_clients = []\<rparr>) [0 ..< n],
                       global_cycle_counter = 0\<rparr>))"

definition server_startup_multibase ::
  "startup_answers \<Rightarrow> config \<Rightarrow> string \<Rightarrow> int \<times> server option" where
  "server_startup_multibase os cfg listen_addr =
     (case parse_addr listen_addr 20 of
        Some (ip_buf, port) \<Rightarrow> tcp_server_startup_with_multibase os (cfg ''server:thread_num'' 10)
      | None \<Rightarrow> (-1, None))"

section \<open>Requests in pieces\<close>

fun feed ::
  "proxy_codec \<Rightarrow> byte list list \<Rightarrow> client \<Rightarrow> resources \<Rightarrow> u32
     \<Rightarrow> (fault + client option \<times> resources \<times> u32) option" where
  "feed codec [] c st seq = Some (Inr (Some c, st, seq))"
| "feed codec (data # rest) c st seq =
     (case readcb codec data c st seq of
        Some (Inr (Some c, st, seq)) \<Rightarrow> feed codec rest c st seq
      | r \<Rightarrow> r)"

lemma frame_length: "length (proxy_frame b) = proxy_header_size + length b"
  by (simp add: proxy_frame_def proxy_header_size_def)

lemma frame_header:
  assumes "length b < 2 ^ 32" and "proxy_header_size \<le> length p" and "prefix p (proxy_frame b @ rest)"
  shows "unat (of_be32 (take proxy_header_size p)) = length b"
proof -
  obtain zs where zs: "proxy_frame b @ rest = p @ zs" using assms(3) by (auto simp: prefix_def)
  have "take proxy_header_size p = take proxy_header_size (p @ zs)" using assms(2) by simp
  also have "\<dots> = be32 (word_of_nat (length b))"
    unfolding zs [symmetric] by (simp add: proxy_frame_def proxy_header_size_def)
  finally have "take proxy_header_size p = be32 (word_of_nat (length b))" .
  then show ?thesis
    using assms(1) of_be32_be32 [of "word_of_nat (length b)" "[]"] by (simp add: unat_of_nat)
qed

lemma handle_buffer_short:
  assumes "length b < 2 ^ 32" and "prefix p (proxy_frame b)" and "length p < length (proxy_frame b)"
  shows "handle_buffer codec p output st seq = Some (Inr (0, p, output, st, seq))"
proof (cases "length p < proxy_header_size")
  case False
  then have "unat (of_be32 (take proxy_header_size p)) = length b"
    using frame_header [OF assms(1), where rest = "[]" and p = p] assms(2) by simp
  then show ?thesis using assms(3) frame_length [of b] by (simp add: handle_buffer_def Let_def)
qed (simp add: handle_buffer_def Let_def)

lemma feed_short:
  "length b < 2 ^ 32 \<Longrightarrow> prefix (c_input c @ concat chunks) (proxy_frame b) \<Longrightarrow>
     length (c_input c @ concat chunks) < length (proxy_frame b) \<Longrightarrow>
     feed codec (chunks @ later) c st seq = feed codec later (c\<lparr>c_input := c_input c @ concat chunks\<rparr>) st seq"
proof (induction chunks arbitrary: c)
  case (Cons d ds)
  have "prefix (c_input c @ d) (proxy_frame b)" "length (c_input c @ d) < length (proxy_frame b)"
    using Cons.prems by (auto simp: prefix_def)
  then have "readcb codec d c st seq = Some (Inr (Some (c\<lparr>c_input := c_input c @ d\<rparr>), st, seq))"
    using handle_buffer_short [OF Cons.prems(1)] by (simp add: readcb_def)
  then show ?case using Cons.IH [of "c\<lparr>c_input := c_input c @ d\<rparr>"] Cons.prems by simp
qed simp

text \<open>The bytes of the answer to a call.\<close>

definition reply :: "proxy_codec \<Rightarrow> int \<Rightarrow> byte list option \<Rightarrow> byte list" where
  "reply codec ret res = proxy_frame (if ret = 0
     then proxy_response_encode codec 0 (case res of None \<Rightarrow> [] | Some b \<Rightarrow> b)
     else proxy_response_encode codec 1 [])"

lemma handle_buffer_complete:
  assumes "codec_ok codec" and "proxy_request_encode codec g s v body \<noteq> []"
    and "length (proxy_request_encode codec g s v body) < 2 ^ 32"
    and "invoke_service g s v body (tick st) seq = Some (Inr (ret, res, st', seq'))"
  shows "handle_buffer codec (proxy_frame (proxy_request_encode codec g s v body) @ rest) output st seq
    = Some (Inr (0, rest, output @ reply codec ret res, tick st', seq'))"
proof -
  let ?b = "proxy_request_encode codec g s v body"
  have n: "unat (of_be32 (take proxy_header_size (proxy_frame ?b @ rest))) = length ?b"
    by (rule frame_header [OF assms(3), where rest = rest]) (simp_all add: frame_length)
  have drop: "drop proxy_header_size (proxy_frame ?b @ rest) = ?b @ rest"
    by (simp add: proxy_frame_def proxy_header_size_def)
  have "proxy_request_decode codec ?b = (0, Some \<lparr>req_group = g, req_service = s, req_version = v, req_data = body\<rparr>)"
    using assms(1) by (simp add: proxy_request_decode_def proxy_request_encode_def codec_ok_def)
  then show ?thesis
    using assms(2,4) n drop by (simp add: handle_buffer_def Let_def frame_length reply_def)
qed

section \<open>The invariant of the server\<close>

definition fds_of :: "worker_info \<Rightarrow> int list" where
  "fds_of w = m_notify w @ map c_fd (m_clients w)"

abbreviation workers :: "server \<Rightarrow> worker_info list" where "workers \<equiv> global_worker_info_list"

definition held :: "server \<Rightarrow> int set" where
  "held srv = (\<Union>w \<in> set (workers srv). set (fds_of w))"

text \<open>Every connection is with one worker, once: in its pipe or among its clients.\<close>

definition server_ok :: "server \<Rightarrow> bool" where
  "server_ok srv \<longleftrightarrow> (\<forall>i < length (workers srv). distinct (fds_of (workers srv ! i)))
     \<and> (\<forall>i < length (workers srv). \<forall>j < length (workers srv). i \<noteq> j \<longrightarrow>
          set (fds_of (workers srv ! i)) \<inter> set (fds_of (workers srv ! j)) = {})
     \<and> 0 \<le> global_cycle_counter srv \<and> global_cycle_counter srv \<le> 0xFFFF"

lemma server_ok_update:
  assumes "server_ok srv" and "i < length (workers srv)" and "distinct (fds_of w)"
    and "set (fds_of w) \<subseteq> set (fds_of (workers srv ! i)) \<union> - held srv" and "0 \<le> n" and "n \<le> 0xFFFF"
  shows "server_ok (srv\<lparr>global_worker_info_list := (workers srv)[i := w], global_cycle_counter := n\<rparr>)"
proof -
  have "set (fds_of w) \<inter> set (fds_of (workers srv ! j)) = {}" if "j < length (workers srv)" "i \<noteq> j" for j
  proof -
    have "workers srv ! j \<in> set (workers srv)" using that by simp
    then have "set (fds_of (workers srv ! j)) \<subseteq> held srv" unfolding held_def by blast
    moreover have "set (fds_of (workers srv ! i)) \<inter> set (fds_of (workers srv ! j)) = {}"
      using assms(1,2) that unfolding server_ok_def by blast
    ultimately show ?thesis using assms(4) by blast
  qed
  then show ?thesis
    using assms(1-3,5,6) by (auto simp: server_ok_def nth_list_update Int_commute)
qed

lemma server_ok_set_worker:
  assumes "server_ok srv" and "i < length (workers srv)" and "distinct (fds_of w)"
    and "set (fds_of w) \<subseteq> set (fds_of (workers srv ! i))"
  shows "server_ok (srv\<lparr>global_worker_info_list := (workers srv)[i := w]\<rparr>)"
  using server_ok_update [OF assms(1-3), of "global_cycle_counter srv"] assms(1,4)
  by (auto simp: server_ok_def)

text \<open>The events; a descriptor that \<open>accept\<close> returns is not open yet.\<close>

inductive server_step :: "proxy_codec \<Rightarrow> server \<Rightarrow> server \<Rightarrow> bool" for codec where
  accept: "fd \<notin> held srv \<Longrightarrow> do_accept fd srv = Inr srv' \<Longrightarrow> server_step codec srv srv'"
| notify: "i < length (workers srv) \<Longrightarrow>
     server_step codec srv (srv\<lparr>global_worker_info_list := (workers srv)[i := do_handle_notify (workers srv ! i)]\<rparr>)"
| error: "i < length (workers srv) \<Longrightarrow>
     server_step codec srv (srv\<lparr>global_worker_info_list := (workers srv)[i := errorcb fd (workers srv ! i)]\<rparr>)"
| read: "i < length (workers srv) \<Longrightarrow> w = workers srv ! i \<Longrightarrow> j < length (m_clients w) \<Longrightarrow>
     readcb codec data (m_clients w ! j) st seq = Some (Inr (Some c, st', seq')) \<Longrightarrow>
     server_step codec srv (srv\<lparr>global_worker_info_list := (workers srv)[i := w\<lparr>m_clients := (m_clients w)[j := c]\<rparr>]\<rparr>)"
| reject: "i < length (workers srv) \<Longrightarrow> w = workers srv ! i \<Longrightarrow> j < length (m_clients w) \<Longrightarrow>
     readcb codec data (m_clients w ! j) st seq = Some (Inr (None, st', seq')) \<Longrightarrow>
     server_step codec srv (srv\<lparr>global_worker_info_list := (workers srv)[i := errorcb (c_fd (m_clients w ! j)) w]\<rparr>)"

lemma readcb_fd: "readcb codec data c st seq = Some (Inr (Some c', st', seq')) \<Longrightarrow> c_fd c' = c_fd c"
  by (auto simp: readcb_def split: option.splits sum.splits prod.splits if_splits)

lemma notify_fds:
  "set (fds_of (do_handle_notify w)) = set (fds_of w)"
  "distinct (fds_of w) \<Longrightarrow> distinct (fds_of (do_handle_notify w))"
  by (auto simp: fds_of_def do_handle_notify_def split: list.splits)

lemma error_fds:
  "set (fds_of (errorcb fd w)) \<subseteq> set (fds_of w)"
  "distinct (fds_of w) \<Longrightarrow> distinct (fds_of (errorcb fd w))"
  by (auto simp: fds_of_def errorcb_def distinct_map_filter)

lemma accept_keeps:
  assumes "server_ok srv" and "fd \<notin> held srv" and "do_accept fd srv = Inr srv'"
  shows "server_ok srv' \<and> length (workers srv') = length (workers srv)"
proof (cases "fd < 0 \<or> FD_SETSIZE < fd")
  case True
  then have "srv' = srv" using assms(3) by (cases "fd < 0") (simp_all add: do_accept_def)
  then show ?thesis using assms(1) by simp
next
  case False
  let ?n = "int (length (workers srv))"
  let ?i = "nat (global_cycle_counter srv mod ?n)"
  have n: "?n \<noteq> 0" using assms(3) False by (auto simp: do_accept_def get_next_worker_index_def)
  then have i: "?i < length (workers srv)" by (simp add: nat_less_iff)
  let ?w = "(workers srv ! ?i)\<lparr>m_notify := m_notify (workers srv ! ?i) @ [fd]\<rparr>"
  let ?c = "if global_cycle_counter srv + 1 > 0xFFFF then 0 else global_cycle_counter srv + 1"
  have srv': "srv' = srv\<lparr>global_worker_info_list := (workers srv)[?i := ?w], global_cycle_counter := ?c\<rparr>"
    using assms(3) False n by (auto simp: do_accept_def get_next_worker_index_def Let_def)
  have "workers srv ! ?i \<in> set (workers srv)" using i by simp
  then have "fd \<notin> set (fds_of (workers srv ! ?i))" using assms(2) unfolding held_def by blast
  moreover have "distinct (fds_of (workers srv ! ?i))" using assms(1) i by (simp add: server_ok_def)
  ultimately have "server_ok srv'"
    unfolding srv' by (intro server_ok_update) (use assms i in \<open>auto simp: fds_of_def server_ok_def\<close>)
  then show ?thesis by (simp add: srv')
qed

lemma server_step_keeps:
  "server_step codec srv srv' \<Longrightarrow> server_ok srv \<Longrightarrow> server_ok srv' \<and> length (workers srv') = length (workers srv)"
proof (induction rule: server_step.induct)
  case (accept fd srv srv')
  then show ?case using accept_keeps by blast
next
  case (notify i srv)
  have "distinct (fds_of (workers srv ! i))" using notify by (simp add: server_ok_def)
  then show ?case using server_ok_set_worker [OF notify(2,1)] by (simp add: notify_fds)
next
  case (error i srv fd)
  have "distinct (fds_of (workers srv ! i))" using error by (simp add: server_ok_def)
  then show ?case using server_ok_set_worker [OF error(2,1)] by (simp add: error_fds)
next
  case (read i srv w j data st seq c st' seq')
  have "map c_fd ((m_clients w)[j := c]) = map c_fd (m_clients w)"
    using readcb_fd [OF read(4)] read(3) by (simp add: map_update list_update_same_conv)
  then have same: "fds_of (w\<lparr>m_clients := (m_clients w)[j := c]\<rparr>) = fds_of (workers srv ! i)"
    using read(2) by (simp add: fds_of_def)
  have "distinct (fds_of (workers srv ! i))" using read by (simp add: server_ok_def)
  then show ?case using server_ok_set_worker [OF read(5,1)] same by simp
next
  case (reject i srv w j data st seq st' seq')
  have "distinct (fds_of (workers srv ! i))" using reject by (simp add: server_ok_def)
  then show ?case using server_ok_set_worker [OF reject(5,1)] reject(2) by (simp add: error_fds)
qed

section \<open>The dispatcher is a fair selector\<close>

definition dispatch_pick :: "server \<Rightarrow> nat \<times> server" where
  "dispatch_pick srv =
     (case get_next_worker_index (int (length (workers srv))) (global_cycle_counter srv) of
        Inl _ \<Rightarrow> (0, srv)
      | Inr (index, seq) \<Rightarrow> (nat index, srv\<lparr>global_cycle_counter := seq\<rparr>))"

definition counter_ok :: "server \<Rightarrow> bool" where
  "counter_ok srv \<longleftrightarrow> 0 \<le> global_cycle_counter srv \<and> global_cycle_counter srv \<le> 0xFFFF"

interpretation dispatch: selector counter_ok dispatch_pick "\<lambda>srv. nat (global_cycle_counter srv)"
  "\<lambda>srv. length (workers srv)" 65536
proof
  fix srv
  assume ok: "counter_ok srv" "0 < length (workers srv)"
  then have pick: "dispatch_pick srv = (nat (global_cycle_counter srv mod int (length (workers srv))),
      srv\<lparr>global_cycle_counter := if global_cycle_counter srv + 1 > 0xFFFF then 0 else global_cycle_counter srv + 1\<rparr>)"
    by (simp add: dispatch_pick_def get_next_worker_index_def Let_def)
  show "fst (dispatch_pick srv) = nat (global_cycle_counter srv) mod length (workers srv)"
    using ok by (simp add: pick counter_ok_def nat_mod_distrib)
  show "length (workers (snd (dispatch_pick srv))) = length (workers srv)" by (simp add: pick)
  show "nat (global_cycle_counter (snd (dispatch_pick srv))) = Suc (nat (global_cycle_counter srv)) mod 65536"
  proof (cases "global_cycle_counter srv = 0xFFFF")
    case False
    then have "global_cycle_counter srv < 65535" using ok(1) unfolding counter_ok_def by linarith
    then have "Suc (nat (global_cycle_counter srv)) < 65536" by linarith
    then show ?thesis using False ok by (simp add: pick counter_ok_def Suc_nat_eq_nat_zadd1)
  qed (simp add: pick)
  show "counter_ok (snd (dispatch_pick srv))" using ok by (auto simp: pick counter_ok_def)
qed (auto simp: counter_ok_def)

text \<open>Accepting a list of connections.\<close>

definition accept_all :: "int list \<Rightarrow> server \<Rightarrow> fault + server" where
  "accept_all fds srv = fold (\<lambda>fd r. after r (do_accept fd)) fds (Inr srv)"

definition share :: "nat \<Rightarrow> nat list \<Rightarrow> int list \<Rightarrow> int list" where
  "share i indices fds = map snd (filter (\<lambda>(k, fd). k = i) (zip indices fds))"

lemma picks_same:
  assumes "counter_ok s" and "global_cycle_counter s' = global_cycle_counter s"
    and "length (workers s') = length (workers s)" and "0 < length (workers s)"
  shows "dispatch.picks n s' = dispatch.picks n s"
proof (rule nth_equalityI)
  have "counter_ok s'" using assms(1,2) by (simp add: counter_ok_def)
  then show "dispatch.picks n s' ! k = dispatch.picks n s ! k" if "k < length (dispatch.picks n s')" for k
    using assms that by (simp add: dispatch.nth_picks)
qed simp

lemma do_accept_picks:
  assumes "counter_ok srv" and "0 < length (workers srv)" and "0 \<le> fd" and "fd \<le> FD_SETSIZE"
  defines "i \<equiv> fst (dispatch_pick srv)"
  shows "\<exists>srv'. do_accept fd srv = Inr srv' \<and> i < length (workers srv)
    \<and> workers srv' = (workers srv)[i := (workers srv ! i)\<lparr>m_notify := m_notify (workers srv ! i) @ [fd]\<rparr>]
    \<and> global_cycle_counter srv' = global_cycle_counter (snd (dispatch_pick srv))"
proof -
  have "i < length (workers srv)"
    using assms(2) dispatch.pick_index [OF assms(1,2)] by (simp add: i_def)
  then show ?thesis
    using assms by (simp add: do_accept_def dispatch_pick_def get_next_worker_index_def Let_def)
qed

lemma accept_all_share:
  "counter_ok srv \<Longrightarrow> 0 < length (workers srv) \<Longrightarrow> \<forall>fd \<in> set fds. 0 \<le> fd \<and> fd \<le> FD_SETSIZE \<Longrightarrow>
     \<exists>srv'. accept_all fds srv = Inr srv' \<and> length (workers srv') = length (workers srv)
       \<and> (\<forall>i < length (workers srv). m_notify (workers srv' ! i)
            = m_notify (workers srv ! i) @ share i (dispatch.picks (length fds) srv) fds)"
proof (induction fds arbitrary: srv)
  case (Cons fd fds)
  let ?i = "fst (dispatch_pick srv)"
  obtain s1 where s1: "do_accept fd srv = Inr s1" "?i < length (workers srv)"
    "workers s1 = (workers srv)[?i := (workers srv ! ?i)\<lparr>m_notify := m_notify (workers srv ! ?i) @ [fd]\<rparr>]"
    "global_cycle_counter s1 = global_cycle_counter (snd (dispatch_pick srv))"
    using do_accept_picks [of srv fd] Cons.prems by auto
  have n: "length (workers s1) = length (workers srv)" by (simp add: s1(3))
  have w: "workers (snd (dispatch_pick srv)) = workers srv"
    by (auto simp: dispatch_pick_def split: sum.splits)
  have ok: "counter_ok (snd (dispatch_pick srv))" using dispatch.pick_ok Cons.prems(1,2) by blast
  then have "counter_ok s1" by (simp add: counter_ok_def s1(4))
  from Cons.IH [OF this] n Cons.prems obtain s2 where s2: "accept_all fds s1 = Inr s2"
    "length (workers s2) = length (workers s1)"
    "\<forall>i < length (workers srv). m_notify (workers s2 ! i)
       = m_notify (workers s1 ! i) @ share i (dispatch.picks (length fds) s1) fds" by auto
  have picks: "dispatch.picks (length fds) s1 = dispatch.picks (length fds) (snd (dispatch_pick srv))"
    by (rule picks_same [OF ok]) (use n w s1(4) Cons.prems(2) in simp_all)
  have "m_notify (workers s2 ! i) = m_notify (workers srv ! i) @ share i (dispatch.picks (length (fd # fds)) srv) (fd # fds)"
    if "i < length (workers srv)" for i
    using s2(3) that s1(2) by (cases "i = ?i") (simp_all add: s1(3) picks share_def)
  moreover have "accept_all (fd # fds) srv = Inr s2"
    using s1(1) s2(1) by (simp add: accept_all_def)
  ultimately show ?case using s2(2) n by auto
qed (simp add: accept_all_def share_def)

lemma share_count: "length (share i ks fds) = length (filter (\<lambda>k. k = i) (take (length fds) ks))"
proof (induction ks arbitrary: fds)
  case (Cons k ks)
  then show ?case by (cases fds) (auto simp: share_def)
qed (simp add: share_def)

lemma share_in: "i \<in> set ks \<Longrightarrow> length ks = length fds \<Longrightarrow> share i ks fds \<noteq> []"
  using share_count [of i ks fds] by (auto simp: filter_empty_conv)

lemma share_one: "i \<in> set ks \<Longrightarrow> distinct ks \<Longrightarrow> length ks = length fds \<Longrightarrow> length (share i ks fds) = 1"
proof -
  assume ks: "i \<in> set ks" "distinct ks" "length ks = length fds"
  have "length (filter (\<lambda>k. k = i) ks) = card (set (filter (\<lambda>k. k = i) ks))"
    using distinct_card [of "filter (\<lambda>k. k = i) ks"] ks(2) by simp
  also have "set (filter (\<lambda>k. k = i) ks) = {i}" using ks(1) by auto
  finally show ?thesis using share_count [of i ks fds] ks(3) by simp
qed

section \<open>Properties\<close>

text \<open>A request that arrives in pieces.\<close>

lemma feed_answers:
  fixes codec g s v body
  defines "request \<equiv> proxy_frame (proxy_request_encode codec g s v body)"
  assumes "codec_ok codec" and "proxy_request_encode codec g s v body \<noteq> []"
    and "length (proxy_request_encode codec g s v body) < 2 ^ 32"
    and "c_input c = []" and "concat chunks @ piece = request @ rest" and "length (concat chunks) < length request"
    and "invoke_service g s v body (tick st) seq = Some (Inr (ret, res, st', seq'))"
  shows "feed codec chunks c st seq = Some (Inr (Some (c\<lparr>c_input := concat chunks\<rparr>), st, seq))
    \<and> feed codec (chunks @ [piece]) c st seq =
        Some (Inr (Some (c\<lparr>c_input := rest, c_output := c_output c @ reply codec ret res\<rparr>), tick st', seq'))"
proof -
  have "prefix (concat chunks) (request @ rest)" using assms(6) by (metis prefixI)
  moreover have "prefix request (request @ rest)" by simp
  ultimately have p: "prefix (concat chunks) request" using assms(7) by (metis less_imp_le prefix_length_prefix)
  note short = feed_short [of "proxy_request_encode codec g s v body" c chunks codec, folded request_def]
  have "feed codec (chunks @ later) c st seq = feed codec later (c\<lparr>c_input := concat chunks\<rparr>) st seq" for later
    using short [of later st seq] p assms(4,5,7) by simp
  from this [of "[]"] this [of "[piece]"] show ?thesis
    using handle_buffer_complete [OF assms(2-4,8), folded request_def, of rest "c_output c"] assms(6)
    by (simp add: readcb_def)
qed

text \<open>
  C8: a request that reaches the agent in any pieces is answered exactly when its last byte is
  there, once, with the status and the data of the call it stands for; what follows it stays in
  the buffer, even a complete second request.
\<close>

theorem server_answers_request:
  fixes codec g s v body
  defines "request \<equiv> proxy_frame (proxy_request_encode codec g s v body)"
  assumes "codec_ok codec" and "proxy_request_encode codec g s v body \<noteq> []"
    and "length (proxy_request_encode codec g s v body) < 2 ^ 32"
    and "c_input c = []" and "concat chunks @ piece = request @ rest" and "length (concat chunks) < length request"
    and "invoke_service g s v body (tick st) seq = Some (Inr (ret, res, st', seq'))"
  shows "feed codec chunks c st seq = Some (Inr (Some (c\<lparr>c_input := concat chunks\<rparr>), st, seq))
    \<and> feed codec (chunks @ [piece]) c st seq =
        Some (Inr (Some (c\<lparr>c_input := rest, c_output := c_output c @ reply codec ret res\<rparr>), tick st', seq'))"
  unfolding request_def by (rule feed_answers) (use assms in \<open>simp_all add: request_def\<close>)

text \<open>
  However connections are accepted, handed over, read, rejected and closed, every connection
  is with one worker, once, and accepting never faults.
\<close>

theorem server_holds_once:
  assumes "tcp_server_startup_with_multibase os thread_num = (0, Some srv0)" and "0 < thread_num"
    and "(server_step codec)\<^sup>*\<^sup>* srv0 srv"
  shows "server_ok srv \<and> length (workers srv) = nat thread_num \<and> (\<exists>srv'. do_accept fd srv = Inr srv')"
proof -
  have start: "server_ok srv0" "length (workers srv0) = nat thread_num"
    using assms(1) by (auto simp: tcp_server_startup_with_multibase_def server_ok_def fds_of_def Let_def split: if_splits)
  from assms(3) have ok: "server_ok srv \<and> length (workers srv) = nat thread_num"
    by (induction rule: rtranclp_induct) (use start server_step_keeps in auto)
  then show ?thesis
    using assms(2) by (auto simp: do_accept_def get_next_worker_index_def Let_def)
qed

text \<open>
  The workers share the load.  Of as many connections in a row as there are workers each gets
  one while the counter does not wrap, of twice as many each gets one in any case.
\<close>

theorem accept_fair:
  fixes srv
  defines "n \<equiv> length (workers srv)"
  assumes "server_ok srv" and "0 < n" and "2 * n \<le> 65536" and "i < n"
    and "\<forall>fd \<in> set fds. 0 \<le> fd \<and> fd \<le> FD_SETSIZE"
    and "length fds = 2 * n \<or> length fds = n \<and> global_cycle_counter srv + int n \<le> 65536"
  shows "\<exists>srv' new. accept_all fds srv = Inr srv' \<and> m_notify (workers srv' ! i) = m_notify (workers srv ! i) @ new
    \<and> new \<noteq> [] \<and> set new \<subseteq> set fds \<and> (length fds = n \<longrightarrow> length new = 1)"
proof -
  have ok: "counter_ok srv" using assms(2) by (simp add: server_ok_def counter_ok_def)
  let ?new = "share i (dispatch.picks (length fds) srv) fds"
  obtain srv' where srv': "accept_all fds srv = Inr srv'"
    "m_notify (workers srv' ! i) = m_notify (workers srv ! i) @ ?new"
    using accept_all_share [OF ok _ assms(6)] assms(3,5) by (auto simp: n_def)
  have "set ?new \<subseteq> set fds" by (auto simp: share_def dest: set_zip_rightD)
  moreover have "?new \<noteq> [] \<and> (length fds = n \<longrightarrow> length ?new = 1)"
    using assms(7)
  proof
    assume len: "length fds = 2 * n"
    then have "?new \<noteq> []"
      using dispatch.no_starvation [OF ok, of i] assms(3-5) by (intro share_in) (simp_all add: n_def)
    then show ?thesis using len assms(3) by simp
  next
    assume len: "length fds = n \<and> global_cycle_counter srv + int n \<le> 65536"
    moreover have "int (nat (global_cycle_counter srv) + n) = global_cycle_counter srv + int n"
      using ok by (simp add: counter_ok_def)
    ultimately have "nat (global_cycle_counter srv) + n \<le> 65536" by linarith
    then have "distinct (dispatch.picks n srv)" "set (dispatch.picks n srv) = {..< n}"
      using dispatch.round_distinct [OF ok] dispatch.round_complete [OF ok] assms(3) by (simp_all add: n_def)
    then have "length ?new = 1" using len assms(5) by (intro share_one) simp_all
    then show ?thesis by auto
  qed
  ultimately show ?thesis using srv' by blast
qed

text \<open>
  A server configured with no threads starts, and the first connection it accepts divides by zero.
\<close>

theorem no_threads_crash:
  assumes "base_ok os" and "bind_ok os" and "listen_ok os" and "0 \<le> fd" and "fd \<le> FD_SETSIZE"
  shows "\<exists>srv. tcp_server_startup_with_multibase os 0 = (0, Some srv) \<and> do_accept fd srv = Inl DivByZero"
  using assms by (simp add: tcp_server_startup_with_multibase_def do_accept_def get_next_worker_index_def)

section \<open>Witnesses\<close>

definition good_start :: startup_answers where
  "good_start = \<lparr>base_ok = True, bind_ok = True, listen_ok = True, socketpair_ok = (\<lambda>_. True),
     worker_base_ok = (\<lambda>_. True), thread_ok = (\<lambda>_. True)\<rparr>"

definition three_workers :: server where
  "three_workers = \<lparr>global_worker_info_list =
     map (\<lambda>i. \<lparr>m_thread_name = worker_name i, m_notify = [], m_clients = []\<rparr>) [0 ..< 3], global_cycle_counter = 0\<rparr>"

lemma three_workers_start: "tcp_server_startup_with_multibase good_start 3 = (0, Some three_workers)"
  by (simp add: tcp_server_startup_with_multibase_def good_start_def three_workers_def list_all_iff)

lemma three_workers_ok: "server_ok three_workers" "length (workers three_workers) = 3"
  by (auto simp: server_ok_def three_workers_def fds_of_def)

lemma demo_call:
  "case invoke_service ''g'' ''s'' ''1'' [1, 2] (tick demo_agent) 7 of
     Some (Inr (ret, res, _, seq')) \<Rightarrow> ret = 0 \<and> res = Some [42] \<and> seq' = 8 | _ \<Rightarrow> False"
  by code_simp

theorem server_answers_request_witness:
  "\<exists>st' rest. feed sample_codec [[], take 3 (proxy_frame (proxy_request_encode sample_codec ''g'' ''s'' ''1'' [1, 2])),
       drop 3 (proxy_frame (proxy_request_encode sample_codec ''g'' ''s'' ''1'' [1, 2])) @ [9]]
       \<lparr>c_fd = 5, c_input = [], c_output = []\<rparr> demo_agent 7
     = Some (Inr (Some \<lparr>c_fd = 5, c_input = [9], c_output = reply sample_codec 0 (Some [42])\<rparr>, st', 8))"
proof -
  let ?q = "proxy_request_encode sample_codec ''g'' ''s'' ''1'' [1, 2]"
  have len: "length ?q = 14" by code_simp
  then have q: "?q \<noteq> []" "length ?q < 2 ^ 32" by auto
  obtain st' where call: "invoke_service ''g'' ''s'' ''1'' [1, 2] (tick demo_agent) 7 = Some (Inr (0, Some [42], st', 8))"
    using demo_call by (auto split: option.splits sum.splits prod.splits)
  have "concat [[], take 3 (proxy_frame ?q)] @ (drop 3 (proxy_frame ?q) @ [9]) = proxy_frame ?q @ [9]" by simp
  from server_answers_request [OF sample_codec_ok q _ this _ call, of "\<lparr>c_fd = 5, c_input = [], c_output = []\<rparr>"]
  show ?thesis by (simp add: frame_length len proxy_header_size_def)
qed

theorem server_holds_once_witness:
  "\<exists>srv. do_accept 7 three_workers = Inr srv \<and> server_ok srv \<and> (\<exists>srv'. do_accept 8 srv = Inr srv')"
proof -
  obtain srv where acc: "do_accept 7 three_workers = Inr srv"
    by (simp add: do_accept_def get_next_worker_index_def FD_SETSIZE_def three_workers_def)
  have "7 \<notin> held three_workers" by (auto simp: held_def three_workers_def fds_of_def)
  then have "server_step sample_codec three_workers srv" using acc by (rule server_step.accept)
  from server_holds_once [OF three_workers_start _ r_into_rtranclp [where r = "server_step sample_codec", OF this], of 8] acc
  show ?thesis by auto
qed

theorem accept_fair_witness:
  "\<exists>srv' new. accept_all [5, 6, 7] three_workers = Inr srv' \<and> m_notify (workers srv' ! 1) = [] @ new \<and> length new = 1"
proof -
  have "m_notify (workers three_workers ! 1) = []" by code_simp
  then show ?thesis
    using accept_fair [OF three_workers_ok(1), of 1 "[5, 6, 7]"] three_workers_ok(2)
    by (force simp: FD_SETSIZE_def three_workers_def)
qed

theorem no_threads_crash_witness:
  "\<exists>srv. tcp_server_startup_with_multibase good_start 0 = (0, Some srv) \<and> do_accept 5 srv = Inl DivByZero"
  by (rule no_threads_crash) (simp_all add: good_start_def FD_SETSIZE_def)

end
