(* ===== verification/Agent_Main.thy ===== *)
theory Agent_Main
  imports Conf Agent_Routes Server
begin

text \<open>
  soaagent/main.c: the start of the agent, from its arguments to the running event loop.  The
  results of the system calls and of the logging library are the record \<open>main_env\<close>; the signals
  are delivered as calls of \<open>sig_handle\<close>.
\<close>

section \<open>Arguments\<close>

datatype option_arg = Opt_c string | Opt_d | Opt_h | Opt_unknown

text \<open>The loop over \<open>getopt\<close>: \<open>None\<close> when the help is printed and the program exits.\<close>

fun parse_options :: "option_arg list \<Rightarrow> bool \<times> string \<Rightarrow> (bool \<times> string) option" where
  "parse_options [] r = Some r"
| "parse_options (Opt_c optarg # os) (demon, path) = parse_options os (demon, snprintf_s PATH_MAX optarg)"
| "parse_options (Opt_d # os) (demon, path) = parse_options os (True, path)"
| "parse_options (Opt_h # os) r = None"
| "parse_options (Opt_unknown # os) r = parse_options os r"

section \<open>Signals\<close>

datatype signal = SIGTERM | SIGUSR1 | SIGUSR2 | SIGPIPE

text \<open>\<open>None\<close> is the end of the program; \<open>SIGUSR1\<close> only logs the status.\<close>

definition sig_handle ::
  "'z zk_client \<Rightarrow> config \<Rightarrow> zk_handle \<Rightarrow> signal \<Rightarrow> 'z agent \<Rightarrow> fault + 'z agent option" where
  "sig_handle api cfg h signo st =
     (case signo of
        SIGTERM \<Rightarrow> Inr None
      | SIGUSR1 \<Rightarrow> Inr (Some st)
      | SIGUSR2 \<Rightarrow> after (refresh_declared_services api cfg h st) (\<lambda>(_, st). Inr (Some st))
      | SIGPIPE \<Rightarrow> Inr (Some st))"

section \<open>Starting\<close>

text \<open>
  What the system answers: \<open>rlim_max\<close> is \<open>None\<close> when the limit cannot be read, a fork is the
  value it returns in the process that is followed.
\<close>

record daemon_env =
  rlim_max :: "nat option"
  fork1 :: int
  fork2 :: int
  sighup_ignored :: bool
  devnull_opens :: bool

record main_env =
  daemon :: daemon_env
  agent_home :: "string option"
  process_id :: int
  zlog_ok :: "string \<Rightarrow> bool"
  sigmask_ok :: bool
  signal_thread_ok :: bool
  answers :: startup_answers

text \<open>What becomes of the program: it exits, always with status 0, or it serves.\<close>

datatype 'z outcome = Exited filesystem | Serving zk_handle "'z agent" server

definition chdir :: "string \<Rightarrow> filesystem \<Rightarrow> filesystem option" where
  "chdir path fs =
     (case tree fs (resolve fs path) of
        Some (Dir _) \<Rightarrow> if path = [] then None else Some (fs\<lparr>cwd := resolve fs path\<rparr>)
      | _ \<Rightarrow> None)"

definition RLIM_INFINITY :: nat where "RLIM_INFINITY = 2 ^ 64 - 1"

definition open_devnull :: "bool \<Rightarrow> world \<Rightarrow> int \<times> world" where
  "open_devnull opens w = (if opens then socket w else (-1, w))"

definition dup :: "nat \<Rightarrow> world \<Rightarrow> int \<times> world" where
  "dup fd w = (if fd \<in> set (open_fds w) then socket w else (-1, w))"

text \<open>
  \<open>None\<close> when the process exits, as the parents do.  The loop \<open>close(i)\<close> over all numbers below the
  limit is written as one filter.
\<close>

definition daemonize :: "daemon_env \<Rightarrow> string \<Rightarrow> filesystem \<Rightarrow> world \<Rightarrow> (filesystem \<times> world) option" where
  "daemonize env path fs w =
     (case rlim_max env of
        None \<Rightarrow> None
      | Some rl \<Rightarrow>
          if fork1 env < 0 then None
          else if fork1 env \<noteq> 0 then None
          else if \<not> sighup_ignored env then None
          else if fork2 env < 0 then None
          else if fork2 env \<noteq> 0 then None
          else
            (case chdir path fs of
               None \<Rightarrow> None
             | Some fs \<Rightarrow>
                 let rl = (if rl = RLIM_INFINITY then 1024 else rl);
                     w = w\<lparr>open_fds := filter (\<lambda>fd. rl \<le> fd) (open_fds w)\<rparr>;
                     (fd0, w) = open_devnull (devnull_opens env) w;
                     (fd1, w) = dup 0 w;
                     (fd2, w) = dup 0 w
                 in Some (fs, w)))"

definition config_of :: "dictionary option \<Rightarrow> config" where
  "config_of ini name dflt = (case get_config_item_int ini name dflt of Inr v \<Rightarrow> v | Inl _ \<Rightarrow> dflt)"

text \<open>A configuration item, and what follows it.\<close>

definition with_item ::
  "dictionary option \<Rightarrow> string option \<Rightarrow> string \<Rightarrow> nat \<Rightarrow> string \<Rightarrow> (string \<Rightarrow> (fault + 'a) option) \<Rightarrow> (fault + 'a) option" where
  "with_item ini home name len dflt next =
     (case get_config_item ini home name len dflt of
        None \<Rightarrow> None
      | Some (Inl f) \<Rightarrow> Some (Inl f)
      | Some (Inr s) \<Rightarrow> next s)"

definition start_server ::
  "main_env \<Rightarrow> dictionary option \<Rightarrow> zk_handle \<Rightarrow> 'z agent \<Rightarrow> (fault + 'z outcome) option" where
  "start_server env ini h st =
     with_item ini (agent_home env) ''server:unix_sock_path'' PATH_MAX ''/tmp/sock_proxy.sock'' (\<lambda>sock_path.
       let (_, fs) = make_sure_dir (Some sock_path) MODE_755 (disk st) in
       case server_startup_multibase (answers env) (config_of ini) sock_path of
         (_, None) \<Rightarrow> Some (Inr (Exited fs))
       | (_, Some srv) \<Rightarrow> Some (Inr (Serving h (st\<lparr>disk := fs\<rparr>) srv)))"

definition start_agent ::
  "main_env \<Rightarrow> 'z zk_client \<Rightarrow> dictionary option \<Rightarrow> filesystem \<Rightarrow> world \<Rightarrow> 'z \<Rightarrow> (fault + 'z outcome) option" where
  "start_agent env api ini fs w z =
     with_item ini (agent_home env) ''server:pid_file'' PATH_MAX ''./logs/soa_proxy.pid'' (\<lambda>pid_file_path.
     let (_, fs) = write_pid (process_id env) pid_file_path fs in
     with_item ini (agent_home env) ''server:services_declare_file'' PATH_MAX ''./conf/declares.json'' (\<lambda>declares.
     with_item ini (agent_home env) ''server:zk_addrs'' 256 ''127.0.0.1:2181'' (\<lambda>addrs.
     case invoke_stub_init api (config_of ini) addrs declares (process_id env) w fs z of
       Inl f \<Rightarrow> Some (Inl f)
     | Inr (r, h, st) \<Rightarrow> if r \<noteq> 0 then Some (Inr (Exited (disk st))) else start_server env ini h st)))"

definition start_threads ::
  "main_env \<Rightarrow> 'z zk_client \<Rightarrow> dictionary option \<Rightarrow> filesystem \<Rightarrow> world \<Rightarrow> 'z \<Rightarrow> (fault + 'z outcome) option" where
  "start_threads env api ini fs w z =
     with_item ini (agent_home env) ''log:config_file'' PATH_MAX ''./conf/log.conf'' (\<lambda>log_path.
     if \<not> zlog_ok env log_path then Some (Inr (Exited fs))
     else if \<not> sigmask_ok env then Some (Inr (Exited fs))
     else if \<not> signal_thread_ok env then Some (Inr (Exited fs))
     else start_agent env api ini fs w z)"

definition agent_main ::
  "main_env \<Rightarrow> 'z zk_client \<Rightarrow> option_arg list \<Rightarrow> filesystem \<Rightarrow> world \<Rightarrow> 'z \<Rightarrow> (fault + 'z outcome) option" where
  "agent_main env api args fs w z =
     (case (if args = [] then None else parse_options args (False, [])) of
        None \<Rightarrow> Some (Inr (Exited fs))
      | Some (demon, conf_path) \<Rightarrow>
          if conf_path = [] then Some (Inr (Exited fs))
          else
            (case config_init fs conf_path of
               Inl f \<Rightarrow> Some (Inl f)
             | Inr (r, ini) \<Rightarrow>
                 if r \<noteq> 0 then Some (Inr (Exited fs))
                 else
                   with_item ini (agent_home env) ''server:cwd'' PATH_MAX ''/tmp'' (\<lambda>cwd_path.
                   case (if demon then daemonize (daemon env) cwd_path fs w else Some (fs, w)) of
                     None \<Rightarrow> Some (Inr (Exited fs))
                   | Some (fs, w) \<Rightarrow>
                       start_threads env api ini fs w z)))"

section \<open>The state at the start\<close>

lemma with_item_Serving:
  "with_item ini home name len dflt next = Some (Inr x) \<Longrightarrow> \<exists>s. next s = Some (Inr x)"
  by (auto simp: with_item_def split: option.splits sum.splits)

lemma start_server_ok:
  fixes st0 st :: "'z agent"
  assumes "start_server env ini h0 st0 = Some (Inr (Serving h st srv))"
  shows "(\<exists>fs. st = st0\<lparr>disk := fs\<rparr>) \<and> server_ok srv"
proof -
  obtain sock_path where run: "(let (_, fs) = make_sure_dir (Some sock_path) MODE_755 (disk st0) in
       case server_startup_multibase (answers env) (config_of ini) sock_path of
         (_, None) \<Rightarrow> Some (Inr (Exited fs))
       | (_, Some srv) \<Rightarrow> Some (Inr (Serving h0 (st0\<lparr>disk := fs\<rparr>) srv))) = (Some (Inr (Serving h st srv)) :: (fault + 'z outcome) option)"
    using with_item_Serving [OF assms [unfolded start_server_def]] by blast
  obtain r so where srv0: "server_startup_multibase (answers env) (config_of ini) sock_path = (r, so)" by fastforce
  then have srv: "server_startup_multibase (answers env) (config_of ini) sock_path = (r, Some srv)"
    and st: "\<exists>fs. st = st0\<lparr>disk := fs\<rparr>"
    using run by (auto split: prod.splits option.splits)
  from srv obtain n where "tcp_server_startup_with_multibase (answers env) n = (r, Some srv)"
    by (auto simp: server_startup_multibase_def split: option.splits)
  then have "server_ok srv"
    by (auto simp: tcp_server_startup_with_multibase_def server_ok_def fds_of_def Let_def split: if_splits)
  then show ?thesis using st by blast
qed

lemma start_agent_ok:
  assumes "start_agent env api ini fs w z = Some (Inr (Serving h st srv))"
    and "tr \<longrightarrow> providers_honest api" and "world_ok w" and "ft \<longrightarrow> fds_fit w"
  shows "agent_inv tr ft st \<and> server_ok srv"
proof -
  obtain declares addrs fs1 h0 st0 where
    init: "invoke_stub_init api (config_of ini) addrs declares (process_id env) w fs1 z = Inr (0, h0, st0)"
    and srv: "start_server env ini h0 st0 = Some (Inr (Serving h st srv))"
    using assms(1)
    by (auto simp: start_agent_def split: prod.splits sum.splits if_splits dest!: with_item_Serving)
  from start_server_ok [OF srv] invoke_stub_init_keeps [OF assms(2-4) init] show ?thesis by auto
qed

text \<open>A daemon keeps what it has above the limit and gets the three standard descriptors.\<close>

lemma lowest_free_step:
  assumes "\<And>k. k < n \<Longrightarrow> k \<in> set fds" and "n \<notin> set fds"
  shows "lowest_free fds = n"
proof -
  have "n \<le> length fds"
  proof -
    have "{0 ..< n} \<subseteq> set fds" using assms(1) by auto
    then have "card {0 ..< n} \<le> card (set fds)" by (intro card_mono) simp_all
    then show ?thesis using card_length [of fds] by simp
  qed
  then have "[0 ..< Suc (length fds)] = [0 ..< n] @ n # [Suc n ..< Suc (length fds)]"
    using upt_add_eq_append [of 0 n "Suc (length fds) - n"] upt_conv_Cons [of n "Suc (length fds)"] by simp
  moreover have "filter (\<lambda>k. k \<notin> set fds) [0 ..< n] = []" using assms(1) by (auto simp: filter_empty_conv)
  ultimately show ?thesis using assms(2) by (simp add: lowest_free_def)
qed

lemma daemonize_props:
  assumes "daemonize env path fs w = Some (fs', w')"
  shows "cwd fs' = resolve fs path \<and> tree fs' = tree fs \<and> heap w' = heap w \<and> next_addr w' = next_addr w
    \<and> fd_limit w' = fd_limit w"
  using assms
  by (auto simp: daemonize_def chdir_def open_devnull_def dup_def socket_def Let_def
      split: option.splits inode.splits if_splits prod.splits)

lemma daemonize_world_ok: "daemonize env path fs w = Some (fs', w') \<Longrightarrow> world_ok w \<Longrightarrow> world_ok w'"
  and daemonize_fds_fit: "daemonize env path fs w = Some (fs', w') \<Longrightarrow> fds_fit w \<Longrightarrow> fds_fit w'"
  using daemonize_props [of env path fs w fs' w'] by (simp_all add: world_ok_def fds_fit_def fds_ok_def)

lemma socket_next:
  assumes "\<And>k. k < n \<Longrightarrow> k \<in> set (open_fds w)" and "n \<notin> set (open_fds w)" and "n < fd_limit w"
  shows "socket w = (int n, w\<lparr>open_fds := n # open_fds w\<rparr>)"
  using lowest_free_step [of n "open_fds w"] assms by (simp add: socket_def)

lemma daemonize_fds:
  assumes "daemonize env path fs w = Some (fs', w')" and "rlim_max env = Some rl" and "3 \<le> rl"
    and "devnull_opens env" and "3 \<le> fd_limit w"
  shows "set (open_fds w') = {0, 1, 2} \<union> {fd \<in> set (open_fds w). (if rl = RLIM_INFINITY then 1024 else rl) \<le> fd}"
proof -
  let ?rl = "if rl = RLIM_INFINITY then 1024 else rl"
  define F where "F = filter (\<lambda>fd. ?rl \<le> fd) (open_fds w)"
  have "3 \<le> ?rl" using assms(3) by simp
  then have low: "0 \<notin> set F" "1 \<notin> set F" "2 \<notin> set F" by (auto simp: F_def)
  have s0: "socket (w\<lparr>open_fds := F\<rparr>) = (int 0, w\<lparr>open_fds := 0 # F\<rparr>)"
    using socket_next [of 0 "w\<lparr>open_fds := F\<rparr>"] low assms(5) by simp
  have s1: "socket (w\<lparr>open_fds := 0 # F\<rparr>) = (int 1, w\<lparr>open_fds := 1 # 0 # F\<rparr>)"
    using socket_next [of 1 "w\<lparr>open_fds := 0 # F\<rparr>"] low assms(5) by simp
  have s2: "socket (w\<lparr>open_fds := 1 # 0 # F\<rparr>) = (int 2, w\<lparr>open_fds := 2 # 1 # 0 # F\<rparr>)"
  proof -
    have "k \<in> set (1 # 0 # F)" if "k < 2" for k using that by (cases k) auto
    with socket_next [of 2 "w\<lparr>open_fds := 1 # 0 # F\<rparr>"] low assms(5) show ?thesis by simp
  qed
  have "open_devnull (devnull_opens env) (w\<lparr>open_fds := F\<rparr>) = (int 0, w\<lparr>open_fds := 0 # F\<rparr>)"
    "dup 0 (w\<lparr>open_fds := 0 # F\<rparr>) = (int 1, w\<lparr>open_fds := 1 # 0 # F\<rparr>)"
    "dup 0 (w\<lparr>open_fds := 1 # 0 # F\<rparr>) = (int 2, w\<lparr>open_fds := 2 # 1 # 0 # F\<rparr>)"
    using assms(4) s0 s1 s2 by (simp_all add: open_devnull_def dup_def)
  then have "w' = w\<lparr>open_fds := 2 # 1 # 0 # F\<rparr>"
    using assms(1,2) by (auto simp: daemonize_def F_def [symmetric] Let_def split: option.splits if_splits)
  then have "set (open_fds w') = {0, 1, 2} \<union> set F" by auto
  then show ?thesis by (simp add: F_def)
qed

text \<open>
  When the program gets as far as its event loop, the resources and the server are in order and,
  with providers that list endpoints of their own group only, the routes are those of the
  registrations read.
\<close>

lemma agent_main_serves:
  assumes "agent_main env api args fs w z = Some (Inr (Serving h st srv))"
    and "tr \<longrightarrow> providers_honest api" and "world_ok w" and "ft \<longrightarrow> fds_fit w"
  shows "agent_inv tr ft st \<and> server_ok srv"
proof -
  have "\<exists>ini fs1 w1. start_threads env api ini fs1 w1 z = Some (Inr (Serving h st srv))
      \<and> (w1 = w \<or> (\<exists>path. daemonize (daemon env) path fs w = Some (fs1, w1)))"
    using assms(1) unfolding agent_main_def
    by (fastforce split: option.splits sum.splits prod.splits if_splits dest!: with_item_Serving)
  then obtain ini fs1 w1 where "start_threads env api ini fs1 w1 z = Some (Inr (Serving h st srv))"
    and w1: "w1 = w \<or> (\<exists>path. daemonize (daemon env) path fs w = Some (fs1, w1))" by blast
  then have start: "start_agent env api ini fs1 w1 z = Some (Inr (Serving h st srv))"
    by (auto simp: start_threads_def split: if_splits dest!: with_item_Serving)
  have "world_ok w1" using w1 daemonize_world_ok assms(3) by blast
  moreover have "ft \<longrightarrow> fds_fit w1" using w1 daemonize_fds_fit assms(4) by blast
  ultimately show ?thesis using start_agent_ok [OF start assms(2)] by blast
qed

end
