(* ===== verification/Agent_Process.thy ===== *)
theory Agent_Process
  imports Agent_Main
begin

text \<open>
  The whole agent while it runs: the registry's events, the signals, the background threads and the
  requests of the clients, from the state \<open>agent_main\<close> starts with to the end.  Each of them
  runs to its end before the next one begins; what the threads can do to each other in between is
  the subject of the theories Invoke_Threads to Threads_Alone.
\<close>

section \<open>The process\<close>

record 'z process =
  p_agent :: "'z agent"
  p_server :: server
  p_seq :: u32

text \<open>
  The signals the thread waits for, and the body of its loop: \<open>rc\<close> is what \<open>sigwaitinfo\<close> returns.
\<close>

definition waitset :: "signal list" where
  "waitset = [SIGUSR1, SIGUSR2, SIGPIPE]"

definition signal_handle_thread_func ::
  "'z zk_client \<Rightarrow> config \<Rightarrow> zk_handle \<Rightarrow> int \<Rightarrow> signal \<Rightarrow> 'z agent \<Rightarrow> fault + 'z agent option" where
  "signal_handle_thread_func api cfg h rc si_signo st =
     (if rc \<noteq> -1 then sig_handle api cfg h si_signo st else Inr (Some st))"

text \<open>
  The steps: a step of the agent behind the server (events, refreshes, the work on the pools,
  changes outside), a signal, and the callbacks of the server, a read with all it changes.
\<close>

inductive process_step ::
  "'z zk_client \<Rightarrow> config \<Rightarrow> zk_handle \<Rightarrow> proxy_codec \<Rightarrow> 'z process \<Rightarrow> 'z process \<Rightarrow> bool" for api cfg h codec where
  agent: "agent_step api cfg h (p_agent p) a \<Longrightarrow> process_step api cfg h codec p (p\<lparr>p_agent := a\<rparr>)"
| signal: "signo \<in> set waitset \<Longrightarrow> signal_handle_thread_func api cfg h rc signo (p_agent p) = Inr (Some a) \<Longrightarrow>
     process_step api cfg h codec p (p\<lparr>p_agent := a\<rparr>)"
| accept: "fd \<notin> held (p_server p) \<Longrightarrow> do_accept fd (p_server p) = Inr srv \<Longrightarrow>
     process_step api cfg h codec p (p\<lparr>p_server := srv\<rparr>)"
| notify: "srv = p_server p \<Longrightarrow> i < length (workers srv) \<Longrightarrow> process_step api cfg h codec p
     (p\<lparr>p_server := srv\<lparr>global_worker_info_list := (workers srv)[i := do_handle_notify (workers srv ! i)]\<rparr>\<rparr>)"
| error: "srv = p_server p \<Longrightarrow> i < length (workers srv) \<Longrightarrow> process_step api cfg h codec p
     (p\<lparr>p_server := srv\<lparr>global_worker_info_list := (workers srv)[i := errorcb fd (workers srv ! i)]\<rparr>\<rparr>)"
| read: "srv = p_server p \<Longrightarrow> i < length (workers srv) \<Longrightarrow> w = workers srv ! i \<Longrightarrow> j < length (m_clients w) \<Longrightarrow>
     readcb codec data (m_clients w ! j) (rs (p_agent p)) (p_seq p) = Some (Inr (Some c, r, seq)) \<Longrightarrow>
     process_step api cfg h codec p
       (p\<lparr>p_server := srv\<lparr>global_worker_info_list := (workers srv)[i := w\<lparr>m_clients := (m_clients w)[j := c]\<rparr>]\<rparr>,
          p_agent := (p_agent p)\<lparr>rs := r\<rparr>, p_seq := seq\<rparr>)"
| reject: "srv = p_server p \<Longrightarrow> i < length (workers srv) \<Longrightarrow> w = workers srv ! i \<Longrightarrow> j < length (m_clients w) \<Longrightarrow>
     readcb codec data (m_clients w ! j) (rs (p_agent p)) (p_seq p) = Some (Inr (None, r, seq)) \<Longrightarrow>
     process_step api cfg h codec p
       (p\<lparr>p_server := srv\<lparr>global_worker_info_list := (workers srv)[i := errorcb (c_fd (m_clients w ! j)) w]\<rparr>,
          p_agent := (p_agent p)\<lparr>rs := r\<rparr>, p_seq := seq\<rparr>)"

definition process_ok :: "bool \<Rightarrow> bool \<Rightarrow> 'z process \<Rightarrow> bool" where
  "process_ok trusted fit p \<longleftrightarrow> agent_inv trusted fit (p_agent p) \<and> server_ok (p_server p)"

section \<open>A request leaves the routes alone\<close>

lemma tick_ok: "res_ok st \<Longrightarrow> res_ok (tick st) \<and> routes (tick st) = routes st"
proof -
  have "pool_at (tick st) = pool_at st" by (simp add: pool_at_def tick_def fun_eq_iff split: slot.split)
  moreover have "slots_ok (world (tick st)) f = slots_ok (world st) f" for f :: "slot \<Rightarrow> pool_obj option"
    by (simp add: slots_ok_def tick_def get_now_time_def world_ok_def pool_ok_def)
  ultimately show "res_ok st \<Longrightarrow> res_ok (tick st) \<and> routes (tick st) = routes st"
    by (simp add: res_ok_def tables_ok_def arrays_ok_def nodes_match_def routes_def tick_def)
qed

lemma tick_fds_fit [simp]: "fds_fit (world (tick st)) = fds_fit (world st)"
  by (simp add: tick_def get_now_time_def fds_fit_def fds_ok_def)

text \<open>It faults only at a descriptor that does not fit into the set of \<open>select\<close>.\<close>

lemma handle_buffer_keeps:
  assumes ok: "res_ok st" and run: "handle_buffer codec input output st seq = Some x"
  shows "x = Inl OutOfBounds \<and> \<not> fds_fit (world st) \<or> (\<exists>ret i out st' seq'. x = Inr (ret, i, out, st', seq')
    \<and> res_ok st' \<and> routes st' = routes st \<and> (fds_fit (world st) \<longrightarrow> fds_fit (world st')))"
proof -
  have t: "res_ok (tick st)" "routes (tick st) = routes st" "res_ok (tick (tick st))" "routes (tick (tick st)) = routes st"
    using tick_ok [OF ok] tick_ok [of "tick st"] by auto
  let ?n = "unat (of_be32 (take proxy_header_size input))"
  let ?body = "take ?n (drop proxy_header_size input)"
  obtain d req where dec: "proxy_request_decode codec ?body = (d, req)" by fastforce
  show ?thesis
  proof (cases "length input < proxy_header_size \<or> length input < proxy_header_size + ?n \<or> ?n = 0 \<or> d \<noteq> 0")
    case True
    then show ?thesis using run ok t dec by (auto simp: handle_buffer_def Let_def split: if_splits)
  next
    case False
    then have "req \<noteq> None"
      using dec by (cases "request_unpack codec ?body") (auto simp: proxy_request_decode_def)
    then obtain m where m: "req = Some m" by blast
    obtain y where call: "invoke_service (req_group m) (req_service m) (req_version m) (req_data m) (tick st) seq = Some y"
      using run False dec m by (auto simp: handle_buffer_def Let_def split: option.splits)
    show ?thesis
    proof (cases "y = Inl OutOfBounds \<and> \<not> fds_fit (world st)")
      case True
      with run False dec m call show ?thesis by (auto simp: handle_buffer_def Let_def split: prod.splits)
    next
      case no_fault: False
      then obtain ret res st' seq' where
        y: "y = Inr (ret, res, st', seq')" "res_ok st'" "routes st' = routes st" "stays_bounded (tick st) st'"
        using invoke_service_keeps [OF t(1) call] t(2) by auto
      with tick_ok [OF y(2)] run False dec m call show ?thesis
        by (auto simp: handle_buffer_def Let_def stays_bounded_def split: prod.splits)
    qed
  qed
qed

lemma readcb_keeps:
  assumes "res_ok st" and "readcb codec data c st seq = Some x"
  shows "x = Inl OutOfBounds \<and> \<not> fds_fit (world st) \<or> (\<exists>c' st' seq'. x = Inr (c', st', seq')
    \<and> res_ok st' \<and> routes st' = routes st \<and> (fds_fit (world st) \<longrightarrow> fds_fit (world st')))"
proof -
  obtain y where y: "handle_buffer codec (c_input c @ data) (c_output c) st seq = Some y"
    using assms(2) by (auto simp: readcb_def split: option.splits)
  from handle_buffer_keeps [OF assms(1) y] assms(2) y show ?thesis by (auto simp: readcb_def)
qed

lemma readcb_agent:
  assumes "agent_inv tr ft a" and "readcb codec data c (rs a) seq = Some (Inr (c', r, seq'))"
  shows "agent_inv tr ft (a\<lparr>rs := r\<rparr>)"
  using readcb_keeps [OF _ assms(2)] assms(1) by (auto simp: agent_inv_def agent_ok_def published_def)

lemma process_step_keeps:
  assumes "tr \<longrightarrow> providers_honest api"
  shows "process_step api cfg h codec p q \<Longrightarrow> process_ok tr ft p \<Longrightarrow> process_ok tr ft q"
proof (induction rule: process_step.induct)
  case (agent p a)
  then show ?case using agent_step_keeps [OF assms] by (auto simp: process_ok_def)
next
  case (signal signo rc p a)
  from signal.hyps(2) have "a = p_agent p \<or> (\<exists>r. refresh_declared_services api cfg h (p_agent p) = Inr (r, a))"
    by (cases signo) (auto simp: signal_handle_thread_func_def sig_handle_def split: if_splits sum.splits)
  then show ?case
    using signal.prems agent_step_keeps [OF assms agent_step.refresh] by (auto simp: process_ok_def)
next
  case (accept fd p srv)
  then show ?case using accept_keeps by (auto simp: process_ok_def)
next
  case (notify srv p i)
  from server_step_keeps [OF server_step.notify [OF notify(2)]] notify show ?case by (auto simp: process_ok_def)
next
  case (error srv p i fd)
  from server_step_keeps [OF server_step.error [OF error(2)]] error show ?case by (auto simp: process_ok_def)
next
  case (read srv p i w j data c r seq)
  have "agent_inv tr ft ((p_agent p)\<lparr>rs := r\<rparr>)"
    using readcb_agent [OF _ read(5)] read.prems by (simp add: process_ok_def)
  with server_step_keeps [OF server_step.read [OF read(2-5)]] read show ?case by (simp add: process_ok_def)
next
  case (reject srv p i w j data r seq)
  have "agent_inv tr ft ((p_agent p)\<lparr>rs := r\<rparr>)"
    using readcb_agent [OF _ reject(5)] reject.prems by (simp add: process_ok_def)
  with server_step_keeps [OF server_step.reject [OF reject(2-5)]] reject show ?case by (simp add: process_ok_def)
qed

lemma process_reachable_ok:
  "(process_step api cfg h codec)\<^sup>*\<^sup>* p q \<Longrightarrow> (tr \<longrightarrow> providers_honest api) \<Longrightarrow> process_ok tr ft p \<Longrightarrow> process_ok tr ft q"
  by (induction rule: rtranclp_induct) (auto intro: process_step_keeps)

section \<open>The end\<close>

lemma hash_del_all:
  assumes "hash_ok t"
  shows "fold (\<lambda>(k, v). hash_del k) (rev t) t = []"
proof -
  have "hash_ok (xs @ ys) \<Longrightarrow> fold (\<lambda>(k, v). hash_del k) (rev xs) (xs @ ys) = ys" for xs ys :: "'a htab"
  proof (induction xs arbitrary: ys rule: rev_induct)
    case (snoc x xs)
    obtain k v where x: "x = (k, v)" by (cases x)
    have "k \<notin> fst ` set xs" using snoc.prems x by (auto simp: hash_ok_def)
    then have "hash_del k (xs @ x # ys) = xs @ ys"
      using x by (induction xs) (auto split: prod.splits)
    moreover have "hash_ok (xs @ ys)" using snoc.prems by (auto simp: hash_ok_def)
    ultimately show ?case using snoc.IH [of ys] x by simp
  qed simp
  from this [of t "[]"] assms show ?thesis by simp
qed

text \<open>\<open>invoke_stub_destroy\<close> empties every table; a pool that is in use is not destroyed, its connections stay.\<close>

lemma destroy_nodes_total:
  assumes "slots_ok (world st) (\<lambda>k. hash_find (nodes st) k)" and "hash_ok (nodes st)"
    and "distinct (map fst items)" and "\<forall>(k, p) \<in> set items. hash_find (nodes st) k = Some p"
  shows "\<exists>st'. destroy_nodes items st = Inr st' \<and> nodes st' = fold (\<lambda>(k, p). hash_del k) items (nodes st)
    \<and> services st' = services st"
  using assms
proof (induction items arbitrary: st)
  case (Cons item items)
  obtain k p where kp: "item = (k, p)" by (cases item)
  have p: "hash_find (nodes st) k = Some p" using Cons.prems(4) kp by simp
  then have ok: "world_ok (world st)" "pool_ok (world st) p" using Cons.prems(1) unfolding slots_ok_def by blast+
  from pool_destroy_keeps [OF this] obtain r q w where
    d: "pool_destroy p (world st) = Inr (r, q, w)" "keeps (world st) p w q"
    using keeps_refl [OF ok] by (auto split: if_splits)
  let ?st = "st\<lparr>nodes := hash_del k (nodes st), world := w\<rparr>"
  have find: "hash_find (hash_del k (nodes st)) = (hash_find (nodes st))(k := None)"
    using Cons.prems(2) by (auto simp: hash_find_del)
  have "slots_ok w ((hash_find (nodes st))(k := Some q))"
    using slots_update [OF Cons.prems(1), of k p w q] p d(2) by simp
  from slots_remove [OF this, of k]
  have "slots_ok w ((hash_find (nodes st))(k := None))" by (simp only: fun_upd_upd)
  then have "slots_ok (world ?st) (\<lambda>k. hash_find (nodes ?st) k)"
    unfolding find [symmetric] by simp
  moreover have "hash_ok (nodes ?st)" using Cons.prems(2) by (simp add: hash_ok_del)
  moreover have "\<forall>(k', p') \<in> set items. hash_find (nodes ?st) k' = Some p'"
    using Cons.prems(3,4) kp find by force
  ultimately have "\<exists>st'. destroy_nodes items ?st = Inr st' \<and> nodes st' = fold (\<lambda>(k, p). hash_del k) items (nodes ?st)
      \<and> services st' = services ?st"
    using Cons.prems(3) by (intro Cons.IH) simp_all
  then show ?case using kp d(1) by simp
qed simp

lemma invoke_stub_destroy_empties:
  assumes "res_ok (rs st)"
  shows "\<exists>st'. invoke_stub_destroy api True st = Inr (0, False, st') \<and> nodes (rs st') = [] \<and> services (rs st') = []
    \<and> mapping st' = [] \<and> filters st' = [] \<and> contexts (watchers st') = []"
proof -
  have ok: "hash_ok (nodes (rs st))" "hash_ok (services (rs st))" using assms by (simp_all add: res_ok_def tables_ok_def)
  let ?r = "service_resource_destroy (rs st)"
  have r: "services ?r = []" "nodes ?r = nodes (rs st)" "world ?r = world (rs st)"
    using hash_del_all [OF ok(2)] by (simp_all add: service_resource_destroy_def hash_iter_def)
  have "slots_ok (world ?r) (\<lambda>k. hash_find (nodes ?r) k)"
    unfolding slots_ok_def
  proof (intro conjI allI impI)
    have at: "pool_at (rs st) (Node k) = hash_find (nodes (rs st)) k" for k by (simp add: pool_at_def)
    note all = assms [unfolded res_ok_def slots_ok_def]
    show "world_ok (world ?r)" using all r by simp
    show "pool_ok (world ?r) p" if "hash_find (nodes ?r) k = Some p" for k p
      using all that at r by metis
    show "conns p \<inter> conns q = {}" if "k \<noteq> l" "hash_find (nodes ?r) k = Some p" "hash_find (nodes ?r) l = Some q" for k l p q
      using all that at r by (metis slot.inject(1))
  qed
  moreover have "\<forall>(k, p) \<in> set (hash_iter (nodes ?r)). hash_find (nodes ?r) k = Some p"
    using ok(1) r(2) by (auto simp: hash_iter_def hash_find_in)
  moreover have "distinct (map fst (hash_iter (nodes ?r)))" "hash_ok (nodes ?r)"
    using ok(1) r(2) by (simp_all add: hash_iter_def hash_ok_def rev_map [symmetric])
  ultimately obtain r' where "destroy_nodes (hash_iter (nodes ?r)) ?r = Inr r'"
    "nodes r' = fold (\<lambda>(k, p). hash_del k) (hash_iter (nodes ?r)) (nodes ?r)" "services r' = services ?r"
    using destroy_nodes_total [of ?r "hash_iter (nodes ?r)"] by blast
  moreover have "register_mapping_destroy m = []" for m by (induction m rule: register_mapping_destroy.induct) simp_all
  ultimately show ?thesis
    using hash_del_all [OF ok(1)] r by (simp add: invoke_stub_destroy_def node_resource_destroy_def hash_iter_def Let_def split_def)
qed

section \<open>Property\<close>


section \<open>A start\<close>

text \<open>An agent with the declaration of theory Agent\_Routes, and a configuration that gives it an address.\<close>

definition process_lines :: "string list" where
  "process_lines = [''[server]'', ''unix_sock_path=127.0.0.1:80'']"

definition process_items :: "line_status list" where
  "process_items = [LINE_SECTION ''server'', LINE_VALUE ''unix_sock_path'' ''127.0.0.1:80'']"

definition process_conf :: dictionary where
  "process_conf = dict (fold apply_line process_items load_start)"

definition process_fs :: filesystem where
  "process_fs = \<lparr>cwd = [], tree = [[] \<mapsto> Dir True, [''conf''] \<mapsto> Dir True,
     [''conf'', ''agent.conf''] \<mapsto> File (concat (map (\<lambda>l. l @ [NL]) process_lines)) 7,
     [''conf'', ''declares.json''] \<mapsto> File demo_text 7], fs_time = 8\<rparr>"

definition process_env :: main_env where
  "process_env = \<lparr>daemon = \<lparr>rlim_max = Some 1024, fork1 = 0, fork2 = 0, sighup_ignored = True, devnull_opens = True\<rparr>,
     agent_home = None, process_id = 42, zlog_ok = (\<lambda>_. True), sigmask_ok = True, signal_thread_ok = True,
     answers = good_start\<rparr>"

definition ten_workers :: server where
  "ten_workers = \<lparr>global_worker_info_list =
     map (\<lambda>i. \<lparr>m_thread_name = worker_name i, m_notify = [], m_clients = []\<rparr>) [0 ..< 10], global_cycle_counter = 0\<rparr>"

lemma process_config: "config_init process_fs ''/conf/agent.conf'' = Inr (0, Some process_conf)"
proof -
  have "comps ''/conf/agent.conf'' = [''conf'', ''agent.conf'']" by code_simp
  then have "read_file ''/conf/agent.conf'' process_fs = Some (concat (map (\<lambda>l. l @ [NL]) process_lines))"
    by (simp add: read_file_def resolve_def absolute_def process_fs_def)
  moreover have lines: "list_all2 (\<lambda>l st. plain_line l \<and> iniparser_line (rstrip l) = Inr st) process_lines process_items"
    by code_simp
  ultimately have "iniparser_load process_fs ''/conf/agent.conf'' = Inr (Some process_conf)"
    using load_lines_plain [OF lines, of load_start "[]"] errs_after [of process_items load_start]
    by (simp add: iniparser_load_def load_lines_end load_start_def process_conf_def process_items_def significant_def)
  then show ?thesis by (simp add: config_init_def)
qed

lemma process_getstring:
  "iniparser_getstring (Some process_conf) (Some k) None
     = (if strlwc k = ''server:unix_sock_path'' then Some ''127.0.0.1:80'' else None)"
proof -
  let ?d = "dictionary_put (dictionary_new 0) ''server'' None"
  have "dict_ok ?d" "\<And>k. dict_lookup ?d k = (if k = ''server'' then Some None else None)"
    using put_keeps [OF dict_ok_new, of 0 "''server''" None] by (simp_all add: dict_lookup_new)
  moreover have "process_conf = dictionary_put ?d ''server:unix_sock_path'' (Some ''127.0.0.1:80'')"
    by (simp add: process_conf_def process_items_def apply_line_def load_start_def)
  ultimately have "dict_ok process_conf \<and> (\<forall>k. dict_lookup process_conf k =
      (if k = ''server:unix_sock_path'' then Some (Some ''127.0.0.1:80'') else if k = ''server'' then Some None else None))"
    using put_keeps [of ?d "''server:unix_sock_path''" "Some ''127.0.0.1:80''"] by simp
  then show ?thesis by (simp add: iniparser_getstring_def dictionary_get_lookup)
qed

lemma process_item_values:
  "get_config_item (Some process_conf) None ''server:cwd'' PATH_MAX ''/tmp'' = Some (Inr ''/tmp'')"
  "get_config_item (Some process_conf) None ''log:config_file'' PATH_MAX ''./conf/log.conf'' = Some (Inr ''./conf/log.conf'')"
  "get_config_item (Some process_conf) None ''server:pid_file'' PATH_MAX ''./logs/soa_proxy.pid'' = Some (Inr ''./logs/soa_proxy.pid'')"
  "get_config_item (Some process_conf) None ''server:services_declare_file'' PATH_MAX ''./conf/declares.json'' = Some (Inr ''./conf/declares.json'')"
  "get_config_item (Some process_conf) None ''server:zk_addrs'' 256 ''127.0.0.1:2181'' = Some (Inr ''127.0.0.1:2181'')"
  "get_config_item (Some process_conf) None ''server:unix_sock_path'' PATH_MAX ''/tmp/sock_proxy.sock'' = Some (Inr ''127.0.0.1:80'')"
  "config_of (Some process_conf) ''server:thread_num'' 10 = 10"
  by (simp_all add: get_config_item_def config_of_def get_config_item_int_def process_getstring strlwc_def
      tolower_def isupper_def snprintf_s_def PATH_MAX_def)

lemma process_start:
  "\<exists>h st. agent_main process_env demo_client [Opt_c ''/conf/agent.conf''] process_fs sample_world ()
     = Some (Inr (Serving h st ten_workers))"
proof -
  have "case write_pid 42 ''./logs/soa_proxy.pid'' process_fs of (_, fs) \<Rightarrow>
      case init_zk_handle demo_client (snprintf_s MAX_ZK_ADDR_LEN ''127.0.0.1:2181'') 42 () fs of (r, z, fs) \<Rightarrow>
        r = 0 \<and> is_path_exist fs ''./conf/declares.json''
        \<and> read_content_from_file (Some ''./conf/declares.json'') fs = Some demo_text" by code_simp
  then obtain r fs0 fs where pid: "write_pid 42 ''./logs/soa_proxy.pid'' process_fs = (r, fs0)"
    and init: "init_zk_handle demo_client (snprintf_s MAX_ZK_ADDR_LEN ''127.0.0.1:2181'') 42 () fs0 = (0, (), fs)"
    and declares: "is_path_exist fs ''./conf/declares.json''"
      "read_content_from_file (Some ''./conf/declares.json'') fs = Some demo_text" by (auto split: prod.splits)
  obtain h st where run: "invoke_stub_init demo_client (config_of (Some process_conf)) ''127.0.0.1:2181'' ''./conf/declares.json''
      42 sample_world fs0 () = Inr (0, h, st)"
    using demo_init [OF init declares] by blast
  obtain r' fs' where dir: "make_sure_dir (Some ''127.0.0.1:80'') MODE_755 (disk st) = (r', fs')" by fastforce
  have "parse_addr ''127.0.0.1:80'' 20 = Some (''127.0.0.1'', 80)" by code_simp
  moreover have "tcp_server_startup_with_multibase good_start 10 = (0, Some ten_workers)"
    by (simp add: tcp_server_startup_with_multibase_def good_start_def ten_workers_def list_all_iff)
  ultimately have "start_server process_env (Some process_conf) h st = Some (Inr (Serving h (st\<lparr>disk := fs'\<rparr>) ten_workers))"
    using dir process_item_values
    by (simp add: start_server_def with_item_def process_env_def server_startup_multibase_def)
  moreover have "snprintf_s PATH_MAX ''/conf/agent.conf'' = ''/conf/agent.conf''" by code_simp
  ultimately show ?thesis
    using process_config process_item_values pid run
    by (simp add: agent_main_def start_threads_def start_agent_def with_item_def process_env_def)
qed


end
