(* ===== verification/Invoke_Threads.thy ===== *)
theory Invoke_Threads
  imports Invoke_Service
begin

text \<open>
  The threads that share the resource tables (soaagent/invoke_stub.c, resource_mgt.c): workers in
  \<open>invoke_service\<close>, the registry's changes (one at a time, under \<open>global_modify_resource_lock\<close>),
  the threads that destroy the pools of removed nodes and the checker.  A step is one section under
  a lock, or one access between two sections; the threads interleave after every step.

  Here \<open>node_resource\<close>, \<open>service_resource\<close> and the key strings of a service are objects at
  addresses, as in the code: a thread keeps the address after it released the lock.  An access to
  an object that was freed is the fault \<open>OutOfBounds\<close>.  Addresses are not reused.  A freed node
  keeps its contents (\<open>node_freed\<close> says it is freed), other freed objects disappear.
\<close>

section \<open>The shared objects\<close>

record key_array =
  key_ptrs :: "addr list"
  key_counter :: u32

record shared =
  svc_tab :: "addr htab"
  svc_obj :: "addr \<Rightarrow> key_array option"
  key_str :: "addr \<Rightarrow> string option"
  node_tab :: "addr htab"
  node_obj :: "addr \<Rightarrow> pool_obj option"
  node_freed :: "addr set"
  next_obj :: addr
  wld :: world
  idents :: u32

definition node_at :: "shared \<Rightarrow> addr \<Rightarrow> pool_obj option" where
  "node_at sh n = (if n \<in> node_freed sh then None else node_obj sh n)"

definition set_node :: "addr \<Rightarrow> pool_obj \<Rightarrow> world \<Rightarrow> shared \<Rightarrow> shared" where
  "set_node n p w sh = sh\<lparr>node_obj := (node_obj sh)(n \<mapsto> p), wld := w\<rparr>"

section \<open>A worker\<close>

text \<open>
  Where a worker is in \<open>invoke_service\<close>, with its local variables: the request, the pointers it
  holds, the identifier, \<open>retry\<close> after its decrement, \<open>*res_buf\<close>.
\<close>

datatype worker =
    Idle
  | Called string string string "byte list"
  | HasService addr "byte list"
  | HasKeyPtr addr "byte list"
  | HasKey string "byte list"
  | HasNode addr "byte list"
  | Refused addr
  | Connected addr addr "byte list"
  | Counting addr addr "byte list"
  | Counted addr addr "byte list" u32
  | Trying addr addr u32 nat "byte list" "byte list option"
  | Broken addr addr u32 nat "byte list" "byte list option"
  | Finishing addr addr int "byte list option"
  | Released addr int "byte list option"
  | Returned int "byte list option"

text \<open>
  One step: \<open>None\<close> is a worker that is blocked in the kernel or has nothing to do.  The log calls
  at the end of \<open>pool_require_connection\<close> and \<open>pool_release_connection\<close> read the pool after its
  lock was released (as they do when their level is enabled).  \<open>next_identifier\<close> has no lock: it
  reads its counter and writes it back in two steps, between which another worker can read it too.
\<close>

fun call_step :: "worker \<Rightarrow> shared \<Rightarrow> (fault + worker \<times> shared) option" where
  "call_step (Called g s v req) sh =
     (case hash_find (svc_tab sh) (service_key_of g s v) of
        None \<Rightarrow> Some (Inr (Returned (-1) None, sh))
      | Some a \<Rightarrow> Some (Inr (HasService a req, sh)))"
| "call_step (HasService a req) sh =
     (case svc_obj sh a of
        None \<Rightarrow> Some (Inl OutOfBounds)
      | Some arr \<Rightarrow>
          if key_ptrs arr = [] then Some (Inr (Returned (-1) None, sh))
          else Some (Inr (HasKeyPtr (key_ptrs arr ! (unat (key_counter arr) mod length (key_ptrs arr))) req,
                 sh\<lparr>svc_obj := (svc_obj sh)(a \<mapsto> arr\<lparr>key_counter := key_counter arr + 1\<rparr>)\<rparr>)))"
| "call_step (HasKeyPtr p req) sh =
     (case key_str sh p of
        None \<Rightarrow> Some (Inl OutOfBounds)
      | Some key \<Rightarrow> Some (Inr (HasKey (snprintf_s 30 key) req, sh)))"
| "call_step (HasKey node_key req) sh =
     (case hash_find (node_tab sh) node_key of
        None \<Rightarrow> Some (Inr (Returned (-1) None, sh))
      | Some n \<Rightarrow> Some (Inr (HasNode n req, sh)))"
| "call_step (HasNode n req) sh =
     (case node_at sh n of
        None \<Rightarrow> Some (Inl OutOfBounds)
      | Some pool \<Rightarrow>
          (case pool_require_connection pool (wld sh) of
             Inl f \<Rightarrow> Some (Inl f)
           | Inr (None, pool, w) \<Rightarrow> Some (Inr (Refused n, set_node n pool w sh))
           | Inr (Some conn, pool, w) \<Rightarrow> Some (Inr (Connected n conn req, set_node n pool w sh))))"
| "call_step (Refused n) sh =
     (case node_at sh n of
        None \<Rightarrow> Some (Inl OutOfBounds)
      | Some _ \<Rightarrow> Some (Inr (Returned (-1) None, sh)))"
| "call_step (Connected n conn req) sh =
     (case node_at sh n of
        None \<Rightarrow> Some (Inl OutOfBounds)
      | Some _ \<Rightarrow> Some (Inr (Counting n conn req, sh)))"
| "call_step (Counting n conn req) sh = Some (Inr (Counted n conn req (idents sh), sh))"
| "call_step (Counted n conn req m) sh =
     (let (ident, seq) = next_identifier m; (start_time, w) = get_now_time (wld sh)
      in Some (Inr (Trying n conn ident RETRY_TIMES req None, sh\<lparr>wld := w, idents := seq\<rparr>)))"
| "call_step (Trying n conn ident retry req res_buf) sh =
     (case heap (wld sh) conn of
        None \<Rightarrow> Some (Inl OutOfBounds)
      | Some c \<Rightarrow>
          (case exchange (sock_fd c) ident req (wld sh) of
             None \<Rightarrow> None
           | Some (Inl f) \<Rightarrow> Some (Inl f)
           | Some (Inr (success, res_buf, w)) \<Rightarrow>
               Some (Inr (if success then Finishing n conn 0 res_buf
                          else if retry > 0 then Broken n conn ident retry req res_buf
                          else Finishing n conn (-1) res_buf, sh\<lparr>wld := w\<rparr>))))"
| "call_step (Broken n conn ident retry req res_buf) sh =
     (case heap (wld sh) conn of
        None \<Rightarrow> Some (Inl OutOfBounds)
      | Some c \<Rightarrow>
          let (_, c, w) = conn_reconnect c (wld sh)
          in Some (Inr (Trying n conn ident (retry - 1) req res_buf, sh\<lparr>wld := store_conn conn c w\<rparr>)))"
| "call_step (Finishing n conn return_code res_buf) sh =
     (case node_at sh n of
        None \<Rightarrow> Some (Inl OutOfBounds)
      | Some pool \<Rightarrow>
          (case pool_release_connection pool (Some conn) True (wld sh) of
             Inl f \<Rightarrow> Some (Inl f)
           | Inr (pool, w) \<Rightarrow> Some (Inr (Released n return_code res_buf, set_node n pool w sh))))"
| "call_step (Released n return_code res_buf) sh =
     (case node_at sh n of
        None \<Rightarrow> Some (Inl OutOfBounds)
      | Some _ \<Rightarrow>
          let (end_time, w) = get_now_time (wld sh)
          in Some (Inr (Returned return_code res_buf, sh\<lparr>wld := w\<rparr>)))"
| "call_step Idle sh = None"
| "call_step (Returned return_code res_buf) sh = None"

section \<open>The registry's changes\<close>

text \<open>
  \<open>resource_add\<close> and \<open>resource_delete\<close> with the functions they call; a route is the group, the
  service, the version, the host and the port.
\<close>

type_synonym route = "string \<times> string \<times> string \<times> string \<times> int"

definition route_service :: "route \<Rightarrow> string" where
  "route_service = (\<lambda>(g, s, v, h, p). service_key_of g s v)"

definition route_node :: "route \<Rightarrow> string" where
  "route_node = (\<lambda>(g, s, v, h, p). node_key_of h p)"

datatype registry =
    Quiet
  | AddNode route
  | NewNode route
  | LinkNode route addr
  | AddService route
  | AddKey route addr
  | NewService route
  | LinkService route addr
  | DelService route
  | DelKey route addr
  | CheckUsed route
  | DelNode route
  | UnlinkNode route addr
  | Destroyer addr

text \<open>\<open>string_array_find\<close> on the key strings, with the index of the first match.\<close>

fun find_key :: "(addr \<Rightarrow> string option) \<Rightarrow> string \<Rightarrow> addr list \<Rightarrow> nat \<Rightarrow> fault + nat option" where
  "find_key kstr value [] i = Inr None"
| "find_key kstr value (p # ps) i =
     (case kstr p of
        None \<Rightarrow> Inl OutOfBounds
      | Some k \<Rightarrow> if k = value then Inr (Some i) else find_key kstr value ps (Suc i))"

text \<open>The loop of \<open>service_resource_pool_is_used\<close>.\<close>

fun key_used :: "shared \<Rightarrow> string \<Rightarrow> addr list \<Rightarrow> fault + bool" where
  "key_used sh value [] = Inr False"
| "key_used sh value (a # as) =
     (case svc_obj sh a of
        None \<Rightarrow> Inl OutOfBounds
      | Some arr \<Rightarrow>
          (case find_key (key_str sh) value (key_ptrs arr) 0 of
             Inl f \<Rightarrow> Inl f
           | Inr (Some _) \<Rightarrow> Inr True
           | Inr None \<Rightarrow> key_used sh value as))"

definition strdup_key :: "string \<Rightarrow> shared \<Rightarrow> addr \<times> shared" where
  "strdup_key k sh = (next_obj sh, sh\<lparr>key_str := (key_str sh)(next_obj sh \<mapsto> k), next_obj := Suc (next_obj sh)\<rparr>)"

text \<open>One step of a change; \<open>None\<close> when no change is under way.\<close>

fun registry_step :: "config \<Rightarrow> registry \<Rightarrow> shared \<Rightarrow> (fault + registry \<times> shared) option" where
  "registry_step cfg Quiet sh = None"
| "registry_step cfg (AddNode r) sh =
     (case hash_find (node_tab sh) (route_node r) of
        None \<Rightarrow> Some (Inr (NewNode r, sh))
      | Some _ \<Rightarrow> Some (Inr (AddService r, sh)))"
| "registry_step cfg (NewNode (g, s, v, host, port)) sh =
     (let n = next_obj sh;
          (pool, w) = pool_init host port
            (cfg ''pool:timeout_secs'' 3) (cfg ''pool:init_conn_num'' 1)
            (cfg ''pool:min_conn_num'' 1) (cfg ''pool:max_conn_num'' 6)
            (cfg ''pool:max_idle_secs'' 60) (wld sh)
      in Some (Inr (LinkNode (g, s, v, host, port) n, set_node n pool w sh\<lparr>next_obj := Suc n\<rparr>)))"
| "registry_step cfg (LinkNode r n) sh =
     Some (Inr (AddService r, sh\<lparr>node_tab := hash_add (route_node r) n (node_tab sh)\<rparr>))"
| "registry_step cfg (AddService r) sh =
     (case hash_find (svc_tab sh) (route_service r) of
        None \<Rightarrow> Some (Inr (NewService r, sh))
      | Some a \<Rightarrow> Some (Inr (AddKey r a, sh)))"
| "registry_step cfg (AddKey r a) sh =
     (case svc_obj sh a of
        None \<Rightarrow> Some (Inl OutOfBounds)
      | Some arr \<Rightarrow>
          (case find_key (key_str sh) (route_node r) (key_ptrs arr) 0 of
             Inl f \<Rightarrow> Some (Inl f)
           | Inr (Some _) \<Rightarrow> Some (Inr (Quiet, sh))
           | Inr None \<Rightarrow>
               let (p, sh) = strdup_key (route_node r) sh
               in Some (Inr (Quiet, sh\<lparr>svc_obj := (svc_obj sh)(a \<mapsto> arr\<lparr>key_ptrs := key_ptrs arr @ [p]\<rparr>)\<rparr>))))"
| "registry_step cfg (NewService r) sh =
     (let a = next_obj sh; (p, sh) = strdup_key (route_node r) (sh\<lparr>next_obj := Suc a\<rparr>)
      in Some (Inr (LinkService r a, sh\<lparr>svc_obj := (svc_obj sh)(a \<mapsto> \<lparr>key_ptrs = [p], key_counter = 0\<rparr>)\<rparr>)))"
| "registry_step cfg (LinkService r a) sh =
     Some (Inr (Quiet, sh\<lparr>svc_tab := hash_add (route_service r) a (svc_tab sh)\<rparr>))"
| "registry_step cfg (DelService r) sh =
     (case hash_find (svc_tab sh) (route_service r) of
        None \<Rightarrow> Some (Inr (CheckUsed r, sh))
      | Some a \<Rightarrow> Some (Inr (DelKey r a, sh)))"
| "registry_step cfg (DelKey r a) sh =
     (case svc_obj sh a of
        None \<Rightarrow> Some (Inl OutOfBounds)
      | Some arr \<Rightarrow>
          (case find_key (key_str sh) (route_node r) (key_ptrs arr) 0 of
             Inl f \<Rightarrow> Some (Inl f)
           | Inr found \<Rightarrow>
               let (ptrs, left) = (case found of
                     None \<Rightarrow> (key_ptrs arr, key_str sh)
                   | Some i \<Rightarrow> (take i (key_ptrs arr) @ drop (i + 1) (key_ptrs arr),
                                (key_str sh)(key_ptrs arr ! i := None)))
               in Some (Inr (CheckUsed r,
                    if ptrs = [] then sh\<lparr>key_str := left, svc_tab := hash_del (route_service r) (svc_tab sh),
                                         svc_obj := (svc_obj sh)(a := None)\<rparr>
                    else sh\<lparr>key_str := left, svc_obj := (svc_obj sh)(a \<mapsto> arr\<lparr>key_ptrs := ptrs\<rparr>)\<rparr>))))"
| "registry_step cfg (CheckUsed r) sh =
     (case key_used sh (route_node r) (map snd (hash_iter (svc_tab sh))) of
        Inl f \<Rightarrow> Some (Inl f)
      | Inr used \<Rightarrow> Some (Inr (if \<not> used then DelNode r else Quiet, sh)))"
| "registry_step cfg (DelNode r) sh =
     (case hash_find (node_tab sh) (route_node r) of
        None \<Rightarrow> Some (Inr (Quiet, sh))
      | Some n \<Rightarrow> Some (Inr (UnlinkNode r n, sh)))"
| "registry_step cfg (UnlinkNode r n) sh =
     (case node_at sh n of
        None \<Rightarrow> Some (Inl OutOfBounds)
      | Some _ \<Rightarrow> Some (Inr (Destroyer n, sh\<lparr>node_tab := hash_del (route_node r) (node_tab sh)\<rparr>)))"
| "registry_step cfg (Destroyer n) sh = Some (Inr (Quiet, sh))"

section \<open>The threads that destroy pools\<close>

text \<open>
  \<open>pool_destroy_thd_func\<close>: an attempt is the section of \<open>pool_destroy\<close> under the pool's lock; when
  it succeeded the lock is destroyed and the node freed, which is a step of its own.
\<close>

datatype destroyer = Destroying addr nat | Freeing addr

fun destroyer_step :: "destroyer \<Rightarrow> shared \<Rightarrow> fault + destroyer option \<times> shared" where
  "destroyer_step (Destroying n retry) sh =
     (if retry = 0 then Inr (None, sh)
      else
        (case node_at sh n of
           None \<Rightarrow> Inl OutOfBounds
         | Some pool \<Rightarrow>
             (case pool_destroy pool (wld sh) of
                Inl f \<Rightarrow> Inl f
              | Inr (r, pool, w) \<Rightarrow>
                  Inr (Some (if r < 0 then Destroying n (retry - 1) else Freeing n), set_node n pool w sh))))"
| "destroyer_step (Freeing n) sh =
     (case node_at sh n of
        None \<Rightarrow> Inl OutOfBounds
      | Some _ \<Rightarrow> Inr (None, sh\<lparr>node_freed := insert n (node_freed sh)\<rparr>))"

section \<open>All the threads\<close>

text \<open>
  \<open>to_check\<close> holds the nodes that \<open>conn_check_thd_func\<close> has still to check; while there is one it
  holds \<open>nodes_pool_lock\<close>, and a step that needs that lock waits.
\<close>

record threads =
  shd :: shared
  callers :: "nat \<Rightarrow> worker"
  registry :: registry
  destroyers :: "nat \<Rightarrow> destroyer option"
  next_destroyer :: nat
  to_check :: "addr list"

fun wants_nodes :: "worker \<Rightarrow> bool" where
  "wants_nodes (HasKey k req) = True"
| "wants_nodes _ = False"

fun changes_nodes :: "registry \<Rightarrow> bool" where
  "changes_nodes (AddNode r) = True"
| "changes_nodes (LinkNode r n) = True"
| "changes_nodes (DelNode r) = True"
| "changes_nodes (UnlinkNode r n) = True"
| "changes_nodes _ = False"

datatype event =
    Call nat string string string "byte list"
  | Work nat
  | Add route
  | Delete route
  | Change
  | Destroy nat
  | Check

text \<open>
  What can happen next: a request reaches an idle worker, a worker goes on, a change begins or
  goes on, a destroying thread goes on, the checker begins its round or checks a node.
\<close>

fun threads_step :: "config \<Rightarrow> event \<Rightarrow> threads \<Rightarrow> (fault + threads) option" where
  "threads_step cfg (Call i g s v req) t =
     (case callers t i of
        Idle \<Rightarrow> Some (Inr (t\<lparr>callers := (callers t)(i := Called g s v req)\<rparr>))
      | Returned _ _ \<Rightarrow> Some (Inr (t\<lparr>callers := (callers t)(i := Called g s v req)\<rparr>))
      | _ \<Rightarrow> None)"
| "threads_step cfg (Work i) t =
     (if wants_nodes (callers t i) \<and> to_check t \<noteq> [] then None
      else
        (case call_step (callers t i) (shd t) of
           None \<Rightarrow> None
         | Some (Inl f) \<Rightarrow> Some (Inl f)
         | Some (Inr (wk, sh)) \<Rightarrow> Some (Inr (t\<lparr>callers := (callers t)(i := wk), shd := sh\<rparr>))))"
| "threads_step cfg (Add r) t =
     (if registry t = Quiet then Some (Inr (t\<lparr>registry := AddNode r\<rparr>)) else None)"
| "threads_step cfg (Delete r) t =
     (if registry t = Quiet then Some (Inr (t\<lparr>registry := DelService r\<rparr>)) else None)"
| "threads_step cfg Change t =
     (if changes_nodes (registry t) \<and> to_check t \<noteq> [] then None
      else
        (case registry_step cfg (registry t) (shd t) of
           None \<Rightarrow> None
         | Some (Inl f) \<Rightarrow> Some (Inl f)
         | Some (Inr (reg, sh)) \<Rightarrow>
             let t' = t\<lparr>registry := reg, shd := sh\<rparr>
             in Some (Inr (case registry t of
                  Destroyer n \<Rightarrow> t'\<lparr>destroyers := (destroyers t)(next_destroyer t \<mapsto> Destroying n (10 * 5)),
                                     next_destroyer := Suc (next_destroyer t)\<rparr>
                | _ \<Rightarrow> t'))))"
| "threads_step cfg (Destroy i) t =
     (case destroyers t i of
        None \<Rightarrow> None
      | Some d \<Rightarrow>
          (case destroyer_step d (shd t) of
             Inl f \<Rightarrow> Some (Inl f)
           | Inr (d, sh) \<Rightarrow> Some (Inr (t\<lparr>shd := sh, destroyers := (destroyers t)(i := d)\<rparr>))))"
| "threads_step cfg Check t =
     (case to_check t of
        [] \<Rightarrow> Some (Inr (t\<lparr>to_check := map snd (hash_iter (node_tab (shd t)))\<rparr>))
      | n # ns \<Rightarrow>
          (case node_at (shd t) n of
             None \<Rightarrow> Some (Inl OutOfBounds)
           | Some pool \<Rightarrow>
               (case pool_check pool (wld (shd t)) of
                  Inl f \<Rightarrow> Some (Inl f)
                | Inr (pool, w) \<Rightarrow> Some (Inr (t\<lparr>to_check := ns, shd := set_node n pool w (shd t)\<rparr>)))))"

text \<open>A run along a sequence of events, every one of which must be possible.\<close>

fun threads_run :: "config \<Rightarrow> event list \<Rightarrow> threads \<Rightarrow> (fault + threads) option" where
  "threads_run cfg [] t = Some (Inr t)"
| "threads_run cfg (e # es) t =
     (case threads_step cfg e t of
        None \<Rightarrow> None
      | Some (Inl f) \<Rightarrow> (if es = [] then Some (Inl f) else None)
      | Some (Inr t) \<Rightarrow> threads_run cfg es t)"

definition threads_init :: "world \<Rightarrow> threads" where
  "threads_init w = \<lparr>shd = \<lparr>svc_tab = [], svc_obj = (\<lambda>_. None), key_str = (\<lambda>_. None), node_tab = [],
       node_obj = (\<lambda>_. None), node_freed = {}, next_obj = 0, wld = w, idents = 0\<rparr>,
     callers = (\<lambda>_. Idle), registry = Quiet, destroyers = (\<lambda>_. None), next_destroyer = 0, to_check = []\<rparr>"

end
