(* ===== verification/Threads_Invariant.thy ===== *)
theory Threads_Invariant
  imports Invoke_Threads
begin

text \<open>
  The invariant of the threads of theory Invoke\_Threads and its preservation by every event:
  the tables point to live objects, every connection belongs to one pool and is used by at most
  one worker, every removed node has one destroying thread.  Three kinds of steps can fault: a
  worker's access to an object that was freed since it got its address, a worker's \<open>FD_SET\<close> with
  a descriptor that does not fit, and the checker's computation with an idle time that is too big.
\<close>

section \<open>The invariant\<close>

text \<open>A table of pointers: no pointer is in it twice and each points to a live object.\<close>

definition tab_ok :: "addr htab \<Rightarrow> (addr \<Rightarrow> 'v option) \<Rightarrow> bool" where
  "tab_ok tab obj \<longleftrightarrow> hash_ok tab \<and> distinct (map snd tab) \<and> (\<forall>a \<in> snd ` set tab. obj a \<noteq> None)"

lemma tab_find: "hash_find tab k = Some a \<Longrightarrow> a \<in> snd ` set tab"
  by (force simp: hash_find_def dest: map_of_SomeD)

lemma tab_alive: "tab_ok tab obj \<Longrightarrow> hash_find tab k = Some a \<Longrightarrow> \<exists>x. obj a = Some x"
  using tab_find [of tab k a] by (auto simp: tab_ok_def)

lemma tab_add:
  "tab_ok tab obj \<Longrightarrow> hash_find tab k = None \<Longrightarrow> a \<notin> snd ` set tab \<Longrightarrow> obj a \<noteq> None \<Longrightarrow> tab_ok (hash_add k a tab) obj"
  by (auto simp: tab_ok_def hash_ok_def hash_add_def hash_find_None)

lemma tab_del:
  assumes "tab_ok tab obj" and "hash_find tab k = Some a"
  shows "distinct (map snd (hash_del k tab)) \<and> snd ` set (hash_del k tab) = snd ` set tab - {a}"
  using assms
proof (induction k tab rule: hash_del.induct)
  case (2 k k' v' t)
  then show ?case
    using tab_find [of t k a] by (cases "k' = k") (auto simp: tab_ok_def hash_ok_def hash_find_def)
qed (simp add: hash_find_def)

lemma tab_mono: "tab_ok tab obj \<Longrightarrow> (\<And>a. a \<in> snd ` set tab \<Longrightarrow> obj a \<noteq> None \<Longrightarrow> obj' a \<noteq> None) \<Longrightarrow> tab_ok tab obj'"
  by (auto simp: tab_ok_def)

text \<open>Every live service has its own live key strings; the pools are as in theory Resource\_Mgt.\<close>

definition arrays_alive :: "(addr \<Rightarrow> key_array option) \<Rightarrow> (addr \<Rightarrow> string option) \<Rightarrow> bool" where
  "arrays_alive obj kstr \<longleftrightarrow>
     (\<forall>a arr. obj a = Some arr \<longrightarrow> distinct (key_ptrs arr) \<and> (\<forall>p \<in> set (key_ptrs arr). kstr p \<noteq> None))
     \<and> (\<forall>a b arr brr p. obj a = Some arr \<longrightarrow> obj b = Some brr \<longrightarrow> p \<in> set (key_ptrs arr) \<longrightarrow>
          p \<in> set (key_ptrs brr) \<longrightarrow> a = b)"

lemma arrays_alive_one: "arrays_alive obj kstr \<Longrightarrow> obj b = Some brr \<Longrightarrow> obj c = Some crr \<Longrightarrow>
    p \<in> set (key_ptrs brr) \<Longrightarrow> p \<in> set (key_ptrs crr) \<Longrightarrow> b = c"
  unfolding arrays_alive_def by blast

lemma arrays_alive_upd:
  assumes "arrays_alive obj kstr" and "distinct (key_ptrs arr)" and "\<And>p. p \<in> set (key_ptrs arr) \<Longrightarrow> kstr' p \<noteq> None"
    and "\<And>b brr p. b \<noteq> a \<Longrightarrow> obj b = Some brr \<Longrightarrow> p \<in> set (key_ptrs brr) \<Longrightarrow>
      p \<notin> set (key_ptrs arr) \<and> (kstr p \<noteq> None \<longrightarrow> kstr' p \<noteq> None)"
  shows "arrays_alive (obj(a \<mapsto> arr)) kstr'"
  unfolding arrays_alive_def
proof (intro conjI allI impI ballI)
  show "distinct (key_ptrs brr)" if "(obj(a \<mapsto> arr)) b = Some brr" for b brr
    using that assms(1,2) by (auto simp: arrays_alive_def split: if_splits)
  show "kstr' p \<noteq> None" if "(obj(a \<mapsto> arr)) b = Some brr" "p \<in> set (key_ptrs brr)" for b brr p
    using that assms(1) assms(3) [of p] assms(4) [of b brr p] by (auto simp: arrays_alive_def split: if_splits)
  show "b = c" if "(obj(a \<mapsto> arr)) b = Some brr" "(obj(a \<mapsto> arr)) c = Some crr"
    "p \<in> set (key_ptrs brr)" "p \<in> set (key_ptrs crr)" for b c brr crr p
    using that assms(4) [of b brr p] assms(4) [of c crr p] arrays_alive_one [OF assms(1), of b brr c crr p]
    by (auto split: if_splits)
qed

lemma arrays_alive_del:
  assumes "arrays_alive obj kstr" and "\<And>b brr p. b \<noteq> a \<Longrightarrow> obj b = Some brr \<Longrightarrow> p \<in> set (key_ptrs brr) \<Longrightarrow>
      kstr p \<noteq> None \<longrightarrow> kstr' p \<noteq> None"
  shows "arrays_alive (obj(a := None)) kstr'"
  unfolding arrays_alive_def
proof (intro conjI allI impI ballI)
  show "distinct (key_ptrs brr)" if "(obj(a := None)) b = Some brr" for b brr
    using that assms(1) by (auto simp: arrays_alive_def split: if_splits)
  show "kstr' p \<noteq> None" if "(obj(a := None)) b = Some brr" "p \<in> set (key_ptrs brr)" for b brr p
    using that assms(1) assms(2) [of b brr p] by (auto simp: arrays_alive_def split: if_splits)
  show "b = c" if "(obj(a := None)) b = Some brr" "(obj(a := None)) c = Some crr"
    "p \<in> set (key_ptrs brr)" "p \<in> set (key_ptrs crr)" for b c brr crr p
    using that arrays_alive_one [OF assms(1), of b brr c crr p] by (auto split: if_splits)
qed

lemma arrays_alive_own:
  "arrays_alive obj kstr \<Longrightarrow> obj a = Some arr \<Longrightarrow> b \<noteq> a \<Longrightarrow> obj b = Some brr \<Longrightarrow> p \<in> set (key_ptrs brr) \<Longrightarrow>
     p \<notin> set (key_ptrs arr)"
  and arrays_alive_str: "arrays_alive obj kstr \<Longrightarrow> obj a = Some arr \<Longrightarrow> p \<in> set (key_ptrs arr) \<Longrightarrow> \<exists>k. kstr p = Some k"
  and arrays_alive_distinct: "arrays_alive obj kstr \<Longrightarrow> obj a = Some arr \<Longrightarrow> distinct (key_ptrs arr)"
  unfolding arrays_alive_def by blast+

definition allocated :: "shared \<Rightarrow> bool" where
  "allocated sh \<longleftrightarrow> (\<forall>a. node_obj sh a \<noteq> None \<or> svc_obj sh a \<noteq> None \<or> key_str sh a \<noteq> None \<longrightarrow> a < next_obj sh)
     \<and> (\<forall>n \<in> node_freed sh. n < next_obj sh)"

definition shared_ok :: "shared \<Rightarrow> bool" where
  "shared_ok sh \<longleftrightarrow> slots_ok (wld sh) (node_obj sh) \<and> allocated sh
     \<and> tab_ok (node_tab sh) (node_at sh) \<and> tab_ok (svc_tab sh) (svc_obj sh) \<and> arrays_alive (svc_obj sh) (key_str sh)"

text \<open>The node and the connection a worker holds.\<close>

fun holding :: "worker \<Rightarrow> (addr \<times> addr) option" where
  "holding (Connected n c req) = Some (n, c)"
| "holding (Counting n c req) = Some (n, c)"
| "holding (Counted n c req m) = Some (n, c)"
| "holding (Trying n c ident retry req res) = Some (n, c)"
| "holding (Broken n c ident retry req res) = Some (n, c)"
| "holding (Finishing n c ret res) = Some (n, c)"
| "holding _ = None"

definition workers_ok :: "shared \<Rightarrow> (nat \<Rightarrow> worker) \<Rightarrow> bool" where
  "workers_ok sh wks \<longleftrightarrow> (\<forall>i n c. holding (wks i) = Some (n, c) \<longrightarrow>
     (\<exists>p. node_obj sh n = Some p \<and> c \<in> set (used_conn_list p))
     \<and> (\<forall>j m. j \<noteq> i \<longrightarrow> holding (wks j) \<noteq> Some (m, c)))"

text \<open>What the registry relies on between two of its own sections.\<close>

fun registry_ok :: "shared \<Rightarrow> registry \<Rightarrow> bool" where
  "registry_ok sh (NewNode r) = (hash_find (node_tab sh) (route_node r) = None)"
| "registry_ok sh (LinkNode r n) = (hash_find (node_tab sh) (route_node r) = None
     \<and> node_at sh n \<noteq> None \<and> n \<notin> snd ` set (node_tab sh))"
| "registry_ok sh (AddKey r a) = (hash_find (svc_tab sh) (route_service r) = Some a)"
| "registry_ok sh (DelKey r a) = (hash_find (svc_tab sh) (route_service r) = Some a)"
| "registry_ok sh (NewService r) = (hash_find (svc_tab sh) (route_service r) = None)"
| "registry_ok sh (LinkService r a) = (hash_find (svc_tab sh) (route_service r) = None
     \<and> svc_obj sh a \<noteq> None \<and> a \<notin> snd ` set (svc_tab sh))"
| "registry_ok sh (UnlinkNode r n) = (hash_find (node_tab sh) (route_node r) = Some n)"
| "registry_ok sh (Destroyer n) = (node_at sh n \<noteq> None \<and> n \<notin> snd ` set (node_tab sh))"
| "registry_ok sh _ = True"

fun reg_node :: "registry \<Rightarrow> addr option" where
  "reg_node (LinkNode r n) = Some n"
| "reg_node (Destroyer n) = Some n"
| "reg_node _ = None"

fun doomed :: "destroyer \<Rightarrow> addr" where
  "doomed (Destroying n retry) = n"
| "doomed (Freeing n) = n"

definition destroyers_ok :: "threads \<Rightarrow> bool" where
  "destroyers_ok t \<longleftrightarrow> (\<forall>i d. destroyers t i = Some d \<longrightarrow> i < next_destroyer t
     \<and> node_at (shd t) (doomed d) \<noteq> None \<and> doomed d \<notin> snd ` set (node_tab (shd t))
     \<and> reg_node (registry t) \<noteq> Some (doomed d)
     \<and> (\<forall>j e. j \<noteq> i \<longrightarrow> destroyers t j = Some e \<longrightarrow> doomed e \<noteq> doomed d))"

definition threads_ok :: "threads \<Rightarrow> bool" where
  "threads_ok t \<longleftrightarrow> shared_ok (shd t) \<and> workers_ok (shd t) (callers t) \<and> registry_ok (shd t) (registry t)
     \<and> destroyers_ok t \<and> set (to_check t) \<subseteq> snd ` set (node_tab (shd t))"

lemma threads_ok_init: "world_ok w \<Longrightarrow> threads_ok (threads_init w)"
  by (simp add: threads_ok_def threads_init_def shared_ok_def slots_ok_def allocated_def tab_ok_def hash_ok_def
      arrays_alive_def workers_ok_def destroyers_ok_def)

section \<open>Steps on a pool\<close>

lemma set_node_simps [simp]:
  "svc_tab (set_node n p w sh) = svc_tab sh" "svc_obj (set_node n p w sh) = svc_obj sh"
  "key_str (set_node n p w sh) = key_str sh" "node_tab (set_node n p w sh) = node_tab sh"
  "node_freed (set_node n p w sh) = node_freed sh" "next_obj (set_node n p w sh) = next_obj sh"
  "node_obj (set_node n p w sh) = (node_obj sh)(n \<mapsto> p)" "wld (set_node n p w sh) = w"
  by (simp_all add: set_node_def)

lemma node_at_set [simp]:
  "node_at (set_node n p w sh) = (\<lambda>m. if m = n then if n \<in> node_freed sh then None else Some p else node_at sh m)"
  by (auto simp: node_at_def fun_eq_iff)

lemma node_at_Some: "node_at sh n = Some p \<longleftrightarrow> n \<notin> node_freed sh \<and> node_obj sh n = Some p"
  by (simp add: node_at_def)

lemma set_node_same: "node_obj sh n = Some p \<Longrightarrow> set_node n p w sh = sh\<lparr>wld := w\<rparr>"
  by (simp add: set_node_def fun_upd_idem)

lemma set_node_ok:
  assumes "shared_ok sh" and "node_obj sh n = Some q" and "keeps (wld sh) q w p"
  shows "shared_ok (set_node n p w sh)"
proof -
  have "slots_ok w ((node_obj sh)(n \<mapsto> p))"
    using slots_update [of "wld sh" "node_obj sh" n q w p] assms by (simp add: shared_ok_def)
  moreover have "tab_ok (node_tab sh) (node_at (set_node n p w sh))"
    by (rule tab_mono [of _ "node_at sh"]) (use assms in \<open>auto simp: shared_ok_def node_at_def split: if_splits\<close>)
  ultimately show ?thesis
    using assms by (auto simp: shared_ok_def allocated_def arrays_alive_def)
qed

lemma pool_kept: "shared_ok sh \<Longrightarrow> node_obj sh n = Some p \<Longrightarrow> world_ok (wld sh) \<and> pool_ok (wld sh) p"
  by (auto simp: shared_ok_def slots_ok_def)

lemma slots_apart:
  "shared_ok sh \<Longrightarrow> node_obj sh m = Some p \<Longrightarrow> node_obj sh n = Some q \<Longrightarrow> m \<noteq> n \<Longrightarrow> conns p \<inter> conns q = {}"
  unfolding shared_ok_def slots_ok_def by blast

lemma registry_ok_set: "registry_ok sh reg \<Longrightarrow> registry_ok (set_node n p w sh) reg" if "node_obj sh n = Some q"
  using that by (cases reg) (auto simp: node_at_def split: if_splits)

text \<open>
  A worker's step on one pool keeps the invariant when the pool keeps the connections the other
  workers hold and the worker holds nothing, what it held, or a connection nobody held.
\<close>

lemma pool_step_ok:
  assumes ok: "threads_ok t" and n: "node_obj (shd t) n = Some q" and k: "keeps (wld (shd t)) q w p"
    and others: "\<And>j c. j \<noteq> i \<Longrightarrow> holding (callers t j) = Some (n, c) \<Longrightarrow> c \<in> set (used_conn_list p)"
    and own: "\<And>m c. holding wk = Some (m, c) \<Longrightarrow>
      m = n \<and> c \<in> set (used_conn_list p) \<and> (\<forall>j m. j \<noteq> i \<longrightarrow> holding (callers t j) \<noteq> Some (m, c))"
  shows "threads_ok (t\<lparr>callers := (callers t)(i := wk), shd := set_node n p w (shd t)\<rparr>)"
proof -
  have w: "workers_ok (shd t) (callers t)" using ok by (simp add: threads_ok_def)
  have "workers_ok (set_node n p w (shd t)) ((callers t)(i := wk))"
    unfolding workers_ok_def
  proof (intro allI impI)
    fix j m c
    assume h: "holding (((callers t)(i := wk)) j) = Some (m, c)"
    show "(\<exists>p'. node_obj (set_node n p w (shd t)) m = Some p' \<and> c \<in> set (used_conn_list p'))
      \<and> (\<forall>l m. l \<noteq> j \<longrightarrow> holding (((callers t)(i := wk)) l) \<noteq> Some (m, c))"
    proof (cases "j = i")
      case True
      with h own [of m c] show ?thesis by auto
    next
      case False
      with h have hj: "holding (callers t j) = Some (m, c)" by simp
      then have "\<exists>p'. node_obj (set_node n p w (shd t)) m = Some p' \<and> c \<in> set (used_conn_list p')"
        using w others [OF False] unfolding workers_ok_def by (cases "m = n") auto
      moreover have "holding wk \<noteq> Some (m', c)" for m' using own [of m' c] hj False by auto
      moreover have "holding (callers t l) \<noteq> Some (m', c)" if "l \<noteq> j" for l m'
        using w hj that unfolding workers_ok_def by blast
      ultimately show ?thesis by (metis fun_upd_apply)
    qed
  qed
  moreover have "destroyers_ok (t\<lparr>callers := (callers t)(i := wk), shd := set_node n p w (shd t)\<rparr>)"
    using ok n by (auto simp: threads_ok_def destroyers_ok_def node_at_def split: if_splits)
  ultimately show ?thesis
    using ok set_node_ok [OF _ n k] registry_ok_set [OF n] by (simp add: threads_ok_def)
qed

lemma workers_ok_nodes: "node_obj sh' = node_obj sh \<Longrightarrow> workers_ok sh' wks = workers_ok sh wks"
  by (simp add: workers_ok_def)

lemma workers_ok_idle: "workers_ok sh wks \<Longrightarrow> holding wk = None \<Longrightarrow> workers_ok sh (wks(i := wk))"
  unfolding workers_ok_def by (metis fun_upd_apply option.distinct(1))

lemma holder_pool:
  assumes "threads_ok t" and "holding (callers t i) = Some (n, c)"
  obtains p where "node_obj (shd t) n = Some p" and "c \<in> set (used_conn_list p)"
    and "world_ok (wld (shd t))" and "pool_ok (wld (shd t)) p" and "c \<in> conns p"
    and "\<And>j m. j \<noteq> i \<Longrightarrow> holding (callers t j) \<noteq> Some (m, c)"
proof -
  from assms obtain p where p: "node_obj (shd t) n = Some p" "c \<in> set (used_conn_list p)"
    "\<forall>j m. j \<noteq> i \<longrightarrow> holding (callers t j) \<noteq> Some (m, c)"
    unfolding threads_ok_def workers_ok_def by blast
  with that [of p] pool_kept [of "shd t" n p] assms(1) show thesis
    by (simp add: threads_ok_def conns_def)
qed

text \<open>The steps of a worker that leave its connection with it.\<close>

lemma hold_step_ok:
  assumes ok: "threads_ok t" and h: "holding (callers t i) = Some (n, c)" and wk: "holding wk = Some (n, c)"
    and p: "node_obj (shd t) n = Some p" and k: "keeps (wld (shd t)) p w p"
  shows "threads_ok (t\<lparr>callers := (callers t)(i := wk), shd := (shd t)\<lparr>wld := w\<rparr>\<rparr>)"
proof -
  obtain q where q: "node_obj (shd t) n = Some q" "c \<in> set (used_conn_list q)"
    "\<And>j m. j \<noteq> i \<Longrightarrow> holding (callers t j) \<noteq> Some (m, c)" using holder_pool [OF ok h] by metis
  have "d \<in> set (used_conn_list p)" if "holding (callers t j) = Some (n, d)" for j d
    using holder_pool [OF ok that] p by (metis option.inject)
  then have "threads_ok (t\<lparr>callers := (callers t)(i := wk), shd := set_node n p w (shd t)\<rparr>)"
    using wk q p by (intro pool_step_ok [OF ok p k]) auto
  then show ?thesis using set_node_same [OF p] by simp
qed

lemma threads_ok_idents: "threads_ok (t\<lparr>shd := (shd t)\<lparr>idents := s\<rparr>\<rparr>) = threads_ok t"
proof -
  have "registry_ok ((shd t)\<lparr>idents := s\<rparr>) (registry t) = registry_ok (shd t) (registry t)"
    by (cases "registry t") (simp_all add: node_at_def)
  moreover have "node_at ((shd t)\<lparr>idents := s\<rparr>) = node_at (shd t)" by (simp add: node_at_def fun_eq_iff)
  ultimately show ?thesis
    by (simp add: threads_ok_def shared_ok_def allocated_def arrays_alive_def workers_ok_def destroyers_ok_def)
qed

lemma exchange_keeps:
  assumes "exchange fd ident req w = Some r" and "world_ok w" and "pool_ok w p"
  shows "(r = Inl OutOfBounds \<and> 0 \<le> fd \<and> \<not> selectable fd) \<or> (\<exists>ok res w'. r = Inr (ok, res, w') \<and> keeps w p w' p)"
  using exchange_result [OF assms(1)] keeps_lines [OF assms(2,3)] unfolding line_changed_def by metis

lemma counter_shared_ok:
  assumes ok: "shared_ok sh" and a: "svc_obj sh a = Some arr"
  shows "shared_ok (sh\<lparr>svc_obj := (svc_obj sh)(a \<mapsto> arr\<lparr>key_counter := cnt\<rparr>)\<rparr>)"
proof -
  let ?sh = "sh\<lparr>svc_obj := (svc_obj sh)(a \<mapsto> arr\<lparr>key_counter := cnt\<rparr>)\<rparr>"
  have at: "node_at ?sh = node_at sh" by (simp add: node_at_def fun_eq_iff)
  have alive: "arrays_alive (svc_obj sh) (key_str sh)" using ok by (simp add: shared_ok_def)
  have "arrays_alive ((svc_obj sh)(a \<mapsto> arr\<lparr>key_counter := cnt\<rparr>)) (key_str sh)"
    by (rule arrays_alive_upd [OF alive])
       (use arrays_alive_own [OF alive a] arrays_alive_str [OF alive a] arrays_alive_distinct [OF alive a] in auto)
  moreover have "allocated ?sh" using ok a by (auto simp: shared_ok_def allocated_def)
  moreover have "tab_ok (svc_tab sh) (svc_obj ?sh)"
    by (rule tab_mono [of _ "svc_obj sh"]) (use ok in \<open>auto simp: shared_ok_def\<close>)
  ultimately show ?thesis using ok at by (simp add: shared_ok_def)
qed

lemma counter_step_ok:
  assumes ok: "threads_ok t" and a: "svc_obj (shd t) a = Some arr" and wk: "holding wk = None"
  shows "threads_ok (t\<lparr>callers := (callers t)(i := wk),
    shd := (shd t)\<lparr>svc_obj := (svc_obj (shd t))(a \<mapsto> arr\<lparr>key_counter := cnt\<rparr>)\<rparr>\<rparr>)"
proof -
  let ?sh = "(shd t)\<lparr>svc_obj := (svc_obj (shd t))(a \<mapsto> arr\<lparr>key_counter := cnt\<rparr>)\<rparr>"
  have at: "node_at ?sh = node_at (shd t)" by (simp add: node_at_def fun_eq_iff)
  have "shared_ok ?sh" using ok counter_shared_ok [OF _ a] by (simp add: threads_ok_def)
  moreover have "registry_ok ?sh (registry t)"
    using ok at by (cases "registry t") (auto simp: threads_ok_def)
  moreover have "workers_ok ?sh ((callers t)(i := wk))"
    using ok wk by (intro workers_ok_idle) (auto simp: threads_ok_def workers_ok_def)
  ultimately show ?thesis using ok at by (auto simp: threads_ok_def destroyers_ok_def)
qed

lemma work_keeps:
  assumes ok: "threads_ok t" and run: "call_step (callers t i) (shd t) = Some (Inr (wk, sh))"
  shows "threads_ok (t\<lparr>callers := (callers t)(i := wk), shd := sh\<rparr>)"
proof -
  have idle: "threads_ok (t\<lparr>callers := (callers t)(i := wk)\<rparr>)" if "holding wk = None"
    using ok workers_ok_idle that by (auto simp: threads_ok_def destroyers_ok_def)
  show ?thesis
  proof (cases "callers t i")
    case (HasService a req)
    then show ?thesis
      using run idle counter_step_ok [OF ok, of a] by (auto split: option.splits if_splits)
  next
    case (HasNode n req)
    then obtain q where q: "node_obj (shd t) n = Some q"
      using run by (auto simp: node_at_Some split: option.splits)
    from pool_require_keeps [of "wld (shd t)" q] pool_kept [OF _ q] ok obtain r p w where
      req: "pool_require_connection q (wld (shd t)) = Inr (r, p, w)" "keeps (wld (shd t)) q w p"
      and got: "case r of None \<Rightarrow> p = q | Some c \<Rightarrow> c \<notin> set (used_conn_list q) \<and> used_conn_list p = used_conn_list q @ [c]"
      by (fastforce simp: threads_ok_def split: option.splits)
    have others: "d \<in> set (used_conn_list p) \<and> d \<in> set (used_conn_list q)" if "holding (callers t j) = Some (n, d)" for j d
      using holder_pool [OF ok that] q got by (auto split: option.splits)
    have sh: "sh = set_node n p w (shd t)"
      using run HasNode q req by (auto simp: node_at_Some split: option.splits)
    show ?thesis
      unfolding sh
    proof (rule pool_step_ok [OF ok q req(2)])
      show "\<And>j c. j \<noteq> i \<Longrightarrow> holding (callers t j) = Some (n, c) \<Longrightarrow> c \<in> set (used_conn_list p)"
        using others by blast
      fix m c
      assume "holding wk = Some (m, c)"
      then have "r = Some c" "m = n" using run HasNode q req by (auto simp: node_at_Some split: option.splits)
      moreover have "holding (callers t j) \<noteq> Some (m', c)" for j m'
      proof
        assume h: "holding (callers t j) = Some (m', c)"
        from holder_pool [OF ok this] obtain p' where p': "node_obj (shd t) m' = Some p'" "c \<in> conns p'" "c \<in> set (used_conn_list p')" .
        have "c \<in> conns p" "m' \<noteq> n" using got \<open>r = Some c\<close> others [of j c] h by (auto simp: conns_def)
        with p' slots_apart [OF set_node_ok [OF _ q req(2)], of m' p' n p] ok show False
          by (auto simp: threads_ok_def)
      qed
      ultimately show "m = n \<and> c \<in> set (used_conn_list p) \<and> (\<forall>j m. j \<noteq> i \<longrightarrow> holding (callers t j) \<noteq> Some (m, c))"
        using got by simp
    qed
  next
    case (Connected n c req)
    then have h: "holding (callers t i) = Some (n, c)" by simp
    from holder_pool [OF ok h] obtain p where p: "node_obj (shd t) n = Some p" "world_ok (wld (shd t))" "pool_ok (wld (shd t)) p" .
    show ?thesis
      using hold_step_ok [OF ok h _ p(1) keeps_refl [OF p(2,3)], of wk] run Connected by (auto split: option.splits)
  next
    case (Counting n c req)
    then have h: "holding (callers t i) = Some (n, c)" by simp
    from holder_pool [OF ok h] obtain p where p: "node_obj (shd t) n = Some p" "world_ok (wld (shd t))" "pool_ok (wld (shd t)) p" .
    show ?thesis
      using hold_step_ok [OF ok h _ p(1) keeps_refl [OF p(2,3)], of wk] run Counting by auto
  next
    case (Counted n c req m)
    then have h: "holding (callers t i) = Some (n, c)" by simp
    from holder_pool [OF ok h] obtain p where p: "node_obj (shd t) n = Some p" "world_ok (wld (shd t))" "pool_ok (wld (shd t)) p" .
    have k: "keeps (wld (shd t)) p (snd (get_now_time (wld (shd t)))) p"
      using p by (auto simp: get_now_time_def intro: keeps_ticks)
    show ?thesis
      using hold_step_ok [OF ok h _ p(1) k, of wk] run Counted
        threads_ok_idents [where t = "t\<lparr>callers := (callers t)(i := wk), shd := (shd t)\<lparr>wld := snd (get_now_time (wld (shd t)))\<rparr>\<rparr>"]
      by (auto simp: next_identifier_def get_now_time_def Let_def split: option.splits)
  next
    case (Trying n c ident retry req res)
    then have h: "holding (callers t i) = Some (n, c)" by simp
    from holder_pool [OF ok h] obtain p where p: "node_obj (shd t) n = Some p" "world_ok (wld (shd t))" "pool_ok (wld (shd t)) p" .
    obtain x r where ex: "heap (wld (shd t)) c = Some x" "exchange (sock_fd x) ident req (wld (shd t)) = Some r"
      using run Trying by (auto split: option.splits)
    from exchange_keeps [OF ex(2) p(2,3)] obtain success res' w where r: "r = Inr (success, res', w)"
      and k: "keeps (wld (shd t)) p w p" using run Trying ex by auto
    have "holding wk = Some (n, c)" "sh = (shd t)\<lparr>wld := w\<rparr>" using run Trying ex r by (auto split: if_splits)
    with hold_step_ok [OF ok h _ p(1) k] show ?thesis by simp
  next
    case (Broken n c ident retry req res)
    then have h: "holding (callers t i) = Some (n, c)" by simp
    from holder_pool [OF ok h] obtain p where p: "node_obj (shd t) n = Some p" "world_ok (wld (shd t))" "pool_ok (wld (shd t)) p" "c \<in> conns p" .
    obtain x where x: "heap (wld (shd t)) c = Some x" using run Broken by (auto split: option.splits)
    obtain r x' w where re: "conn_reconnect x (wld (shd t)) = (r, x', w)" by (metis prod_cases3)
    have "holding wk = Some (n, c)" "sh = (shd t)\<lparr>wld := store_conn c x' w\<rparr>" using run Broken x re by auto
    with hold_step_ok [OF ok h _ p(1) reconnect_keeps [OF p(2-4) x re]] show ?thesis by simp
  next
    case (Finishing n c ret res)
    then have h: "holding (callers t i) = Some (n, c)" by simp
    from holder_pool [OF ok h] obtain q where q: "node_obj (shd t) n = Some q" "c \<in> set (used_conn_list q)"
      "world_ok (wld (shd t))" "pool_ok (wld (shd t)) q" "\<And>j m. j \<noteq> i \<Longrightarrow> holding (callers t j) \<noteq> Some (m, c)"
      by (rule holder_pool [OF ok h]) (rule that)
    from pool_release_keeps [OF q(3,4,2)] obtain p w where
      rel: "pool_release_connection q (Some c) True (wld (shd t)) = Inr (p, w)" "keeps (wld (shd t)) q w p"
      "used_conn_list p = remove1 c (used_conn_list q)" by blast
    have "d \<in> set (used_conn_list p)" if "j \<noteq> i" "holding (callers t j) = Some (n, d)" for j d
    proof -
      have "d \<noteq> c" using q(5) that by blast
      with holder_pool [OF ok that(2)] q(1) rel(3) show ?thesis by (metis in_set_remove1 option.inject)
    qed
    then have "threads_ok (t\<lparr>callers := (callers t)(i := wk), shd := set_node n p w (shd t)\<rparr>)" if "holding wk = None"
      using that by (intro pool_step_ok [OF ok q(1) rel(2)]) auto
    then show ?thesis using run Finishing q(1) rel(1) by (auto simp: node_at_Some split: option.splits)
  next
    case (Released n ret res)
    then obtain p where p: "node_obj (shd t) n = Some p" using run by (auto simp: node_at_Some split: option.splits)
    have k: "keeps (wld (shd t)) p (snd (get_now_time (wld (shd t)))) p"
      using pool_kept [OF _ p] ok by (auto simp: get_now_time_def threads_ok_def intro: keeps_ticks)
    have "d \<in> set (used_conn_list p)" if "holding (callers t j) = Some (n, d)" for j d
      using holder_pool [OF ok that] p by (metis option.inject)
    then have "threads_ok (t\<lparr>callers := (callers t)(i := wk), shd := set_node n p (snd (get_now_time (wld (shd t)))) (shd t)\<rparr>)"
      if "holding wk = None" using that by (intro pool_step_ok [OF ok p k]) auto
    then show ?thesis using run Released by (auto simp: set_node_same [OF p] Let_def get_now_time_def split: option.splits)
  qed (use run idle in \<open>auto split: option.splits if_splits\<close>)
qed

section \<open>Steps of the destroying threads, the checker and the registry\<close>

lemma pool_env_ok:
  assumes ok: "threads_ok t" and n: "node_obj (shd t) n = Some q" and k: "keeps (wld (shd t)) q w p"
    and others: "set (used_conn_list q) \<subseteq> set (used_conn_list p)"
  shows "threads_ok (t\<lparr>shd := set_node n p w (shd t)\<rparr>)"
proof -
  have "workers_ok (set_node n p w (shd t)) (callers t)"
    unfolding workers_ok_def
  proof (intro allI impI)
    fix i m c
    assume h: "holding (callers t i) = Some (m, c)"
    obtain p' where p': "node_obj (shd t) m = Some p'" "c \<in> set (used_conn_list p')"
      and only: "\<And>j m. j \<noteq> i \<Longrightarrow> holding (callers t j) \<noteq> Some (m, c)"
      by (rule holder_pool [OF ok h]) (rule that)
    have "\<exists>p'. node_obj (set_node n p w (shd t)) m = Some p' \<and> c \<in> set (used_conn_list p')"
      using n others p' by (cases "m = n") auto
    with only show "(\<exists>p'. node_obj (set_node n p w (shd t)) m = Some p' \<and> c \<in> set (used_conn_list p'))
      \<and> (\<forall>j m. j \<noteq> i \<longrightarrow> holding (callers t j) \<noteq> Some (m, c))" by blast
  qed
  moreover have "destroyers_ok (t\<lparr>shd := set_node n p w (shd t)\<rparr>)"
    using ok n by (auto simp: threads_ok_def destroyers_ok_def node_at_def split: if_splits)
  ultimately show ?thesis
    using ok set_node_ok [OF _ n k] registry_ok_set [OF n] by (simp add: threads_ok_def)
qed

lemma destroyers_apart:
  "threads_ok t \<Longrightarrow> destroyers t i = Some d \<Longrightarrow> destroyers t j = Some e \<Longrightarrow> doomed e = doomed d \<Longrightarrow> j = i"
  unfolding threads_ok_def destroyers_ok_def by blast

lemma destroyersD:
  "threads_ok t \<Longrightarrow> destroyers t i = Some d \<Longrightarrow> i < next_destroyer t
     \<and> node_at (shd t) (doomed d) \<noteq> None \<and> doomed d \<notin> snd ` set (node_tab (shd t))
     \<and> reg_node (registry t) \<noteq> Some (doomed d)"
  unfolding threads_ok_def destroyers_ok_def by blast

lemma destroyers_frame:
  assumes "threads_ok t" and "destroyers t' = destroyers t" and "next_destroyer t' = next_destroyer t"
    and "node_at (shd t') = node_at (shd t)" and "node_tab (shd t') = node_tab (shd t)"
    and "reg_node (registry t') = None"
  shows "destroyers_ok t'"
  using destroyersD [OF assms(1)] assms(2-) destroyers_apart [OF assms(1)]
  unfolding destroyers_ok_def by (simp, blast)

lemma destroyers_upd:
  assumes "threads_ok t" and "destroyers t i = Some d" and "d' = None \<or> (\<exists>e. d' = Some e \<and> doomed e = doomed d)"
  shows "threads_ok (t\<lparr>destroyers := (destroyers t)(i := d')\<rparr>)"
proof -
  have old: "\<exists>x. destroyers t j = Some x \<and> doomed x = doomed e" if "((destroyers t)(i := d')) j = Some e" for j e
    using that assms(2,3) by (auto split: if_splits)
  have "destroyers_ok (t\<lparr>destroyers := (destroyers t)(i := d')\<rparr>)"
    unfolding destroyers_ok_def
  proof (intro allI impI, goal_cases)
    case (1 j e)
    then obtain x where x: "destroyers t j = Some x" "doomed x = doomed e" using old [of j e] by auto
    have "k = j" if "destroyers (t\<lparr>destroyers := (destroyers t)(i := d')\<rparr>) k = Some z" "doomed z = doomed e" for k z
      using old [of k z] destroyers_apart [OF assms(1) x(1)] x(2) that by auto
    with destroyersD [OF assms(1) x(1)] x(2) show ?case by auto
  qed
  then show ?thesis using assms(1) by (simp add: threads_ok_def)
qed

lemma destroyer_keeps:
  assumes ok: "threads_ok t" and d: "destroyers t i = Some d"
  shows "\<exists>d' sh. destroyer_step d (shd t) = Inr (d', sh) \<and> threads_ok (t\<lparr>shd := sh, destroyers := (destroyers t)(i := d')\<rparr>)"
proof -
  from ok d obtain q where q: "node_obj (shd t) (doomed d) = Some q" "doomed d \<notin> node_freed (shd t)"
    "doomed d \<notin> snd ` set (node_tab (shd t))" "reg_node (registry t) \<noteq> Some (doomed d)"
    unfolding threads_ok_def destroyers_ok_def by (metis node_at_Some not_Some_eq)
  show ?thesis
  proof (cases d)
    case (Destroying n retry)
    have "world_ok (wld (shd t))" "pool_ok (wld (shd t)) q"
      using pool_kept [OF _ q(1)] ok by (auto simp: threads_ok_def)
    from pool_destroy_keeps [OF this] obtain r p w where
      dest: "pool_destroy q (wld (shd t)) = Inr (r, p, w)" "keeps (wld (shd t)) q w p"
      "set (used_conn_list q) \<subseteq> set (used_conn_list p)"
      using keeps_refl [OF \<open>world_ok _\<close> \<open>pool_ok _ _\<close>] by (auto split: if_splits)
    from pool_env_ok [OF ok q(1) dest(2,3)] have "threads_ok (t\<lparr>shd := set_node n p w (shd t)\<rparr>)"
      using Destroying by simp
    from destroyers_upd [OF this, of i d "Some (Destroying n (retry - 1))"] destroyers_upd [OF this, of i d "Some (Freeing n)"]
      destroyers_upd [OF ok d, of None]
    show ?thesis using d q dest Destroying by (simp add: node_at_def)
  next
    case (Freeing n)
    let ?sh = "(shd t)\<lparr>node_freed := insert n (node_freed (shd t))\<rparr>"
    have at: "node_at ?sh m = (if m = n then None else node_at (shd t) m)" for m by (simp add: node_at_def)
    have "tab_ok (node_tab (shd t)) (node_at ?sh)"
      by (rule tab_mono [of _ "node_at (shd t)"]) (use ok q Freeing at in \<open>auto simp: threads_ok_def shared_ok_def\<close>)
    then have "shared_ok ?sh"
      using ok q Freeing by (auto simp: threads_ok_def shared_ok_def allocated_def)
    moreover have "registry_ok ?sh (registry t)"
      using ok q(4) Freeing by (cases "registry t") (auto simp: threads_ok_def at)
    moreover have "destroyers_ok (t\<lparr>shd := ?sh, destroyers := (destroyers t)(i := None)\<rparr>)"
      using destroyersD [OF ok] destroyers_apart [OF ok d] destroyers_apart [OF ok] Freeing
      by (auto simp: destroyers_ok_def at)
    ultimately have "threads_ok (t\<lparr>shd := ?sh, destroyers := (destroyers t)(i := None)\<rparr>)"
      using ok by (simp add: threads_ok_def workers_ok_def)
    then show ?thesis using Freeing q by (simp add: node_at_def)
  qed
qed

lemma check_keeps:
  assumes ok: "threads_ok t" and n: "to_check t = n # ns"
  shows "\<exists>q. node_at (shd t) n = Some q \<and>
    ((\<exists>p w. pool_check q (wld (shd t)) = Inr (p, w) \<and> keeps (wld (shd t)) q w p
        \<and> threads_ok (t\<lparr>to_check := ns, shd := set_node n p w (shd t)\<rparr>))
     \<or> \<not> idle_secs_ok (max_idle_secs q) \<and> pool_check q (wld (shd t)) = Inl IntOverflow)"
proof -
  from ok n obtain q where q: "node_at (shd t) n = Some q"
    by (auto simp: threads_ok_def shared_ok_def tab_ok_def)
  then have obj: "node_obj (shd t) n = Some q" by (simp add: node_at_Some)
  have "world_ok (wld (shd t))" "pool_ok (wld (shd t)) q" using pool_kept [OF _ obj] ok by (simp_all add: threads_ok_def)
  from pool_check_cases [OF this] show ?thesis
  proof (elim disjE exE conjE)
    fix p w
    assume chk: "pool_check q (wld (shd t)) = Inr (p, w)" "keeps (wld (shd t)) q w p" "used_conn_list p = used_conn_list q"
    from pool_env_ok [OF ok obj chk(2)] chk(3) n have "threads_ok (t\<lparr>to_check := ns, shd := set_node n p w (shd t)\<rparr>)"
      by (simp add: threads_ok_def destroyers_ok_def)
    with q chk(1,2) show ?thesis by blast
  qed (use q in blast)
qed

lemma registry_idle_ok:
  "threads_ok t \<Longrightarrow> registry_ok (shd t) reg \<Longrightarrow> reg_node reg = None \<Longrightarrow> threads_ok (t\<lparr>registry := reg\<rparr>)"
  by (simp add: threads_ok_def destroyers_ok_def)

lemma new_node_ok:
  assumes ok: "threads_ok t" and reg: "registry t = NewNode r"
    and init: "pool_init host port to i mn mx idle (wld (shd t)) = (p, w)"
  shows "threads_ok (t\<lparr>registry := LinkNode r (next_obj (shd t)),
    shd := set_node (next_obj (shd t)) p w (shd t)\<lparr>next_obj := Suc (next_obj (shd t))\<rparr>\<rparr>)"
proof -
  let ?n = "next_obj (shd t)"
  let ?sh = "set_node ?n p w (shd t)\<lparr>next_obj := Suc ?n\<rparr>"
  have sh: "shared_ok (shd t)" using ok by (simp add: threads_ok_def)
  then have lt: "node_obj (shd t) m \<noteq> None \<Longrightarrow> m < ?n" "m \<in> node_freed (shd t) \<Longrightarrow> m < ?n" for m
    by (auto simp: shared_ok_def allocated_def)
  then have new: "node_obj (shd t) ?n = None" "?n \<notin> node_freed (shd t)" by blast+
  have tab: "?n \<notin> snd ` set (node_tab (shd t))"
    using sh new by (auto simp: shared_ok_def tab_ok_def node_at_def)
  have at: "node_at ?sh m = (if m = ?n then Some p else node_at (shd t) m)" for m
    using new by (simp add: node_at_def)
  have "slots_ok w ((node_obj (shd t))(?n \<mapsto> p))"
    using slots_new [of "wld (shd t)" "node_obj (shd t)", OF _ new(1) init] sh by (simp add: shared_ok_def)
  moreover have "tab_ok (node_tab (shd t)) (node_at ?sh)"
    by (rule tab_mono [of _ "node_at (shd t)"]) (use sh at in \<open>auto simp: shared_ok_def\<close>)
  moreover have "allocated ?sh" using sh by (auto simp: shared_ok_def allocated_def less_Suc_eq)
  ultimately have "shared_ok ?sh" using sh by (simp add: shared_ok_def)
  moreover have "workers_ok ?sh (callers t)"
    using ok new unfolding threads_ok_def workers_ok_def by (auto, metis option.distinct(1))
  moreover have "registry_ok ?sh (LinkNode r ?n)" using ok reg tab at by (simp add: threads_ok_def)
  moreover have "destroyers_ok (t\<lparr>registry := LinkNode r ?n, shd := ?sh\<rparr>)"
    using ok new at unfolding threads_ok_def destroyers_ok_def
    by (simp, metis node_at_def option.distinct(1))
  ultimately show ?thesis using ok by (simp add: threads_ok_def)
qed

lemma link_node_ok:
  assumes ok: "threads_ok t" and reg: "registry t = LinkNode r n" and "to_check t = []"
  shows "threads_ok (t\<lparr>registry := AddService r, shd := (shd t)\<lparr>node_tab := hash_add (route_node r) n (node_tab (shd t))\<rparr>\<rparr>)"
proof -
  let ?sh = "(shd t)\<lparr>node_tab := hash_add (route_node r) n (node_tab (shd t))\<rparr>"
  have at: "node_at ?sh = node_at (shd t)" by (simp add: node_at_def fun_eq_iff)
  have set: "snd ` set (node_tab ?sh) = insert n (snd ` set (node_tab (shd t)))" by (auto simp: hash_add_def)
  have "shared_ok ?sh"
    using ok reg at by (auto simp: threads_ok_def shared_ok_def allocated_def intro: tab_add)
  then show ?thesis
    using ok reg at set assms(3) by (auto simp: threads_ok_def workers_ok_def destroyers_ok_def)
qed

lemma unlink_node_ok:
  assumes ok: "threads_ok t" and reg: "registry t = UnlinkNode r n" and "to_check t = []"
  shows "\<exists>p. node_at (shd t) n = Some p"
    and "threads_ok (t\<lparr>registry := Destroyer n, shd := (shd t)\<lparr>node_tab := hash_del (route_node r) (node_tab (shd t))\<rparr>\<rparr>)"
proof -
  let ?sh = "(shd t)\<lparr>node_tab := hash_del (route_node r) (node_tab (shd t))\<rparr>"
  have tab: "tab_ok (node_tab (shd t)) (node_at (shd t))" "hash_find (node_tab (shd t)) (route_node r) = Some n"
    using ok reg by (auto simp: threads_ok_def shared_ok_def)
  show alive: "\<exists>p. node_at (shd t) n = Some p" by (rule tab_alive [OF tab])
  have at: "node_at ?sh = node_at (shd t)" by (simp add: node_at_def fun_eq_iff)
  have set: "distinct (map snd (node_tab ?sh))" "snd ` set (node_tab ?sh) = snd ` set (node_tab (shd t)) - {n}"
    using tab_del [OF tab] by simp_all
  then have "tab_ok (node_tab ?sh) (node_at ?sh)"
    using tab at hash_ok_del by (auto simp: tab_ok_def)
  then have "shared_ok ?sh" using ok by (auto simp: threads_ok_def shared_ok_def allocated_def)
  moreover have "doomed d \<noteq> n" if "destroyers t i = Some d" for i d
    using destroyersD [OF ok that] tab_find [OF tab(2)] by blast
  then have "destroyers_ok (t\<lparr>registry := Destroyer n, shd := ?sh\<rparr>)"
    using destroyersD [OF ok] destroyers_apart [OF ok] at set(2)
    by (simp add: destroyers_ok_def) blast
  ultimately show "threads_ok (t\<lparr>registry := Destroyer n, shd := ?sh\<rparr>)"
    using ok alive at set assms(3) by (simp add: threads_ok_def workers_ok_def)
qed

lemma start_destroyer_ok:
  assumes ok: "threads_ok t" and reg: "registry t = Destroyer n"
  shows "threads_ok (t\<lparr>registry := Quiet, shd := shd t, destroyers := (destroyers t)(next_destroyer t \<mapsto> Destroying n k),
    next_destroyer := Suc (next_destroyer t)\<rparr>)"
proof -
  have "destroyers_ok (t\<lparr>registry := Quiet, destroyers := (destroyers t)(next_destroyer t \<mapsto> Destroying n k),
      next_destroyer := Suc (next_destroyer t)\<rparr>)"
    using ok reg unfolding threads_ok_def destroyers_ok_def
    by (auto split: if_splits simp: less_Suc_eq)
  then show ?thesis using ok by (simp add: threads_ok_def)
qed

lemma find_key_total:
  "\<forall>p \<in> set ps. kstr p \<noteq> None \<Longrightarrow>
     \<exists>found. find_key kstr value ps i = Inr found \<and> (\<forall>k. found = Some k \<longrightarrow> i \<le> k \<and> k < i + length ps)"
proof (induction ps arbitrary: i)
  case (Cons p ps)
  then obtain k where "kstr p = Some k" by auto
  moreover from Cons obtain found where "find_key kstr value ps (Suc i) = Inr found"
    "\<forall>k. found = Some k \<longrightarrow> Suc i \<le> k \<and> k < Suc i + length ps" by fastforce
  ultimately show ?case by auto
qed simp

lemma key_used_total:
  assumes "arrays_alive (svc_obj sh) (key_str sh)"
  shows "\<forall>a \<in> set as. svc_obj sh a \<noteq> None \<Longrightarrow> \<exists>used. key_used sh value as = Inr used"
proof (induction "as")
  case (Cons a as)
  then obtain arr where a: "svc_obj sh a = Some arr" by auto
  then have "\<forall>p \<in> set (key_ptrs arr). key_str sh p \<noteq> None" using arrays_alive_str [OF assms a] by blast
  from find_key_total [OF this] obtain found where
    "find_key (key_str sh) value (key_ptrs arr) 0 = Inr found" by blast
  with Cons a show ?case by (cases found) auto
qed auto

text \<open>A change of the services and their keys leaves the nodes and the connections of the workers alone.\<close>

lemma services_step_ok:
  assumes ok: "threads_ok t" and reg: "reg_node reg = None"
    and "tab_ok tab obj" and "arrays_alive obj kstr" and "next_obj (shd t) \<le> nx"
    and new: "\<And>a. obj a \<noteq> None \<or> kstr a \<noteq> None \<Longrightarrow> a < nx"
    and "registry_ok ((shd t)\<lparr>key_str := kstr, next_obj := nx, svc_tab := tab, svc_obj := obj\<rparr>) reg"
  shows "threads_ok (t\<lparr>registry := reg, shd := (shd t)\<lparr>key_str := kstr, next_obj := nx, svc_tab := tab, svc_obj := obj\<rparr>\<rparr>)"
proof -
  let ?sh = "(shd t)\<lparr>key_str := kstr, next_obj := nx, svc_tab := tab, svc_obj := obj\<rparr>"
  have at: "node_at ?sh = node_at (shd t)" by (simp add: node_at_def fun_eq_iff)
  have "allocated ?sh"
    using ok new assms(5) unfolding threads_ok_def shared_ok_def allocated_def
    by (simp, meson order_less_le_trans)
  then have "shared_ok ?sh" using ok assms(3,4) at by (simp add: threads_ok_def shared_ok_def)
  moreover have "destroyers_ok (t\<lparr>registry := reg, shd := ?sh\<rparr>)"
    by (rule destroyers_frame [OF ok]) (use at reg in simp_all)
  ultimately show ?thesis using ok assms(7) by (simp add: threads_ok_def workers_ok_def)
qed

lemma services_known:
  assumes "threads_ok t"
  shows "tab_ok (svc_tab (shd t)) (svc_obj (shd t))" and "arrays_alive (svc_obj (shd t)) (key_str (shd t))"
    and "svc_obj (shd t) a \<noteq> None \<or> key_str (shd t) a \<noteq> None \<Longrightarrow> a < next_obj (shd t)"
  using assms by (auto simp: threads_ok_def shared_ok_def allocated_def)

lemma add_key_ok:
  assumes ok: "threads_ok t" and reg: "registry t = AddKey r a"
  shows "\<exists>sh. registry_step cfg (AddKey r a) (shd t) = Some (Inr (Quiet, sh)) \<and> threads_ok (t\<lparr>registry := Quiet, shd := sh\<rparr>)"
proof -
  note known = services_known [OF ok]
  have "hash_find (svc_tab (shd t)) (route_service r) = Some a" using ok reg by (simp add: threads_ok_def)
  then obtain arr where a: "svc_obj (shd t) a = Some arr" using tab_alive [OF known(1)] by blast
  have alive: "\<forall>p \<in> set (key_ptrs arr). key_str (shd t) p \<noteq> None" using arrays_alive_str [OF known(2) a] by blast
  from find_key_total [OF this] obtain found where
    found: "find_key (key_str (shd t)) (route_node r) (key_ptrs arr) 0 = Inr found" by blast
  show ?thesis
  proof (cases found)
    case (Some i)
    then show ?thesis using registry_idle_ok [OF ok, of Quiet] a found by simp
  next
    case None
    let ?p = "next_obj (shd t)"
    let ?arr = "arr\<lparr>key_ptrs := key_ptrs arr @ [?p]\<rparr>"
    let ?obj = "(svc_obj (shd t))(a \<mapsto> ?arr)" and ?kstr = "(key_str (shd t))(?p \<mapsto> route_node r)"
    have old: "?p \<notin> set (key_ptrs brr)" if "svc_obj (shd t) b = Some brr" for b brr
      using arrays_alive_str [OF known(2) that] known(3) [of ?p] by blast
    have "arrays_alive ?obj ?kstr"
      by (rule arrays_alive_upd [OF known(2)])
         (use arrays_alive_own [OF known(2) a] alive arrays_alive_distinct [OF known(2) a] old old [OF a] in fastforce)+
    moreover have "tab_ok (svc_tab (shd t)) ?obj" by (rule tab_mono [OF known(1)]) auto
    ultimately have "threads_ok (t\<lparr>registry := Quiet, shd := (shd t)\<lparr>key_str := ?kstr, next_obj := Suc ?p,
        svc_tab := svc_tab (shd t), svc_obj := ?obj\<rparr>\<rparr>)"
      using known(3) a by (intro services_step_ok [OF ok]) (auto simp: less_Suc_eq split: if_splits)
    then show ?thesis using a found None by (simp add: strdup_key_def)
  qed
qed

lemma new_service_ok:
  assumes ok: "threads_ok t" and reg: "registry t = NewService r"
  shows "\<exists>a sh. registry_step cfg (NewService r) (shd t) = Some (Inr (LinkService r a, sh))
    \<and> threads_ok (t\<lparr>registry := LinkService r a, shd := sh\<rparr>)"
proof -
  note known = services_known [OF ok]
  let ?a = "next_obj (shd t)"
  let ?arr = "\<lparr>key_ptrs = [Suc ?a], key_counter = 0\<rparr>"
  let ?obj = "(svc_obj (shd t))(?a \<mapsto> ?arr)" and ?kstr = "(key_str (shd t))(Suc ?a \<mapsto> route_node r)"
  have old: "Suc ?a \<notin> set (key_ptrs brr)" if "svc_obj (shd t) b = Some brr" for b brr
    using arrays_alive_str [OF known(2) that] known(3) [of "Suc ?a"] by auto
  have none: "svc_obj (shd t) ?a = None" using known(3) [of ?a] by blast
  have "arrays_alive ?obj ?kstr"
    by (rule arrays_alive_upd [OF known(2)]) (use old in auto)
  moreover have "tab_ok (svc_tab (shd t)) ?obj" by (rule tab_mono [OF known(1)]) auto
  moreover have "?a \<notin> snd ` set (svc_tab (shd t))" using known(1) none by (auto simp: tab_ok_def)
  ultimately have "threads_ok (t\<lparr>registry := LinkService r ?a, shd := (shd t)\<lparr>key_str := ?kstr, next_obj := Suc (Suc ?a),
      svc_tab := svc_tab (shd t), svc_obj := ?obj\<rparr>\<rparr>)"
    using known(3) ok reg by (intro services_step_ok [OF ok]) (auto simp: less_Suc_eq threads_ok_def)
  then show ?thesis by (simp add: strdup_key_def Let_def)
qed

lemma link_service_ok:
  assumes ok: "threads_ok t" and reg: "registry t = LinkService r a"
  shows "\<exists>sh. registry_step cfg (LinkService r a) (shd t) = Some (Inr (Quiet, sh))
    \<and> threads_ok (t\<lparr>registry := Quiet, shd := sh\<rparr>)"
proof -
  note known = services_known [OF ok]
  have "tab_ok (hash_add (route_service r) a (svc_tab (shd t))) (svc_obj (shd t))"
    using known(1) ok reg by (intro tab_add) (auto simp: threads_ok_def)
  from services_step_ok [OF ok _ this known(2) order_refl known(3), of Quiet] show ?thesis by simp
qed

lemma distinct_gap: "distinct (xs @ y # zs) \<Longrightarrow> distinct (xs @ zs) \<and> y \<notin> set (xs @ zs)"
  by auto

lemma del_key_ok:
  assumes ok: "threads_ok t" and reg: "registry t = DelKey r a"
  shows "\<exists>sh. registry_step cfg (DelKey r a) (shd t) = Some (Inr (CheckUsed r, sh))
    \<and> threads_ok (t\<lparr>registry := CheckUsed r, shd := sh\<rparr>)"
proof -
  note known = services_known [OF ok]
  have tab: "hash_find (svc_tab (shd t)) (route_service r) = Some a" using ok reg by (simp add: threads_ok_def)
  then obtain arr where a: "svc_obj (shd t) a = Some arr" using tab_alive [OF known(1)] by blast
  let ?ps = "key_ptrs arr"
  have alive: "\<forall>p \<in> set ?ps. key_str (shd t) p \<noteq> None" using arrays_alive_str [OF known(2) a] by blast
  from find_key_total [OF this] obtain found where
    found: "find_key (key_str (shd t)) (route_node r) ?ps 0 = Inr found" "\<forall>i. found = Some i \<longrightarrow> i < length ?ps" by fastforce
  define ptrs left where "ptrs = (case found of None \<Rightarrow> ?ps | Some i \<Rightarrow> take i ?ps @ drop (i + 1) ?ps)"
    and "left = (case found of None \<Rightarrow> key_str (shd t) | Some i \<Rightarrow> (key_str (shd t))(?ps ! i := None))"
  have dist: "distinct ?ps" by (rule arrays_alive_distinct [OF known(2) a])
  have ptrs: "distinct ptrs" "set ptrs \<subseteq> set ?ps" and gone: "\<And>i. found = Some i \<Longrightarrow> ?ps ! i \<in> set ?ps \<and> ?ps ! i \<notin> set ptrs"
  proof -
    have "distinct (take i ?ps @ drop (i + 1) ?ps) \<and> ?ps ! i \<notin> set (take i ?ps @ drop (i + 1) ?ps)" if "i < length ?ps" for i
    proof -
      have "distinct (take i ?ps @ ?ps ! i # drop (Suc i) ?ps)" using dist id_take_nth_drop [OF that] by simp
      from distinct_gap [OF this] show ?thesis by simp
    qed
    then show "distinct ptrs" "\<And>i. found = Some i \<Longrightarrow> ?ps ! i \<in> set ?ps \<and> ?ps ! i \<notin> set ptrs"
      using found(2) dist by (auto simp: ptrs_def split: option.split)
    show "set ptrs \<subseteq> set ?ps" by (auto simp: ptrs_def split: option.split dest: in_set_takeD in_set_dropD)
  qed
  have left: "left p \<noteq> None" if "key_str (shd t) p \<noteq> None" "\<And>i. found = Some i \<Longrightarrow> p \<noteq> ?ps ! i" for p
    using that by (auto simp: left_def split: option.split)
  have others: "left p \<noteq> None" if "b \<noteq> a" "svc_obj (shd t) b = Some brr" "p \<in> set (key_ptrs brr)" "key_str (shd t) p \<noteq> None" for b brr p
    using left [OF that(4)] arrays_alive_own [OF known(2) a that(1-3)] gone by metis
  have kept: "left p \<noteq> None \<Longrightarrow> key_str (shd t) p \<noteq> None" for p by (auto simp: left_def split: option.splits if_splits)
  have step: "registry_step cfg (DelKey r a) (shd t) = Some (Inr (CheckUsed r,
      if ptrs = [] then (shd t)\<lparr>key_str := left, svc_tab := hash_del (route_service r) (svc_tab (shd t)),
        svc_obj := (svc_obj (shd t))(a := None)\<rparr>
      else (shd t)\<lparr>key_str := left, svc_obj := (svc_obj (shd t))(a \<mapsto> arr\<lparr>key_ptrs := ptrs\<rparr>)\<rparr>))"
    using a found(1) by (cases found) (simp_all add: ptrs_def left_def)
  show ?thesis
  proof (cases "ptrs = []")
    case True
    let ?obj = "(svc_obj (shd t))(a := None)"
    have "tab_ok (hash_del (route_service r) (svc_tab (shd t))) ?obj"
      using tab_del [OF known(1) tab] known(1) by (auto simp: tab_ok_def hash_ok_del)
    moreover have "arrays_alive ?obj left"
      by (rule arrays_alive_del [OF known(2)]) (use others in blast)
    ultimately have "threads_ok (t\<lparr>registry := CheckUsed r, shd := (shd t)\<lparr>key_str := left, next_obj := next_obj (shd t),
        svc_tab := hash_del (route_service r) (svc_tab (shd t)), svc_obj := ?obj\<rparr>\<rparr>)"
      using known(3) kept by (intro services_step_ok [OF ok]) (auto split: if_splits)
    then show ?thesis using step True by simp
  next
    case False
    let ?obj = "(svc_obj (shd t))(a \<mapsto> arr\<lparr>key_ptrs := ptrs\<rparr>)"
    have "arrays_alive ?obj left"
    proof (rule arrays_alive_upd [OF known(2)])
      show "left p \<noteq> None" if "p \<in> set (key_ptrs (arr\<lparr>key_ptrs := ptrs\<rparr>))" for p
        using that left [of p] alive ptrs(2) gone by auto
    qed (use ptrs others arrays_alive_own [OF known(2) a] in auto)
    moreover have "tab_ok (svc_tab (shd t)) ?obj" by (rule tab_mono [OF known(1)]) auto
    ultimately have "threads_ok (t\<lparr>registry := CheckUsed r, shd := (shd t)\<lparr>key_str := left, next_obj := next_obj (shd t),
        svc_tab := svc_tab (shd t), svc_obj := ?obj\<rparr>\<rparr>)"
      using known(3) kept a by (intro services_step_ok [OF ok]) (auto split: if_splits)
    then show ?thesis using step False by simp
  qed
qed

lemma registry_keeps:
  assumes ok: "threads_ok t" and free: "changes_nodes (registry t) \<Longrightarrow> to_check t = []"
    and run: "registry_step cfg (registry t) (shd t) = Some x"
  shows "\<exists>reg sh. x = Inr (reg, sh) \<and> (if \<exists>n. registry t = Destroyer n then reg = Quiet \<and> sh = shd t
    else threads_ok (t\<lparr>registry := reg, shd := sh\<rparr>))"
proof (cases "registry t")
  case (AddNode r)
  with run registry_idle_ok [OF ok, of "NewNode r"] registry_idle_ok [OF ok, of "AddService r"]
  show ?thesis by (auto split: option.splits)
next
  case (NewNode r)
  obtain g s v h p where r: "r = (g, s, v, h, p)" by (metis prod_cases5)
  with run NewNode new_node_ok [OF ok NewNode] show ?thesis by (auto simp: Let_def split: prod.splits)
next
  case (LinkNode r n)
  with run link_node_ok [OF ok LinkNode] free show ?thesis by auto
next
  case (AddService r)
  with run registry_idle_ok [OF ok, of "NewService r"] registry_idle_ok [OF ok, of "AddKey r _"]
  show ?thesis by (auto split: option.splits)
next
  case (AddKey r a)
  with run add_key_ok [OF ok AddKey, of cfg] show ?thesis by auto
next
  case (NewService r)
  with run new_service_ok [OF ok NewService, of cfg] show ?thesis by auto
next
  case (LinkService r a)
  with run link_service_ok [OF ok LinkService, of cfg] show ?thesis by auto
next
  case (DelService r)
  with run registry_idle_ok [OF ok, of "CheckUsed r"] registry_idle_ok [OF ok, of "DelKey r _"]
  show ?thesis by (auto split: option.splits)
next
  case (DelKey r a)
  with run del_key_ok [OF ok DelKey, of cfg] show ?thesis by auto
next
  case (CheckUsed r)
  have "\<forall>a \<in> set (map snd (hash_iter (svc_tab (shd t)))). svc_obj (shd t) a \<noteq> None"
    using services_known(1) [OF ok] by (auto simp: tab_ok_def hash_iter_def)
  from key_used_total [OF services_known(2) [OF ok] this, of "route_node r"] obtain used where
    "key_used (shd t) (route_node r) (map snd (hash_iter (svc_tab (shd t)))) = Inr used" ..
  with run CheckUsed registry_idle_ok [OF ok, of "DelNode r"] registry_idle_ok [OF ok, of Quiet] show ?thesis
    by auto
next
  case (DelNode r)
  with run registry_idle_ok [OF ok, of Quiet] registry_idle_ok [OF ok, of "UnlinkNode r _"]
  show ?thesis by (auto split: option.splits)
next
  case (UnlinkNode r n)
  with run unlink_node_ok [OF ok UnlinkNode] free show ?thesis by auto
qed (use run in auto)

section \<open>Every interleaving\<close>

text \<open>A worker whose next access is to an object that was freed.\<close>

fun dangling :: "shared \<Rightarrow> worker \<Rightarrow> bool" where
  "dangling sh (HasService a req) = (svc_obj sh a = None)"
| "dangling sh (HasKeyPtr p req) = (key_str sh p = None)"
| "dangling sh (HasNode n req) = (node_at sh n = None)"
| "dangling sh (Refused n) = (node_at sh n = None)"
| "dangling sh (Connected n c req) = (node_at sh n = None)"
| "dangling sh (Finishing n c ret res) = (node_at sh n = None)"
| "dangling sh (Released n ret res) = (node_at sh n = None)"
| "dangling sh _ = False"

text \<open>A worker whose next \<open>FD_SET\<close> writes beyond its set, and a checker whose next product overflows.\<close>

fun overruns :: "shared \<Rightarrow> worker \<Rightarrow> bool" where
  "overruns sh (Trying n c ident retry req res) =
     (case heap (wld sh) c of None \<Rightarrow> False | Some x \<Rightarrow> FD_SETSIZE \<le> sock_fd x)"
| "overruns sh _ = False"

definition overflows :: "threads \<Rightarrow> bool" where
  "overflows t \<longleftrightarrow> (case to_check t of [] \<Rightarrow> False
     | n # ns \<Rightarrow> (case node_at (shd t) n of None \<Rightarrow> False | Some p \<Rightarrow> \<not> idle_secs_ok (max_idle_secs p)))"

lemma work_faults:
  assumes ok: "threads_ok t" and run: "call_step (callers t i) (shd t) = Some (Inl f)"
  shows "f = OutOfBounds \<and> (dangling (shd t) (callers t i) \<or> overruns (shd t) (callers t i))"
proof (cases "callers t i")
  case (HasNode n req)
  have "\<exists>r p w. pool_require_connection q (wld (shd t)) = Inr (r, p, w)" if "node_obj (shd t) n = Some q" for q
    using pool_require_keeps [of "wld (shd t)" q] pool_kept [OF _ that] ok by (fastforce simp: threads_ok_def)
  then show ?thesis using run HasNode by (auto simp: node_at_def split: option.splits sum.splits if_splits)
next
  case (Trying n c ident retry req res)
  then have "holding (callers t i) = Some (n, c)" by simp
  from holder_pool [OF ok this] obtain p where p: "world_ok (wld (shd t))" "pool_ok (wld (shd t)) p" "c \<in> conns p" .
  then obtain x where "heap (wld (shd t)) c = Some x" unfolding pool_ok_def by blast
  with run Trying exchange_keeps [OF _ p(1,2), of "sock_fd x" ident req] show ?thesis
    by (auto simp: selectable_def split: option.splits sum.splits)
next
  case (Broken n c ident retry req res)
  then have "holding (callers t i) = Some (n, c)" by simp
  from holder_pool [OF ok this] obtain p where p: "pool_ok (wld (shd t)) p" "c \<in> conns p" .
  then obtain x where "heap (wld (shd t)) c = Some x" unfolding pool_ok_def by blast
  with run Broken show ?thesis by (auto split: prod.splits)
next
  case (Finishing n c ret res)
  then have h: "holding (callers t i) = Some (n, c)" by simp
  from holder_pool [OF ok h] obtain q where q: "node_obj (shd t) n = Some q" "c \<in> set (used_conn_list q)"
    "world_ok (wld (shd t))" "pool_ok (wld (shd t)) q" .
  from pool_release_keeps [OF q(3,4,2)] obtain p w where
    "pool_release_connection q (Some c) True (wld (shd t)) = Inr (p, w)" by blast
  with q(1) run Finishing show ?thesis
    by (auto simp: node_at_def split: option.splits sum.splits if_splits)
qed (use run in \<open>auto split: option.splits if_splits simp: Let_def get_now_time_def next_identifier_def\<close>)

text \<open>One event: the steps that can fault, and how; otherwise the invariant is kept.\<close>

definition step_faults :: "event \<Rightarrow> threads \<Rightarrow> fault \<Rightarrow> bool" where
  "step_faults e t f \<longleftrightarrow>
     (f = OutOfBounds \<and> (\<exists>i. e = Work i \<and> (dangling (shd t) (callers t i) \<or> overruns (shd t) (callers t i))))
     \<or> (f = IntOverflow \<and> e = Check \<and> overflows t)"

lemma threads_step_keeps:
  assumes ok: "threads_ok t" and run: "threads_step cfg e t = Some x"
  shows "case x of Inr t' \<Rightarrow> threads_ok t'
    | Inl f \<Rightarrow> step_faults e t f"
proof (cases e)
  case (Call i g s v req)
  have "threads_ok (t\<lparr>callers := (callers t)(i := Called g s v req)\<rparr>)"
    using ok workers_ok_idle by (auto simp: threads_ok_def destroyers_ok_def)
  then show ?thesis using run Call by (auto split: worker.splits)
next
  case (Work i)
  with run work_keeps [OF ok, of i] work_faults [OF ok, of i] show ?thesis
    by (auto simp: step_faults_def split: if_splits option.splits sum.splits)
next
  case (Add r)
  with run registry_idle_ok [OF ok, of "AddNode r"] show ?thesis by (auto split: if_splits)
next
  case (Delete r)
  with run registry_idle_ok [OF ok, of "DelService r"] show ?thesis by (auto split: if_splits)
next
  case Change
  then have free: "changes_nodes (registry t) \<Longrightarrow> to_check t = []" using run by (auto split: if_splits)
  obtain y where y: "registry_step cfg (registry t) (shd t) = Some y"
    using run Change by (auto split: if_splits option.splits)
  from registry_keeps [OF ok free y] obtain reg sh where step: "y = Inr (reg, sh)"
    "if \<exists>n. registry t = Destroyer n then reg = Quiet \<and> sh = shd t
     else threads_ok (t\<lparr>registry := reg, shd := sh\<rparr>)" by blast
  then show ?thesis
    using run Change y start_destroyer_ok [OF ok]
    by (cases "registry t") (auto simp: Let_def split: if_splits)
next
  case (Destroy i)
  then obtain d where d: "destroyers t i = Some d" using run by (auto split: option.splits)
  from destroyer_keeps [OF ok this] Destroy run d show ?thesis by auto
next
  case Check
  show ?thesis
  proof (cases "to_check t")
    case Nil
    have "threads_ok (t\<lparr>to_check := map snd (hash_iter (node_tab (shd t)))\<rparr>)"
      using ok by (simp add: threads_ok_def destroyers_ok_def hash_iter_def)
    then show ?thesis using run Check Nil by auto
  next
    case (Cons n ns)
    from check_keeps [OF ok this] run Check Cons show ?thesis by (auto simp: step_faults_def overflows_def)
  qed
qed

text \<open>
  The limits of theory Resource\_Mgt for the shared objects, which every step keeps when the
  configured idle time is small enough.
\<close>

definition in_bounds :: "shared \<Rightarrow> bool" where
  "in_bounds sh \<longleftrightarrow> fds_fit (wld sh) \<and> (\<forall>n p. node_obj sh n = Some p \<longrightarrow> idle_secs_ok (max_idle_secs p))"

lemma in_bounds_wld: "in_bounds sh \<Longrightarrow> keeps (wld sh) q w p \<Longrightarrow> in_bounds (sh\<lparr>wld := w\<rparr>)"
  by (auto simp: in_bounds_def intro: keeps_fds_fit)

lemma in_bounds_set:
  "in_bounds sh \<Longrightarrow> node_obj sh n = Some q \<Longrightarrow> keeps (wld sh) q w p \<Longrightarrow> in_bounds (set_node n p w sh)"
  by (auto simp: in_bounds_def keeps_def same_target_def only_touches_def fds_fit_def)

lemma in_bounds_same: "in_bounds sh \<Longrightarrow> wld sh' = wld sh \<Longrightarrow> node_obj sh' = node_obj sh \<Longrightarrow> in_bounds sh'"
  by (simp add: in_bounds_def)

lemma work_bounds:
  assumes ok: "threads_ok t" and run: "call_step (callers t i) (shd t) = Some (Inr (wk, sh))" and b: "in_bounds (shd t)"
  shows "in_bounds sh"
proof -
  have inv: "world_ok (wld (shd t)) \<and> pool_ok (wld (shd t)) q" if "node_obj (shd t) n = Some q" for n q
    using pool_kept [OF _ that] ok by (simp add: threads_ok_def)
  show ?thesis
  proof (cases "callers t i")
    case (HasNode n req)
    then obtain q where q: "node_obj (shd t) n = Some q" using run by (auto simp: node_at_Some split: option.splits)
    from pool_require_keeps [of "wld (shd t)" q] inv [OF q] obtain r p w where
      req: "pool_require_connection q (wld (shd t)) = Inr (r, p, w)" "keeps (wld (shd t)) q w p" by blast
    with run HasNode q in_bounds_set [OF b q req(2)] show ?thesis
      by (auto simp: node_at_Some split: option.splits)
  next
    case (Counted n c req m)
    with run b show ?thesis
      by (auto simp: in_bounds_def get_now_time_def next_identifier_def fds_fit_def fds_ok_def)
  next
    case (Trying n c ident retry req res)
    then have h: "holding (callers t i) = Some (n, c)" by simp
    from holder_pool [OF ok h] obtain p where p: "world_ok (wld (shd t))" "pool_ok (wld (shd t)) p" .
    obtain x r where ex: "heap (wld (shd t)) c = Some x" "exchange (sock_fd x) ident req (wld (shd t)) = Some r"
      using run Trying by (auto split: option.splits)
    from exchange_keeps [OF ex(2) p] run Trying ex in_bounds_wld [OF b] show ?thesis by auto
  next
    case (Broken n c ident retry req res)
    then have h: "holding (callers t i) = Some (n, c)" by simp
    from holder_pool [OF ok h] obtain p where p: "world_ok (wld (shd t))" "pool_ok (wld (shd t)) p" "c \<in> conns p" .
    obtain x where x: "heap (wld (shd t)) c = Some x" using run Broken by (auto split: option.splits)
    obtain r x' w where re: "conn_reconnect x (wld (shd t)) = (r, x', w)" by (metis prod_cases3)
    from run Broken x re in_bounds_wld [OF b reconnect_keeps [OF p x re]] show ?thesis by simp
  next
    case (Finishing n c ret res)
    then have h: "holding (callers t i) = Some (n, c)" by simp
    from holder_pool [OF ok h] obtain q where q: "node_obj (shd t) n = Some q" "c \<in> set (used_conn_list q)"
      "world_ok (wld (shd t))" "pool_ok (wld (shd t)) q" .
    from pool_release_keeps [OF q(3,4,2)] obtain p w where
      rel: "pool_release_connection q (Some c) True (wld (shd t)) = Inr (p, w)" "keeps (wld (shd t)) q w p" by blast
    with run Finishing q(1) in_bounds_set [OF b q(1) rel(2)] show ?thesis
      by (auto simp: node_at_Some split: option.splits)
  next
    case (Released n ret res)
    with run b show ?thesis
      by (auto simp: in_bounds_def get_now_time_def fds_fit_def fds_ok_def Let_def split: option.splits)
  qed (use run in_bounds_same [OF b] in \<open>auto split: option.splits if_splits\<close>)
qed

lemma registry_bounds:
  assumes ok: "threads_ok t" and run: "registry_step cfg (registry t) (shd t) = Some (Inr (reg, sh))"
    and b: "in_bounds (shd t)" and cfg: "cfg_idle_ok cfg"
  shows "in_bounds sh"
proof (cases "registry t")
  case (NewNode r)
  obtain g s v h p where r: "r = (g, s, v, h, p)" by (metis prod_cases5)
  obtain pool w where init: "pool_init h p (cfg ''pool:timeout_secs'' 3) (cfg ''pool:init_conn_num'' 1)
      (cfg ''pool:min_conn_num'' 1) (cfg ''pool:max_conn_num'' 6) (cfg ''pool:max_idle_secs'' 60) (wld (shd t))
      = (pool, w)" by (metis surj_pair)
  have "world_ok (wld (shd t))" using ok by (simp add: threads_ok_def shared_ok_def slots_ok_def)
  from pool_init_keeps [OF this init] have "max_idle_secs pool = cfg ''pool:max_idle_secs'' 60"
    "fds_fit (wld (shd t)) \<Longrightarrow> fds_fit w" by (auto simp: fds_fit_def)
  with run NewNode r init b cfg show ?thesis by (auto simp: in_bounds_def Let_def split: if_splits)
qed (use run in_bounds_same [OF b] in \<open>auto simp: Let_def strdup_key_def split: option.splits sum.splits prod.splits if_splits\<close>)

lemma destroyer_bounds:
  assumes ok: "threads_ok t" and run: "destroyer_step d (shd t) = Inr (d', sh)" and b: "in_bounds (shd t)"
  shows "in_bounds sh"
proof (cases d)
  case (Destroying n retry)
  show ?thesis
  proof (cases "retry = 0")
    case False
    then obtain q where q: "node_obj (shd t) n = Some q" using run Destroying by (auto simp: node_at_Some split: option.splits)
    have inv: "world_ok (wld (shd t))" "pool_ok (wld (shd t)) q" using pool_kept [OF _ q] ok by (simp_all add: threads_ok_def)
    from pool_destroy_keeps [OF inv] obtain r p w where
      dest: "pool_destroy q (wld (shd t)) = Inr (r, p, w)" "keeps (wld (shd t)) q w p"
      using keeps_refl [OF inv] by (auto split: if_splits)
    with run Destroying False q in_bounds_set [OF b q dest(2)] show ?thesis
      by (auto simp: node_at_Some split: option.splits)
  qed (use run Destroying b in simp)
next
  case (Freeing n)
  with run in_bounds_same [OF b] show ?thesis by (auto split: option.splits)
qed

lemma threads_step_bounds:
  assumes ok: "threads_ok t" and run: "threads_step cfg e t = Some (Inr t')" and b: "in_bounds (shd t)" and cfg: "cfg_idle_ok cfg"
  shows "in_bounds (shd t')"
proof (cases e)
  case (Call i g s v req)
  with run b show ?thesis by (auto split: worker.splits)
next
  case (Work i)
  with run work_bounds [OF ok _ b, of i] show ?thesis by (auto split: if_splits option.splits sum.splits)
next
  case Change
  obtain reg sh where y: "registry_step cfg (registry t) (shd t) = Some (Inr (reg, sh))"
    using run Change by (auto split: if_splits option.splits sum.splits)
  then have "shd t' = sh" using run Change by (cases "registry t") (auto simp: Let_def split: if_splits)
  with registry_bounds [OF ok y b cfg] show ?thesis by simp
next
  case (Destroy i)
  with run destroyer_bounds [OF ok _ b] show ?thesis by (auto split: option.splits sum.splits)
next
  case Check
  show ?thesis
  proof (cases "to_check t")
    case (Cons n ns)
    from check_keeps [OF ok Cons] run Check Cons obtain q p w where
      q: "node_at (shd t) n = Some q" "pool_check q (wld (shd t)) = Inr (p, w)" "keeps (wld (shd t)) q w p"
      by (fastforce split: option.splits sum.splits)
    then have "node_obj (shd t) n = Some q" by (simp add: node_at_Some)
    from in_bounds_set [OF b this q(3)] run Check Cons q show ?thesis by auto
  qed (use run Check b in auto)
qed (use run b in \<open>auto split: if_splits\<close>)

text \<open>In bounds nothing overruns and nothing overflows.\<close>

lemma in_bounds_faults:
  assumes "in_bounds (shd t)"
  shows "\<not> overruns (shd t) (callers t i)" and "\<not> overflows t"
proof -
  have "sock_fd x < FD_SETSIZE" if "heap (wld (shd t)) c = Some x" for c x
    using assms that unfolding in_bounds_def fds_fit_def fds_ok_def by (meson less_le_trans)
  then show "\<not> overruns (shd t) (callers t i)"
    by (cases "callers t i") (auto split: option.split simp: not_le)
  show "\<not> overflows t"
    using assms by (auto simp: overflows_def in_bounds_def node_at_Some split: list.split option.split)
qed

lemma threads_run_keeps:
  "threads_run cfg es t = Some (Inr t') \<Longrightarrow> threads_ok t \<Longrightarrow> threads_ok t'"
proof (induction es arbitrary: t)
  case (Cons e es)
  then show ?case
    using threads_step_keeps [of t cfg e] by (auto split: option.splits sum.splits if_splits)
qed simp

end
