(* ===== verification/Threads_Safety.thy ===== *)
theory Threads_Safety
  imports Threads_Invariant
begin

text \<open>
  What the threads of theory Invoke\_Threads are safe from: within the limits of the system and
  without removals nothing faults; a connection that was properly taken stays with its worker; and
  how a removal frees what \<open>invoke_service\<close> is about to use.
\<close>

section \<open>Without removals\<close>

text \<open>
  Until something is removed, every pointer of a worker is good and nothing is being freed; and the
  limits of theory Threads\_Invariant hold.
\<close>

fun removes :: "registry \<Rightarrow> bool" where
  "removes (DelService r) = True"
| "removes (DelKey r a) = True"
| "removes (CheckUsed r) = True"
| "removes (DelNode r) = True"
| "removes (UnlinkNode r n) = True"
| "removes (Destroyer n) = True"
| "removes _ = False"

definition adding :: "threads \<Rightarrow> bool" where
  "adding t \<longleftrightarrow> \<not> removes (registry t) \<and> (\<forall>i. destroyers t i = None) \<and> node_freed (shd t) = {}
     \<and> (\<forall>i. \<not> dangling (shd t) (callers t i)) \<and> in_bounds (shd t)"

lemma dangling_mono:
  assumes "\<not> dangling sh wk" and "\<And>n. node_at sh n \<noteq> None \<Longrightarrow> node_at sh' n \<noteq> None"
    and "\<And>a. svc_obj sh a \<noteq> None \<Longrightarrow> svc_obj sh' a \<noteq> None" and "\<And>p. key_str sh p \<noteq> None \<Longrightarrow> key_str sh' p \<noteq> None"
  shows "\<not> dangling sh' wk"
  using assms by (cases wk) auto

text \<open>What the sections of a worker and of an addition do to the objects: they only add.\<close>

definition only_adds :: "shared \<Rightarrow> shared \<Rightarrow> bool" where
  "only_adds sh sh' \<longleftrightarrow> node_freed sh' = node_freed sh \<and> (\<forall>n. node_obj sh n \<noteq> None \<longrightarrow> node_obj sh' n \<noteq> None)
     \<and> (\<forall>a. svc_obj sh a \<noteq> None \<longrightarrow> svc_obj sh' a \<noteq> None) \<and> (\<forall>p. key_str sh p \<noteq> None \<longrightarrow> key_str sh' p \<noteq> None)"

lemma only_adds_refl [simp]: "only_adds sh sh"
  and only_adds_set [simp]: "only_adds sh (set_node n p w sh)"
  by (simp_all add: only_adds_def)

lemma dangling_adds:
  assumes "\<not> dangling sh wk" and "only_adds sh sh'"
  shows "\<not> dangling sh' wk"
proof (rule dangling_mono [OF assms(1)])
  show "node_at sh n \<noteq> None \<Longrightarrow> node_at sh' n \<noteq> None" for n
    using assms(2) unfolding only_adds_def node_at_def by metis
qed (use assms(2) in \<open>unfold only_adds_def, blast+\<close>)

lemma worker_only_adds: "call_step wk sh = Some (Inr (wk', sh')) \<Longrightarrow> only_adds sh sh'"
  by (cases wk) (auto simp: only_adds_def get_now_time_def next_identifier_def Let_def
      split: option.splits sum.splits prod.splits if_splits)

lemma worker_pointers:
  assumes ok: "threads_ok t" and run: "call_step (callers t i) (shd t) = Some (Inr (wk, sh))" and "node_freed (shd t) = {}"
    and good: "\<not> dangling (shd t) (callers t i)"
  shows "\<not> dangling sh wk"
proof -
  have tabs: "tab_ok (svc_tab (shd t)) (svc_obj (shd t))" "tab_ok (node_tab (shd t)) (node_at (shd t))"
    and alive: "arrays_alive (svc_obj (shd t)) (key_str (shd t))"
    using ok by (simp_all add: threads_ok_def shared_ok_def)
  have hold: "node_at (shd t) n \<noteq> None" if "holding (callers t i) = Some (n, c)" for n c
    using holder_pool [OF ok that] assms(3) by (metis node_at_Some empty_iff option.distinct(1))
  show ?thesis
  proof (cases "callers t i")
    case (Called g s v req)
    with run show ?thesis by (auto split: option.splits dest!: tab_alive [OF tabs(1)])
  next
    case (HasService a req)
    with run obtain arr where arr: "svc_obj (shd t) a = Some arr" by (auto split: option.splits)
    have "\<exists>k. key_str (shd t) (key_ptrs arr ! (unat (key_counter arr) mod length (key_ptrs arr))) = Some k"
      if "key_ptrs arr \<noteq> []" using that by (intro arrays_alive_str [OF alive arr]) simp
    with run HasService arr show ?thesis by (auto split: if_splits)
  next
    case (HasKey k req)
    with run show ?thesis by (auto split: option.splits dest!: tab_alive [OF tabs(2)])
  next
    case (HasNode n req)
    with run assms(3) show ?thesis by (auto split: option.splits sum.splits)
  next
    case (Trying n c ident retry req res)
    with run hold [of n c] show ?thesis
      by (auto simp: node_at_def split: option.splits sum.splits if_splits)
  next
    case (Finishing n c ret res)
    with run assms(3) show ?thesis by (auto split: option.splits sum.splits)
  qed (use run in \<open>auto split: option.splits if_splits prod.splits simp: Let_def get_now_time_def next_identifier_def\<close>)
qed

lemma adding_step:
  assumes ok: "threads_ok t" and add: "adding t" and run: "threads_step cfg e t = Some x" and "\<And>r. e \<noteq> Delete r"
    and cfg: "cfg_idle_ok cfg"
  shows "\<exists>t'. x = Inr t' \<and> adding t'"
proof -
  have b: "in_bounds (shd t)" using add by (simp add: adding_def)
  have bounds: "in_bounds (shd t')" if "x = Inr t'" for t' using threads_step_bounds [OF ok run [unfolded that] b cfg] .
  have none: "node_freed (shd t) = {}" "\<And>i. destroyers t i = None" "\<not> removes (registry t)"
    "\<And>i. \<not> dangling (shd t) (callers t i)" using add by (simp_all add: adding_def)
  have keep: "\<not> dangling sh (callers t i)" if "only_adds (shd t) sh" for sh i
    by (rule dangling_adds [OF none(4) that])
  show ?thesis
  proof (cases e)
    case (Call i g s v req)
    with run add show ?thesis by (auto simp: adding_def split: worker.splits)
  next
    case (Work i)
    with run obtain wk sh where step: "call_step (callers t i) (shd t) = Some (Inr (wk, sh))"
      "x = Inr (t\<lparr>callers := (callers t)(i := wk), shd := sh\<rparr>)"
      using work_faults [OF ok, of i] none(4) in_bounds_faults(1) [OF b, of i] by (auto split: if_splits option.splits sum.splits)
    from worker_pointers [OF ok step(1) none(1,4)] keep [OF worker_only_adds [OF step(1)]]
      worker_only_adds [OF step(1)] step(2) none bounds run show ?thesis by (simp add: adding_def only_adds_def)
  next
    case (Add r)
    with run add show ?thesis by (auto simp: adding_def split: if_splits)
  next
    case Change
    then have free: "changes_nodes (registry t) \<Longrightarrow> to_check t = []" using run by (auto split: if_splits)
    obtain y where y: "registry_step cfg (registry t) (shd t) = Some y"
      using run Change by (auto split: if_splits option.splits)
    from registry_keeps [OF ok free y] obtain reg sh where step: "y = Inr (reg, sh)" by blast
    have "only_adds (shd t) sh \<and> \<not> removes reg"
    proof (cases "registry t")
      case (NewNode r)
      obtain g s v h p where "r = (g, s, v, h, p)" by (metis prod_cases5)
      with y step NewNode show ?thesis by (auto simp: only_adds_def Let_def split: prod.splits)
    next
      case (NewService r)
      with y step show ?thesis by (auto simp: only_adds_def Let_def strdup_key_def)
    qed (use y step none(3) in \<open>auto simp: only_adds_def strdup_key_def split: option.splits sum.splits\<close>)
    with keep [of sh] run Change y step none bounds show ?thesis
      by (cases "registry t") (auto simp: adding_def only_adds_def Let_def split: if_splits)
  next
    case (Destroy i)
    with run none(2) show ?thesis by simp
  next
    case Check
    from threads_step_keeps [OF ok run] Check in_bounds_faults(2) [OF b] obtain t' where t': "x = Inr t'"
      by (cases x) (auto simp: step_faults_def)
    then have "only_adds (shd t) (shd t') \<and> callers t' = callers t \<and> registry t' = registry t \<and> destroyers t' = destroyers t"
      using run Check by (auto split: list.splits option.splits sum.splits)
    then show ?thesis using t' keep [of "shd t'"] none bounds run by (auto simp: adding_def only_adds_def)
  qed (use assms(4) in blast)
qed

lemma adding_run:
  "threads_run cfg es t = Some x \<Longrightarrow> threads_ok t \<Longrightarrow> adding t \<Longrightarrow> (\<And>r. Delete r \<notin> set es) \<Longrightarrow> cfg_idle_ok cfg \<Longrightarrow>
     \<exists>t'. x = Inr t' \<and> threads_ok t' \<and> adding t'"
proof (induction es arbitrary: t)
  case (Cons e es)
  obtain y where y: "threads_step cfg e t = Some y" using Cons.prems(1) by (auto split: option.splits)
  from adding_step [OF Cons.prems(2,3) y] Cons.prems(4,5) obtain t' where t': "y = Inr t'" "adding t'"
    by (metis list.set_intros(1))
  moreover have "threads_ok t'" using threads_step_keeps [OF Cons.prems(2) y] t' by simp
  moreover have "threads_run cfg es t' = Some x" using Cons.prems(1) y t' by simp
  ultimately show ?case using Cons.IH Cons.prems(4,5) by (metis list.set_intros(2))
qed auto

section \<open>A connection that was properly taken\<close>

text \<open>A worker holds a connection of a node that no destroying thread is about to free.\<close>

definition secure :: "threads \<Rightarrow> nat \<Rightarrow> addr \<Rightarrow> addr \<Rightarrow> bool" where
  "secure t i n c \<longleftrightarrow> holding (callers t i) = Some (n, c) \<and> node_at (shd t) n \<noteq> None
     \<and> (\<forall>j. destroyers t j \<noteq> Some (Freeing n))"

text \<open>The worker's own step when it ends the hold.\<close>

definition lets_go :: "threads \<Rightarrow> nat \<Rightarrow> threads \<Rightarrow> addr \<Rightarrow> addr \<Rightarrow> bool" where
  "lets_go t i t' n c \<longleftrightarrow> (\<exists>ret res p. callers t i = Finishing n c ret res \<and> callers t' i = Released n ret res
     \<and> node_at (shd t') n = Some p \<and> c \<in> set (unused_conn_list p))"

lemma worker_holds_on:
  assumes "call_step wk sh = Some (Inr (wk', sh'))" and "holding wk = Some (n, c)"
  shows "holding wk' = Some (n, c) \<or> (\<exists>ret res. wk = Finishing n c ret res \<and> wk' = Released n ret res)"
  using assms by (cases wk) (auto simp: get_now_time_def next_identifier_def Let_def
      split: option.splits sum.splits prod.splits if_splits)

lemma secure_kept:
  assumes "secure t i n c" and "holding (callers t' i) = Some (n, c)" and "node_freed (shd t') = node_freed (shd t)"
    and "\<And>m. node_obj (shd t) m \<noteq> None \<Longrightarrow> node_obj (shd t') m \<noteq> None"
    and "\<And>j. destroyers t' j = Some (Freeing n) \<Longrightarrow> destroyers t j = Some (Freeing n)"
  shows "secure t' i n c"
  using assms unfolding secure_def node_at_def by metis

lemma registry_nodes:
  assumes "registry_step cfg reg sh = Some (Inr (reg', sh'))"
  shows "node_freed sh' = node_freed sh \<and> (node_obj sh m \<noteq> None \<longrightarrow> node_obj sh' m \<noteq> None)"
proof (cases reg)
  case (NewNode r)
  obtain g s v h p where "r = (g, s, v, h, p)" by (metis prod_cases5)
  with assms NewNode show ?thesis by (auto simp: Let_def split: prod.splits)
qed (use assms in \<open>auto simp: Let_def strdup_key_def split: option.splits sum.splits prod.splits if_splits\<close>)

lemma secure_release:
  assumes ok: "threads_ok t" and fin: "callers t i = Finishing n c ret res" and sec: "secure t i n c"
    and run: "threads_step cfg (Work i) t = Some (Inr t')"
  shows "lets_go t i t' n c"
proof -
  have h: "holding (callers t i) = Some (n, c)" using fin by simp
  from holder_pool [OF ok h] obtain q where q: "node_obj (shd t) n = Some q" "c \<in> set (used_conn_list q)"
    "world_ok (wld (shd t))" "pool_ok (wld (shd t)) q" .
  from pool_release_keeps [OF q(3,4,2)] obtain p w where
    "pool_release_connection q (Some c) True (wld (shd t)) = Inr (p, w)" "unused_conn_list p = unused_conn_list q @ [c]" by blast
  moreover have "n \<notin> node_freed (shd t)" using sec by (auto simp: secure_def node_at_def)
  ultimately show ?thesis using run fin q(1) by (auto simp: lets_go_def node_at_def)
qed

lemma secure_step:
  assumes ok: "threads_ok t" and sec: "secure t i n c" and run: "threads_step cfg e t = Some (Inr t')"
  shows "secure t' i n c \<or> e = Work i \<and> lets_go t i t' n c"
proof -
  have h: "holding (callers t i) = Some (n, c)" using sec by (simp add: secure_def)
  show ?thesis
  proof (cases e)
    case (Call j g s v req)
    with run h show ?thesis by (intro disjI1 secure_kept [OF sec]) (auto split: worker.splits)
  next
    case (Work j)
    with run obtain wk sh where step: "call_step (callers t j) (shd t) = Some (Inr (wk, sh))"
      "t' = t\<lparr>callers := (callers t)(j := wk), shd := sh\<rparr>" by (auto split: if_splits option.splits sum.splits)
    show ?thesis
    proof (cases "j = i \<and> holding wk \<noteq> Some (n, c)")
      case True
      then obtain ret res where "callers t i = Finishing n c ret res" using worker_holds_on [of "callers t i"] step(1) h by metis
      with secure_release [OF ok _ sec] run Work True show ?thesis by blast
    next
      case False
      then have "secure t' i n c"
        using h step(2) worker_only_adds [OF step(1)] unfolding only_adds_def
        by (intro secure_kept [OF sec]) auto
      then show ?thesis ..
    qed
  next
    case Change
    with run obtain reg sh where step: "registry_step cfg (registry t) (shd t) = Some (Inr (reg, sh))"
      by (auto split: if_splits option.splits sum.splits)
    have "callers t' = callers t \<and> shd t' = sh \<and> (\<forall>j. destroyers t' j = Some (Freeing n) \<longrightarrow> destroyers t j = Some (Freeing n))"
      using run Change step by (cases "registry t") (auto simp: Let_def split: if_splits)
    then show ?thesis using h registry_nodes [OF step] by (intro disjI1 secure_kept [OF sec]) auto
  next
    case (Destroy j)
    then obtain d where d: "destroyers t j = Some d" using run by (auto split: option.splits)
    from holder_pool [OF ok h] obtain q where q: "node_obj (shd t) n = Some q" "c \<in> set (used_conn_list q)" .
    then have "pool_destroy q (wld (shd t)) = Inr (-1, q, wld (shd t))"
      by (auto simp: pool_destroy_def pool_get_used_conn_num_def)
    then have "secure t' i n c"
      using run Destroy d q h sec
      by (cases d) (auto simp: secure_def node_at_def split: option.splits sum.splits if_splits)
    then show ?thesis ..
  next
    case Check
    then show ?thesis using run h
      by (intro disjI1 secure_kept [OF sec]) (auto split: list.splits option.splits sum.splits)
  qed (use run h secure_kept [OF sec, of t'] in \<open>auto split: if_splits\<close>)
qed

lemma secure_no_fault:
  assumes ok: "threads_ok t" and sec: "secure t i n c" and run: "threads_step cfg (Work i) t = Some (Inl f)"
  shows "overruns (shd t) (callers t i)"
proof -
  have "dangling (shd t) (callers t i) \<or> overruns (shd t) (callers t i)"
    using threads_step_keeps [OF ok run] by (auto simp: step_faults_def)
  with sec show ?thesis unfolding secure_def by (cases "callers t i") auto
qed

section \<open>Sample runs\<close>

definition defaults :: config where "defaults = (\<lambda>name dflt. dflt)"

definition demo_provider_route :: route where "demo_provider_route = (''g'', ''s'', ''1'', ''10.0.0.1'', 80)"

text \<open>The provider is added; a request comes and its worker takes \<open>k\<close> steps; the provider is removed.\<close>

definition added :: "event list" where "added = Add demo_provider_route # replicate 6 Change"

definition called :: "nat \<Rightarrow> event list" where "called k = Call 0 ''g'' ''s'' ''1'' [1, 2] # replicate k (Work 0)"

definition removed :: "event list" where "removed = Delete demo_provider_route # replicate 6 Change"

definition ran :: "event list \<Rightarrow> (fault + threads) option" where
  "ran es = threads_run defaults es (threads_init demo_world)"

definition faulted :: "(fault + threads) option \<Rightarrow> bool" where
  "faulted r = (case r of Some (Inl f) \<Rightarrow> True | _ \<Rightarrow> False)"

definition worker0 :: "(fault + threads) option \<Rightarrow> worker option" where
  "worker0 r = (case r of Some (Inr t) \<Rightarrow> Some (callers t 0) | _ \<Rightarrow> None)"

lemma demo_threads_ok: "threads_ok (threads_init demo_world)"
  using sample_world_ok by (intro threads_ok_init) (simp add: demo_world_def world_ok_def)

lemma demo_connected: "worker0 (ran (added @ called 5)) = Some (Connected 0 0 [1, 2])"
  by code_simp


section \<open>Properties\<close>


lemma demo_world_ok: "world_ok demo_world"
  using sample_world_ok by (simp add: demo_world_def world_ok_def)

lemma demo_world_fits: "fds_fit demo_world" "cfg_idle_ok defaults"
  by (simp_all add: fds_fit_def fds_ok_def demo_world_def sample_world_def FD_SETSIZE_def defaults_def
      idle_secs_ok_def int_ok_def)

lemma demo_race:
  "faulted (ran (added @ called 1 @ removed @ [Work 0]))"
  by code_simp

lemma run_snoc:
  "threads_run cfg (es @ [e]) t = Some x \<Longrightarrow> \<exists>u. threads_run cfg es t = Some (Inr u) \<and> threads_step cfg e u = Some x"
  by (induction es arbitrary: t) (auto split: option.splits sum.splits if_splits)




text \<open>
  C7: a worker that holds a connection of a live node, which no destroying thread is about to
  free (\<open>secure\<close>), faults at most by a descriptor beyond the set of \<open>select\<close>; and whatever step
  any thread takes, removals included, the node stays alive and unthreatened and the connection
  stays with this worker alone, until the worker itself puts it back into the idle list of the pool.
  (A worker can also take a connection of a node that is about to be freed; that is a race of its
  own.)
\<close>

theorem taken_connection_kept:
  assumes "world_ok w" and "threads_run cfg es (threads_init w) = Some (Inr t)" and "secure t i n c"
    and "threads_step cfg e t = Some (Inr t')"
  shows "(threads_step cfg (Work i) t = Some (Inl f) \<longrightarrow> overruns (shd t) (callers t i))
    \<and> (secure t' i n c \<and> (\<forall>j m. j \<noteq> i \<longrightarrow> holding (callers t' j) \<noteq> Some (m, c)) \<or> e = Work i \<and> lets_go t i t' n c)"
proof -
  have ok: "threads_ok t" using threads_run_keeps [OF assms(2) threads_ok_init [OF assms(1)]] .
  have ok': "threads_ok t'" using threads_step_keeps [OF ok assms(4)] by simp
  have "holding (callers t' j) \<noteq> Some (m, c)" if "secure t' i n c" "j \<noteq> i" for j m
  proof -
    have "holding (callers t' i) = Some (n, c)" using that(1) by (simp add: secure_def)
    with ok' that(2) show ?thesis unfolding threads_ok_def workers_ok_def by blast
  qed
  then show ?thesis using secure_step [OF ok assms(3,4)] secure_no_fault [OF ok assms(3)] by blast
qed

text \<open>The provider is removed while the worker holds its connection.\<close>

lemma demo_removed:
  "(case ran (added @ called 5 @ removed) of Some (Inr t) \<Rightarrow> holding (callers t 0) = Some (0, 0)
       \<and> node_at (shd t) 0 \<noteq> None \<and> destroyers t 0 = Some (Destroying 0 50) \<and> next_destroyer t = 1 | _ \<Rightarrow> False)"
  by code_simp

theorem taken_connection_kept_witness:
  "\<exists>t t'. ran (added @ called 5 @ removed) = Some (Inr t) \<and> secure t 0 0 0
     \<and> threads_step defaults (Destroy 0) t = Some (Inr t') \<and> secure t' 0 0 0"
proof -
  obtain t where t: "threads_run defaults (added @ called 5 @ removed) (threads_init demo_world) = Some (Inr t)"
    "holding (callers t 0) = Some (0, 0)" "node_at (shd t) 0 \<noteq> None"
    "destroyers t 0 = Some (Destroying 0 50)" "next_destroyer t = 1"
    using demo_removed by (auto simp: ran_def split: option.splits sum.splits)
  have ok: "threads_ok t" by (rule threads_run_keeps [OF t(1) demo_threads_ok])
  have "destroyers t j \<noteq> Some (Freeing 0)" for j
    using destroyersD [OF ok, of j "Freeing 0"] t(4,5) by (cases "j = 0") auto
  then have sec: "secure t 0 0 0" using t by (simp add: secure_def)
  from destroyer_keeps [OF ok t(4)] obtain d sh where
    "threads_step defaults (Destroy 0) t = Some (Inr (t\<lparr>shd := sh, destroyers := (destroyers t)(0 := d)\<rparr>))"
    using t(4) by fastforce
  from taken_connection_kept [OF demo_world_ok t(1) sec this] this sec t(1) show ?thesis
    by (auto simp: ran_def)
qed

section \<open>What a removal frees\<close>

lemma run_then:
  "threads_run cfg es t = Some (Inr t') \<Longrightarrow> threads_step cfg e t' = Some (Inl f) \<Longrightarrow>
     threads_run cfg (es @ [e]) t = Some (Inl f)"
proof (induction es arbitrary: t)
  case (Cons d es)
  then obtain u where "threads_step cfg d t = Some (Inr u)" "threads_run cfg es u = Some (Inr t')"
    by (auto split: option.splits sum.splits if_splits)
  with Cons show ?case by simp
qed simp

lemma work_dangling:
  "callers t i = HasNode n req \<or> callers t i = Refused n \<or> (\<exists>c. callers t i = Connected n c req) \<Longrightarrow>
     node_at (shd t) n = None \<Longrightarrow> threads_step cfg (Work i) t = Some (Inl OutOfBounds)"
  by auto

lemma remove_service_frees:
  assumes idle: "registry t = Quiet" and svc: "hash_find (svc_tab (shd t)) (route_service r) = Some a"
    and arr: "svc_obj (shd t) a = Some arr" "key_ptrs arr = [p]" "key_str (shd t) p = Some (route_node r)"
  obtains t' where "threads_run cfg [Delete r, Change, Change] t = Some (Inr t')" and "callers t' = callers t"
    and "svc_obj (shd t') a = None" and "key_str (shd t') p = None"
proof
  let ?t = "t\<lparr>registry := CheckUsed r, shd := (shd t)\<lparr>key_str := (key_str (shd t))(p := None),
      svc_tab := hash_del (route_service r) (svc_tab (shd t)), svc_obj := (svc_obj (shd t))(a := None)\<rparr>\<rparr>"
  show "threads_run cfg [Delete r, Change, Change] t = Some (Inr ?t)" using assms by (simp add: Let_def)
qed simp_all

lemma destroy_frees:
  assumes ok: "threads_ok t" and d: "destroyers t j = Some (Destroying n (Suc k))" and n: "node_at (shd t) n = Some q"
    and unused: "used_conn_list q = []"
  obtains t' q' where "threads_step cfg (Destroy j) t = Some (Inr t')" and "threads_ok t'" and "callers t' = callers t"
    and "node_at (shd t') n = Some q'" and "destroyers t' j = Some (Freeing n)"
proof -
  have q: "node_obj (shd t) n = Some q" "n \<notin> node_freed (shd t)" using n by (simp_all add: node_at_Some)
  have "world_ok (wld (shd t))" "pool_ok (wld (shd t)) q" using pool_kept [OF _ q(1)] ok by (simp_all add: threads_ok_def)
  from pool_destroy_keeps [OF this] unused obtain w where
    "pool_destroy q (wld (shd t)) = Inr (0, q\<lparr>unused_conn_list := []\<rparr>, w)" by auto
  with d q have step: "threads_step cfg (Destroy j) t = Some (Inr (t\<lparr>shd := set_node n (q\<lparr>unused_conn_list := []\<rparr>) w (shd t),
      destroyers := (destroyers t)(j \<mapsto> Freeing n)\<rparr>))" by (simp add: node_at_def)
  have "threads_ok (t\<lparr>shd := set_node n (q\<lparr>unused_conn_list := []\<rparr>) w (shd t), destroyers := (destroyers t)(j \<mapsto> Freeing n)\<rparr>)"
    using threads_step_keeps [OF ok step] by simp
  from that [OF step this] q show thesis by (simp add: node_at_def)
qed

lemma freeing_frees:
  assumes "destroyers t j = Some (Freeing n)" and "node_at (shd t) n = Some q"
  obtains t' where "threads_step cfg (Destroy j) t = Some (Inr t')" and "callers t' = callers t" and "node_at (shd t') n = None"
proof
  let ?sh = "(shd t)\<lparr>node_freed := insert n (node_freed (shd t))\<rparr>"
  show "threads_step cfg (Destroy j) t = Some (Inr (t\<lparr>shd := ?sh, destroyers := (destroyers t)(j := None)\<rparr>))"
    using assms by simp
qed (simp_all add: node_at_def)

text \<open>A worker that waits for the lock of a pool which is being destroyed gets it afterwards.\<close>

lemma late_require:
  assumes ok: "threads_ok t" and wk: "callers t i = HasNode n req" and n: "node_at (shd t) n = Some q"
  obtains t' where "threads_step cfg (Work i) t = Some (Inr t')" and "destroyers t' = destroyers t"
    and "node_at (shd t') n \<noteq> None" and "callers t' i = Refused n \<or> (\<exists>c. callers t' i = Connected n c req)"
proof -
  have q: "node_obj (shd t) n = Some q" "n \<notin> node_freed (shd t)" using n by (simp_all add: node_at_Some)
  from pool_require_keeps [of "wld (shd t)" q] pool_kept [OF _ q(1)] ok obtain r p w where
    req: "pool_require_connection q (wld (shd t)) = Inr (r, p, w)" unfolding threads_ok_def by blast
  let ?wk = "case r of None \<Rightarrow> Refused n | Some c \<Rightarrow> Connected n c req"
  have "threads_step cfg (Work i) t = Some (Inr (t\<lparr>callers := (callers t)(i := ?wk), shd := set_node n p w (shd t)\<rparr>))"
    using wk q req by (simp add: node_at_def split: option.split)
  from that [OF this] q show thesis by (simp add: node_at_def split: option.split)
qed

text \<open>
  C21: what a removal frees under a caller, from any reachable state.  When a worker has looked up
  a service, or has its key string, and the service's last provider is removed before the worker's
  next step, this step reads freed memory.  When a worker has looked up a node and the destroying
  thread of this node, whose pool is not in use, is faster, the worker's next step reads the freed
  node; and when the worker comes between the end of \<open>pool_destroy\<close> and the freeing, it takes a
  connection from the destroyed pool (or is refused one), the node is freed all the same and the
  worker's next step reads it.
\<close>

theorem removal_races:
  assumes "world_ok w" and "threads_run cfg es (threads_init w) = Some (Inr t)"
  shows "(registry t = Quiet \<and> hash_find (svc_tab (shd t)) (route_service r) = Some a
      \<and> svc_obj (shd t) a = Some arr \<and> key_ptrs arr = [p] \<and> key_str (shd t) p = Some (route_node r)
      \<and> (callers t i = HasService a req \<or> callers t i = HasKeyPtr p req)
      \<longrightarrow> threads_run cfg [Delete r, Change, Change, Work i] t = Some (Inl OutOfBounds))
    \<and> (callers t i = HasNode n req \<and> destroyers t j = Some (Destroying n (Suc k))
      \<and> (\<exists>q. node_at (shd t) n = Some q \<and> used_conn_list q = [])
      \<longrightarrow> threads_run cfg [Destroy j, Destroy j, Work i] t = Some (Inl OutOfBounds)
        \<and> (\<exists>t'. threads_run cfg [Destroy j, Work i] t = Some (Inr t')
             \<and> (callers t' i = Refused n \<or> (\<exists>c. callers t' i = Connected n c req))
             \<and> threads_run cfg [Destroy j, Work i] t' = Some (Inl OutOfBounds)))"
    (is "(?service \<longrightarrow> ?A) \<and> (?node \<longrightarrow> ?B \<and> ?C)")
proof (intro conjI impI)
  have ok: "threads_ok t" using threads_run_keeps [OF assms(2) threads_ok_init [OF assms(1)]] .
  show ?A if ?service
  proof -
    from that have svc: "registry t = Quiet" "hash_find (svc_tab (shd t)) (route_service r) = Some a"
      "svc_obj (shd t) a = Some arr" "key_ptrs arr = [p]" "key_str (shd t) p = Some (route_node r)" by simp_all
    obtain t' where t': "threads_run cfg [Delete r, Change, Change] t = Some (Inr t')" "callers t' = callers t"
      "svc_obj (shd t') a = None" "key_str (shd t') p = None"
      by (rule remove_service_frees [OF svc, of cfg])
    then have "threads_step cfg (Work i) t' = Some (Inl OutOfBounds)" using that by auto
    with t'(1) run_then [of cfg "[Delete r, Change, Change]"] show ?thesis by simp
  qed
  show ?B if ?node
  proof -
    from that obtain q where q: "node_at (shd t) n = Some q" "used_conn_list q = []" "callers t i = HasNode n req"
      "destroyers t j = Some (Destroying n (Suc k))" by blast
    obtain t1 q1 where t1: "threads_step cfg (Destroy j) t = Some (Inr t1)" "callers t1 = callers t"
      "node_at (shd t1) n = Some q1" "destroyers t1 j = Some (Freeing n)"
      by (rule destroy_frees [OF ok q(4,1,2), of cfg])
    obtain t2 where "threads_step cfg (Destroy j) t1 = Some (Inr t2)" "callers t2 = callers t1" "node_at (shd t2) n = None"
      by (rule freeing_frees [OF t1(4,3), of cfg])
    with t1 q(3) show ?thesis by (simp del: threads_step.simps(6) add: work_dangling)
  qed
  show ?C if ?node
  proof -
    from that obtain q where q: "node_at (shd t) n = Some q" "used_conn_list q = []" "callers t i = HasNode n req"
      "destroyers t j = Some (Destroying n (Suc k))" by blast
    obtain t1 q1 where t1: "threads_step cfg (Destroy j) t = Some (Inr t1)" "threads_ok t1" "callers t1 = callers t"
      "node_at (shd t1) n = Some q1" "destroyers t1 j = Some (Freeing n)"
      by (rule destroy_frees [OF ok q(4,1,2), of cfg])
    have "callers t1 i = HasNode n req" using t1(3) q(3) by simp
    from late_require [OF t1(2) this t1(4), of cfg] obtain t2 where
      t2: "threads_step cfg (Work i) t1 = Some (Inr t2)" "destroyers t2 = destroyers t1" "node_at (shd t2) n \<noteq> None"
      "callers t2 i = Refused n \<or> (\<exists>c. callers t2 i = Connected n c req)" .
    then obtain q2 where "node_at (shd t2) n = Some q2" "destroyers t2 j = Some (Freeing n)" using t1(5) by auto
    then obtain t3 where t3: "threads_step cfg (Destroy j) t2 = Some (Inr t3)" "callers t3 = callers t2" "node_at (shd t3) n = None"
      using freeing_frees [of t2 j n q2 cfg] by blast
    have "threads_step cfg (Work i) t3 = Some (Inl OutOfBounds)"
      by (rule work_dangling [of _ _ n]) (use t2(4) t3 in auto)
    then show ?thesis using t1(1) t2 t3(1) by (intro exI [of _ t2]) (simp del: threads_step.simps(2,6))
  qed
qed

text \<open>The four races on the provider of the sample runs.\<close>

lemma demo_races:
  "faulted (ran (added @ called 2 @ removed @ [Work 0]))"
  "faulted (ran (added @ called 4 @ removed @ [Destroy 0, Destroy 0, Work 0]))"
  "faulted (ran (added @ called 4 @ removed @ [Destroy 0, Work 0, Destroy 0, Work 0]))"
  "worker0 (ran (added @ called 4 @ removed @ [Destroy 0, Work 0])) = Some (Connected 0 1 [1, 2])"
  by code_simp+

lemma demo_looked_up:
  "case ran (added @ called 1) of
     Some (Inr t) \<Rightarrow> registry t = Quiet \<and> callers t 0 = HasService 1 [1, 2]
       \<and> hash_find (svc_tab (shd t)) (route_service demo_provider_route) = Some 1
       \<and> svc_obj (shd t) 1 = Some \<lparr>key_ptrs = [2], key_counter = 0\<rparr>
       \<and> key_str (shd t) 2 = Some (route_node demo_provider_route)
   | _ \<Rightarrow> False"
  by code_simp

theorem removal_races_witness:
  "\<exists>t. ran (added @ called 1) = Some (Inr t) \<and> callers t 0 = HasService 1 [1, 2]
     \<and> threads_run defaults [Delete demo_provider_route, Change, Change, Work 0] t = Some (Inl OutOfBounds)"
proof -
  obtain t where t: "threads_run defaults (added @ called 1) (threads_init demo_world) = Some (Inr t)"
    "registry t = Quiet" "callers t 0 = HasService 1 [1, 2]"
    "hash_find (svc_tab (shd t)) (route_service demo_provider_route) = Some 1"
    "svc_obj (shd t) 1 = Some \<lparr>key_ptrs = [2], key_counter = 0\<rparr>"
    "key_str (shd t) 2 = Some (route_node demo_provider_route)"
    using demo_looked_up by (auto simp: ran_def split: option.splits sum.splits)
  from removal_races [OF demo_world_ok t(1), of demo_provider_route 1 "\<lparr>key_ptrs = [2], key_counter = 0\<rparr>" 2 0 "[1, 2]"]
  show ?thesis using t by (simp add: ran_def del: threads_run.simps)
qed

end
