(* ===== verification/Threads_Alone.thy ===== *)
theory Threads_Alone
  imports Threads_Safety
begin

text \<open>
  The steps of one worker, with nothing in between, are \<open>invoke_service\<close> of theory Invoke\_Service
  on the resources that the shared objects represent.
\<close>

section \<open>A worker that is not disturbed\<close>

text \<open>The steps of one worker alone, until it returns.\<close>

fun alone :: "nat \<Rightarrow> worker \<Rightarrow> shared \<Rightarrow> (fault + worker \<times> shared) option" where
  "alone 0 wk sh = Some (Inr (wk, sh))"
| "alone (Suc n) wk sh =
     (case wk of
        Returned ret res \<Rightarrow> Some (Inr (wk, sh))
      | _ \<Rightarrow>
          (case call_step wk sh of
             None \<Rightarrow> None
           | Some (Inl f) \<Rightarrow> Some (Inl f)
           | Some (Inr (wk, sh)) \<Rightarrow> alone n wk sh))"

text \<open>The resources of theory Resource\_Mgt that the shared objects represent.\<close>

definition array_at :: "shared \<Rightarrow> addr \<Rightarrow> string_array" where
  "array_at sh a = (case svc_obj sh a of None \<Rightarrow> string_array_init
     | Some arr \<Rightarrow> \<lparr>strs = map (\<lambda>p. the (key_str sh p)) (key_ptrs arr), counter = key_counter arr\<rparr>)"

definition contents :: "shared \<Rightarrow> resources" where
  "contents sh = \<lparr>nodes = map (\<lambda>(k, n). (k, the (node_obj sh n))) (node_tab sh),
     services = map (\<lambda>(k, a). (k, array_at sh a)) (svc_tab sh),
     thds = (\<lambda>_. None), next_thd = 0, world = wld sh\<rparr>"

definition outcome :: "(fault + worker \<times> shared) option \<Rightarrow> (fault + int \<times> byte list option \<times> resources \<times> u32) option" where
  "outcome r = (case r of
     Some (Inr (Returned ret res, sh)) \<Rightarrow> Some (Inr (ret, res, contents sh, idents sh))
   | Some (Inl f) \<Rightarrow> Some (Inl f)
   | _ \<Rightarrow> None)"

definition finished :: "(fault + worker \<times> shared) option \<Rightarrow> bool" where
  "finished r = (case r of Some (Inr (Returned ret res, sh)) \<Rightarrow> True | Some (Inr _) \<Rightarrow> False | _ \<Rightarrow> True)"

lemma hash_find_values: "hash_find (map (\<lambda>(k, a). (k, f a)) tab) k = map_option f (hash_find tab k)"
  by (simp add: hash_find_def map_of_map)

lemma hash_upd_same: "hash_find t k = Some v \<Longrightarrow> hash_upd k v t = t"
  by (induction k v t rule: hash_upd.induct) (auto simp: hash_find_def)

lemma hash_upd_twice: "hash_upd k y (hash_upd k x t) = hash_upd k y t"
  by (induction k x t rule: hash_upd.induct) simp_all

lemma hash_upd_values:
  "hash_ok tab \<Longrightarrow> distinct (map snd tab) \<Longrightarrow> hash_find tab k = Some a \<Longrightarrow>
     hash_upd k x (map (\<lambda>(k, b). (k, f b)) tab) = map (\<lambda>(k, b). (k, (f(a := x)) b)) tab"
proof (induction tab)
  case (Cons e tab)
  obtain k' b where e: "e = (k', b)" by (cases e)
  show ?case
  proof (cases "k' = k")
    case True
    with Cons.prems e have "b = a" "a \<notin> snd ` set tab" by (auto simp: hash_find_def)
    then have "map (\<lambda>(k, b). (k, (f(a := x)) b)) tab = map (\<lambda>(k, b). (k, f b)) tab" by force
    with True e \<open>b = a\<close> show ?thesis by simp
  next
    case False
    with Cons.prems e have "hash_find tab k = Some a" by (simp add: hash_find_def)
    from tab_find [OF this] Cons.prems(2) e have "b \<noteq> a" by auto
    with False Cons \<open>hash_find tab k = Some a\<close> e show ?thesis by (simp add: hash_ok_def)
  qed
qed (simp add: hash_find_def)

lemma array_at_frame: "svc_obj sh' = svc_obj sh \<Longrightarrow> key_str sh' = key_str sh \<Longrightarrow> array_at sh' = array_at sh"
  by (intro ext, simp add: array_at_def split: option.split)

lemma contents_simps [simp]:
  "contents (sh\<lparr>wld := w, idents := x\<rparr>) = (contents sh)\<lparr>world := w\<rparr>"
  "contents (sh\<lparr>idents := x, wld := w\<rparr>) = (contents sh)\<lparr>world := w\<rparr>"
  "contents (sh\<lparr>wld := w\<rparr>) = (contents sh)\<lparr>world := w\<rparr>"
  "contents (sh\<lparr>idents := x\<rparr>) = contents sh"
  "world (contents sh) = wld sh"
  using array_at_frame [of "sh\<lparr>wld := w, idents := x\<rparr>" sh] array_at_frame [of "sh\<lparr>wld := w\<rparr>" sh]
    array_at_frame [of "sh\<lparr>idents := x, wld := w\<rparr>" sh] array_at_frame [of "sh\<lparr>idents := x\<rparr>" sh]
  by (simp_all add: contents_def)

lemma contents_set_node:
  assumes "tab_ok (node_tab sh) (node_at sh)" and "hash_find (node_tab sh) k = Some n"
  shows "contents (set_node n p w sh) = (contents sh)\<lparr>nodes := hash_upd k p (nodes (contents sh)), world := w\<rparr>"
  using assms hash_upd_values [of "node_tab sh" k n p "\<lambda>n. the (node_obj sh n)"]
  by (auto simp: contents_def array_at_def tab_ok_def intro!: map_cong split: option.splits)

lemma contents_counter:
  assumes "tab_ok (svc_tab sh) (svc_obj sh)" and "hash_find (svc_tab sh) k = Some a" and "svc_obj sh a = Some arr"
  shows "contents (sh\<lparr>svc_obj := (svc_obj sh)(a \<mapsto> arr\<lparr>key_counter := c\<rparr>)\<rparr>)
    = (contents sh)\<lparr>services := hash_upd k ((array_at sh a)\<lparr>counter := c\<rparr>) (services (contents sh))\<rparr>"
  using assms hash_upd_values [of "svc_tab sh" k a "(array_at sh a)\<lparr>counter := c\<rparr>" "array_at sh"]
  by (auto simp: contents_def array_at_def tab_ok_def intro!: map_cong split: option.splits)

lemma lookup_service:
  "service_resource_require_node_key g s v (contents sh) =
     (case hash_find (svc_tab sh) (service_key_of g s v) of
        None \<Rightarrow> (None, contents sh)
      | Some a \<Rightarrow> let (key, array) = string_array_next (array_at sh a)
          in (key, (contents sh)\<lparr>services := hash_upd (service_key_of g s v) array (services (contents sh))\<rparr>))"
  by (simp add: service_resource_require_node_key_def service_resource_get_def service_resource_get_by_key_def
      contents_def hash_find_values split: option.split)

lemma worker_finds:
  assumes ok: "shared_ok sh"
  shows "\<exists>key sh'. service_resource_require_node_key g s v (contents sh) = (key, contents sh') \<and> shared_ok sh'
    \<and> node_tab sh' = node_tab sh \<and> node_at sh' = node_at sh \<and> wld sh' = wld sh \<and> idents sh' = idents sh
    \<and> alone (Suc (Suc (Suc n))) (Called g s v req) sh =
        (case key of None \<Rightarrow> alone (Suc 0) (Returned (-1) None) sh' | Some k \<Rightarrow> alone n (HasKey (snprintf_s 30 k) req) sh')"
proof (cases "hash_find (svc_tab sh) (service_key_of g s v)")
  case None
  then have "service_resource_require_node_key g s v (contents sh) = (None, contents sh)"
    by (simp add: lookup_service)
  with ok None show ?thesis by (intro exI [of _ None] exI [of _ sh]) simp
next
  case (Some a)
  have tab: "tab_ok (svc_tab sh) (svc_obj sh)" and alive: "arrays_alive (svc_obj sh) (key_str sh)"
    using ok by (simp_all add: shared_ok_def)
  obtain arr where arr: "svc_obj sh a = Some arr" using tab_alive [OF tab Some] by blast
  show ?thesis
  proof (cases "key_ptrs arr = []")
    case True
    then have "string_array_next (array_at sh a) = (None, array_at sh a)" using arr
      by (simp add: string_array_next_def array_at_def)
    moreover have "hash_upd (service_key_of g s v) (array_at sh a) (services (contents sh)) = services (contents sh)"
      using Some by (intro hash_upd_same) (simp add: contents_def hash_find_values)
    ultimately have "service_resource_require_node_key g s v (contents sh) = (None, contents sh)"
      using Some by (simp add: lookup_service)
    with ok Some arr True show ?thesis by (intro exI [of _ None] exI [of _ sh]) simp
  next
    case False
    let ?i = "unat (key_counter arr) mod length (key_ptrs arr)"
    let ?sh = "sh\<lparr>svc_obj := (svc_obj sh)(a \<mapsto> arr\<lparr>key_counter := key_counter arr + 1\<rparr>)\<rparr>"
    from False obtain k where k: "key_str sh (key_ptrs arr ! ?i) = Some k"
      using arrays_alive_str [OF alive arr, of "key_ptrs arr ! ?i"] by auto
    have "string_array_next (array_at sh a) = (Some k, (array_at sh a)\<lparr>counter := key_counter arr + 1\<rparr>)"
      using arr k False by (simp add: string_array_next_def array_at_def next_idx_def)
    then have "service_resource_require_node_key g s v (contents sh) = (Some k, contents ?sh)"
      using Some contents_counter [OF tab Some arr] by (simp add: lookup_service)
    moreover have "shared_ok ?sh" by (rule counter_shared_ok [OF ok arr])
    moreover have "node_at ?sh = node_at sh" by (simp add: node_at_def fun_eq_iff)
    ultimately show ?thesis
      using Some arr k False by (intro exI [of _ "Some k"] exI [of _ ?sh]) simp
  qed
qed


lemma node_at_wld [simp]: "node_at (sh\<lparr>wld := w\<rparr>) = node_at sh" "node_at (sh\<lparr>wld := w, idents := s\<rparr>) = node_at sh"
  "node_at (sh\<lparr>idents := s, wld := w\<rparr>) = node_at sh" "node_at (sh\<lparr>idents := s\<rparr>) = node_at sh"
  by (simp_all add: node_at_def fun_eq_iff)

lemma alone_returned [simp]: "alone n (Returned ret res) sh = Some (Inr (Returned ret res, sh))"
  by (cases n) simp_all

text \<open>The end of a call: the release and the last look at the clock.\<close>

definition finish :: "addr \<Rightarrow> addr \<Rightarrow> int \<Rightarrow> byte list option \<Rightarrow> shared \<Rightarrow> (fault + worker \<times> shared) option" where
  "finish nd c ret res sh =
     (case pool_release_connection (the (node_obj sh nd)) (Some c) True (wld sh) of
        Inl f \<Rightarrow> Some (Inl f)
      | Inr (pool, w) \<Rightarrow> Some (Inr (Returned ret res, set_node nd pool (snd (get_now_time w)) sh)))"

lemma alone_finishing:
  "node_at sh nd \<noteq> None \<Longrightarrow> alone (Suc (Suc k)) (Finishing nd c ret res) sh = finish nd c ret res sh"
  by (auto simp: node_at_def finish_def get_now_time_def set_node_def split: if_splits sum.splits)

lemma alone_trying_last:
  "node_at sh nd \<noteq> None \<Longrightarrow> alone (Suc (Suc (Suc k))) (Trying nd c ident 0 req res0) sh =
     (case invoke_loop (Suc 0) c ident req res0 (wld sh) of
        None \<Rightarrow> None | Some (Inl f) \<Rightarrow> Some (Inl f) | Some (Inr (ret, res, w)) \<Rightarrow> finish nd c ret res (sh\<lparr>wld := w\<rparr>))"
  using alone_finishing [of "sh\<lparr>wld := _\<rparr>" nd k c]
  by (auto simp del: alone.simps simp add: alone.simps(2) [of "Suc (Suc k)"] split: option.splits sum.splits if_splits)

lemma alone_trying:
  "node_at sh nd \<noteq> None \<Longrightarrow> alone (Suc (Suc (Suc (Suc (Suc k))))) (Trying nd c ident RETRY_TIMES req None) sh =
     (case invoke_loop (RETRY_TIMES + 1) c ident req None (wld sh) of
        None \<Rightarrow> None | Some (Inl f) \<Rightarrow> Some (Inl f) | Some (Inr (ret, res, w)) \<Rightarrow> finish nd c ret res (sh\<lparr>wld := w\<rparr>))"
proof (goal_cases)
  case 1
  show ?case
  proof (cases "heap (wld sh) c")
    case None
    then show ?thesis by (simp add: RETRY_TIMES_def)
  next
    case (Some x)
    show ?thesis
    proof (cases "exchange (sock_fd x) ident req (wld sh)")
      case None
      then show ?thesis using Some by (simp add: RETRY_TIMES_def)
    next
      case ex: (Some r)
      show ?thesis
      proof (cases r)
        case (Inl f)
        then show ?thesis using Some ex by (simp add: RETRY_TIMES_def)
      next
        case (Inr out)
        obtain success res w where r: "r = Inr (success, res, w)" using Inr by (cases out) auto
        have at: "node_at (sh\<lparr>wld := v\<rparr>) nd \<noteq> None" for v using 1 by simp
        show ?thesis
        proof (cases success)
          case True
          then show ?thesis using Some ex r alone_finishing [OF at [of w], of "Suc (Suc k)" c 0 res]
            by (simp add: RETRY_TIMES_def alone.simps(2) [of "Suc (Suc (Suc (Suc k)))"] del: alone.simps)
        next
          case False
          obtain e y v where re: "conn_reconnect x w = (e, y, v)" by (metis prod_cases3)
          have x: "heap w c = Some x" using exchange_result [OF ex] r Some by (auto simp: line_changed_def)
          have "alone (Suc (Suc (Suc (Suc (Suc k))))) (Trying nd c ident RETRY_TIMES req None) sh =
              alone (Suc (Suc (Suc k))) (Trying nd c ident 0 req res) (sh\<lparr>wld := store_conn c y v\<rparr>)"
            using Some ex r False x re
            by (simp add: RETRY_TIMES_def alone.simps(2) [of "Suc (Suc (Suc (Suc k)))"] alone.simps(2) [of "Suc (Suc (Suc k))"]
                del: alone.simps)
          moreover have "invoke_loop (RETRY_TIMES + 1) c ident req None (wld sh) = invoke_loop (Suc 0) c ident req res (store_conn c y v)"
            using Some ex r False re by (simp add: RETRY_TIMES_def)
          ultimately show ?thesis
            using alone_trying_last [OF at [of "store_conn c y v"], of k c ident req res]
            by (simp del: alone.simps invoke_loop.simps split: option.split sum.split)
        qed
      qed
    qed
  qed
qed


lemma contents_finish:
  assumes ok: "shared_ok sh" and k: "hash_find (node_tab sh) key = Some nd" and p: "node_obj sh nd = Some p"
  shows "outcome (finish nd c ret res (sh\<lparr>idents := s, wld := w\<rparr>)) =
     (case pool_release_connection p (Some c) True w of
        Inl f \<Rightarrow> Some (Inl f)
      | Inr (pool, w) \<Rightarrow>
          let (end_time, w) = get_now_time w
          in Some (Inr (ret, res, (contents sh)\<lparr>nodes := hash_upd key pool (nodes (contents sh)), world := w\<rparr>, s)))
    \<and> finished (finish nd c ret res (sh\<lparr>idents := s, wld := w\<rparr>))"
proof -
  have "node_tab (sh\<lparr>idents := s, wld := w\<rparr>) = node_tab sh" "tab_ok (node_tab sh) (node_at sh)"
    using ok by (simp_all add: shared_ok_def)
  then have "contents (set_node nd q v (sh\<lparr>idents := s, wld := w\<rparr>)) =
      (contents sh)\<lparr>nodes := hash_upd key q (nodes (contents sh)), world := v\<rparr>" for q v
    using contents_set_node [of "sh\<lparr>idents := s, wld := w\<rparr>" key nd q v] k by simp
  moreover have "idents (set_node nd q v (sh\<lparr>idents := s, wld := w\<rparr>)) = s" for q v by (simp add: set_node_def)
  ultimately show ?thesis using p
    by (auto simp: finish_def outcome_def finished_def get_now_time_def split: sum.split)
qed

lemma alone_service:
  assumes ok: "shared_ok sh"
  shows "invoke_service g s v req (contents sh) (idents sh) = outcome (alone 13 (Called g s v req) sh)
    \<and> finished (alone 13 (Called g s v req) sh)"
proof -
  have thirteen: "(13::nat) = Suc (Suc (Suc 10))" by simp
  obtain key sh1 where key: "service_resource_require_node_key g s v (contents sh) = (key, contents sh1)" "shared_ok sh1"
    "idents sh1 = idents sh"
    and run: "alone 13 (Called g s v req) sh =
        (case key of None \<Rightarrow> alone (Suc 0) (Returned (-1) None) sh1 | Some k \<Rightarrow> alone 10 (HasKey (snprintf_s 30 k) req) sh1)"
    using worker_finds [OF ok, of g s v 10 req] unfolding thirteen by blast
  show ?thesis
  proof (cases key)
    case None
    then show ?thesis using key run by (simp add: invoke_service_def outcome_def finished_def)
  next
    case (Some k)
    let ?k = "snprintf_s 30 k"
    have find: "node_resource_get_by_key (Some ?k) (contents sh1) = map_option (\<lambda>n. the (node_obj sh1 n)) (hash_find (node_tab sh1) ?k)"
      by (simp add: node_resource_get_by_key_def contents_def hash_find_values)
    have ten: "(10::nat) = Suc (Suc (Suc (Suc (Suc (Suc (Suc (Suc (Suc (Suc 0)))))))))" by simp
    show ?thesis
    proof (cases "hash_find (node_tab sh1) ?k")
      case None
      then show ?thesis using key run Some find by (simp add: invoke_service_def outcome_def finished_def ten)
    next
      case nd: (Some nd)
      have tab: "tab_ok (node_tab sh1) (node_at sh1)" using key(2) by (simp add: shared_ok_def)
      obtain q where q: "node_at sh1 nd = Some q" "node_obj sh1 nd = Some q"
        using tab_alive [OF tab nd] by (auto simp: node_at_Some)
      from pool_require_keeps [of "wld sh1" q] pool_kept [OF key(2) q(2)] obtain conn p w where
        req: "pool_require_connection q (wld sh1) = Inr (conn, p, w)" "keeps (wld sh1) q w p" by blast
      let ?sh = "set_node nd p w sh1"
      have at: "node_at ?sh nd = Some p" "node_obj ?sh nd = Some p" "shared_ok ?sh" "hash_find (node_tab ?sh) ?k = Some nd"
        "idents ?sh = idents sh1" "wld ?sh = w"
        using q(1) nd set_node_ok [OF key(2) q(2) req(2)] by (auto simp: node_at_Some set_node_def)
      have cont: "contents ?sh = (contents sh1)\<lparr>nodes := hash_upd ?k p (nodes (contents sh1)), world := w\<rparr>"
        by (rule contents_set_node [OF tab nd])
      show ?thesis
      proof (cases conn)
        case None
        then show ?thesis using key run Some find nd q req cont at
          by (simp add: invoke_service_def outcome_def finished_def ten)
      next
        case c: (Some c)
        let ?w = "w\<lparr>ticks := Suc (ticks w)\<rparr>"
        let ?sh2 = "?sh\<lparr>wld := ?w, idents := idents sh1 + 1\<rparr>"
        have "alone 13 (Called g s v req) sh = alone (Suc (Suc (Suc (Suc (Suc 0))))) (Trying nd c (idents sh1 + 1) RETRY_TIMES req None) ?sh2"
          using run Some nd q req c at unfolding ten by (simp add: next_identifier_def get_now_time_def)
        moreover have "node_at ?sh2 nd \<noteq> None" using at by simp
        ultimately have run2: "alone 13 (Called g s v req) sh = (case invoke_loop (RETRY_TIMES + 1) c (idents sh1 + 1) req None ?w of
            None \<Rightarrow> None | Some (Inl f) \<Rightarrow> Some (Inl f) | Some (Inr (ret, res, w)) \<Rightarrow> finish nd c ret res (?sh2\<lparr>wld := w\<rparr>))"
          using alone_trying [of ?sh2 nd 0 c "idents sh1 + 1" req] by (simp del: alone.simps invoke_loop.simps)
        have twice: "hash_upd ?k p' (nodes (contents ?sh)) = hash_upd ?k p' (nodes (contents sh1))" for p'
          using cont by (simp add: hash_upd_twice)
        have call: "invoke_service g s v req (contents sh) (idents sh) = (case invoke_loop (RETRY_TIMES + 1) c (idents sh + 1) req None ?w of
            None \<Rightarrow> None | Some (Inl f) \<Rightarrow> Some (Inl f) | Some (Inr (ret, res, w)) \<Rightarrow>
              (case pool_release_connection p (Some c) True w of Inl f \<Rightarrow> Some (Inl f) | Inr (pool, w) \<Rightarrow>
                let (end_time, w) = get_now_time w in Some (Inr (ret, res,
                  (contents sh1)\<lparr>nodes := hash_upd ?k pool (nodes (contents sh1)), world := w\<rparr>, idents sh + 1))))"
          using key Some find nd q req c
          by (simp add: invoke_service_def next_identifier_def get_now_time_def Let_def del: invoke_loop.simps)
        show ?thesis
        proof (cases "\<exists>ret res w2. invoke_loop (RETRY_TIMES + 1) c (idents sh + 1) req None ?w = Some (Inr (ret, res, w2))")
          case False
          then show ?thesis unfolding call run2 key(3)
            by (auto simp: outcome_def finished_def simp del: invoke_loop.simps split: option.split sum.split)
        next
          case True
          then obtain ret res w2 where "invoke_loop (RETRY_TIMES + 1) c (idents sh + 1) req None ?w = Some (Inr (ret, res, w2))" by blast
          then show ?thesis
            unfolding call run2 key(3) using contents_finish [OF at(3,4,2), of c ret res w2 "idents sh + 1"] cont twice
            by (simp add: get_now_time_def split: sum.split)
        qed
      qed
    qed
  qed
qed


section \<open>Property\<close>

text \<open>
  C6: a worker that runs without interruption, on objects that satisfy the invariant, does exactly
  what \<open>invoke_service\<close> does on the resources they represent: same result, same response, same
  tables, pools, sockets and identifiers afterwards; thirteen steps are enough for every call.
\<close>

theorem worker_alone_is_invoke_service:
  assumes "shared_ok sh"
  shows "invoke_service g s v req (contents sh) (idents sh) = outcome (alone 13 (Called g s v req) sh)
    \<and> finished (alone 13 (Called g s v req) sh)"
  using assms by (rule alone_service)

theorem worker_alone_is_invoke_service_witness:
  "\<exists>t. ran added = Some (Inr t) \<and> hash_find (svc_tab (shd t)) ''g#s#1'' \<noteq> None
     \<and> invoke_service ''g'' ''s'' ''1'' [1, 2] (contents (shd t)) (idents (shd t))
         = outcome (alone 13 (Called ''g'' ''s'' ''1'' [1, 2]) (shd t))"
proof -
  have "case ran added of Some (Inr t) \<Rightarrow> hash_find (svc_tab (shd t)) ''g#s#1'' \<noteq> None | _ \<Rightarrow> False"
    by code_simp
  then obtain t where t: "ran added = Some (Inr t)" "hash_find (svc_tab (shd t)) ''g#s#1'' \<noteq> None"
    by (auto split: option.splits sum.splits)
  then have "threads_ok t" using threads_run_keeps [OF _ demo_threads_ok] by (simp add: ran_def)
  then have "shared_ok (shd t)" by (simp add: threads_ok_def)
  from worker_alone_is_invoke_service [OF this] t show ?thesis by blast
qed

end
