(* ===== verification/Locks.thy ===== *)
theory Locks
  imports Main
begin

text \<open>
  The mutexes of the agent (soaagent/invoke_stub.c, resource_mgt.c, conn_pool.c): for every
  operation the sequence in which it locks and unlocks, on every path through the code, and the
  proof that threads that run such sequences in any interleaving never deadlock.  A node's pool is
  named by a number.
\<close>

section \<open>What each operation locks\<close>

datatype lock = WatchLock | ModifyLock | NodesLock | ServicesLock | PoolLock nat

datatype action = Acquire lock | Release lock

definition inside :: "lock \<Rightarrow> action list \<Rightarrow> action list" where
  "inside l body = Acquire l # body @ [Release l]"

text \<open>conn_pool.c: each of these is one section under the lock of the pool.\<close>

definition pool_locks :: "nat \<Rightarrow> action list" where
  "pool_locks n = inside (PoolLock n) []"

text \<open>resource_mgt.c, nodes.  \<open>Some n\<close> is a node that was found, \<open>None\<close> one that was not.\<close>

definition node_get_locks :: "action list" where
  "node_get_locks = inside NodesLock []"

definition node_add_locks :: "bool \<Rightarrow> nat \<Rightarrow> action list" where
  "node_add_locks found n = node_get_locks @ (if found then [] else pool_locks n @ inside NodesLock [])"

definition node_delete_locks :: "bool \<Rightarrow> action list" where
  "node_delete_locks found = node_get_locks @ (if found then inside NodesLock [] else [])"

definition node_pool_locks :: "nat option \<Rightarrow> action list" where
  "node_pool_locks node = inside NodesLock (case node of None \<Rightarrow> [] | Some n \<Rightarrow> pool_locks n)"

definition all_pools_locks :: "nat list \<Rightarrow> action list" where
  "all_pools_locks ns = inside NodesLock (concat (map pool_locks ns))"

definition destroy_thread_locks :: "nat \<Rightarrow> nat \<Rightarrow> action list" where
  "destroy_thread_locks attempts n = concat (replicate attempts (pool_locks n))"

text \<open>resource_mgt.c, services.\<close>

definition service_get_locks :: "action list" where
  "service_get_locks = inside ServicesLock []"

definition service_add_locks :: "action list" where
  "service_add_locks = service_get_locks @ inside ServicesLock []"

definition service_found_locks :: "bool \<Rightarrow> action list" where
  "service_found_locks found = service_get_locks @ (if found then inside ServicesLock [] else [])"

text \<open>A change of the resources: \<open>resource_add\<close> and \<open>resource_delete\<close>.\<close>

datatype change =
    Added bool nat                 \<comment> \<open>the node was there already; its number\<close>
  | Removed bool bool bool         \<comment> \<open>the service was found; its node is still used; the node was found\<close>

fun change_locks :: "change \<Rightarrow> action list" where
  "change_locks (Added node_found n) = node_add_locks node_found n @ service_add_locks"
| "change_locks (Removed service_found used node_found) =
     service_found_locks service_found @ inside ServicesLock []
       @ (if used then [] else node_delete_locks node_found)"

text \<open>invoke_stub.c.\<close>

definition children_change_locks :: "change list \<Rightarrow> action list" where
  "children_change_locks cs = inside ModifyLock (concat (map change_locks cs))"

datatype watch =
    NoFile | Unchanged | Unreadable | Unparsable
  | Groups "change list option list"  \<comment> \<open>the changes that the children of each group bring, if they were got\<close>

fun watch_locks :: "watch \<Rightarrow> action list" where
  "watch_locks NoFile = []"
| "watch_locks (Groups gs) = inside WatchLock (concat (map (\<lambda>g. case g of
     None \<Rightarrow> [] | Some cs \<Rightarrow> children_change_locks cs) gs))"
| "watch_locks _ = inside WatchLock []"

datatype call =
    NoService | NoKey | NoNode | NoConnection nat | Exchanged nat

fun call_locks :: "call \<Rightarrow> action list" where
  "call_locks NoService = service_found_locks False"
| "call_locks NoKey = service_found_locks True"
| "call_locks NoNode = service_found_locks True @ node_get_locks"
| "call_locks (NoConnection n) = service_found_locks True @ node_get_locks @ pool_locks n"
| "call_locks (Exchanged n) = service_found_locks True @ node_get_locks @ pool_locks n @ pool_locks n"

text \<open>What a thread of the agent does.\<close>

datatype activity =
    Invoke call
  | Children "change list"
  | Watch watch
  | CheckPools "nat list"
  | DestroyPool nat nat
  | Require "nat option"
  | NodeStatus
  | ServiceStatus
  | DestroyNodes "nat list"
  | DestroyServices

fun activity_locks :: "activity \<Rightarrow> action list" where
  "activity_locks (Invoke c) = call_locks c"
| "activity_locks (Children cs) = children_change_locks cs"
| "activity_locks (Watch w) = watch_locks w"
| "activity_locks (CheckPools ns) = all_pools_locks ns"
| "activity_locks (DestroyPool attempts n) = destroy_thread_locks attempts n"
| "activity_locks (Require node) = node_pool_locks node"
| "activity_locks NodeStatus = inside NodesLock []"
| "activity_locks ServiceStatus = inside ServicesLock []"
| "activity_locks (DestroyNodes ns) = all_pools_locks ns"
| "activity_locks DestroyServices = inside ServicesLock []"

section \<open>The order of the locks\<close>

fun rank :: "lock \<Rightarrow> nat" where
  "rank WatchLock = 0"
| "rank ModifyLock = 1"
| "rank NodesLock = 2"
| "rank ServicesLock = 3"
| "rank (PoolLock n) = 4"

text \<open>
  From the locks it holds, a sequence only acquires locks of a higher rank, only releases what it
  holds, and ends with none.
\<close>

fun disciplined :: "lock list \<Rightarrow> action list \<Rightarrow> bool" where
  "disciplined held [] = (held = [])"
| "disciplined held (Acquire l # as) = (list_all (\<lambda>h. rank h < rank l) held \<and> disciplined (l # held) as)"
| "disciplined held (Release l # as) = (l \<in> set held \<and> disciplined (remove1 l held) as)"

text \<open>A sequence that leaves the locks held before as they were.\<close>

definition neutral :: "nat \<Rightarrow> action list \<Rightarrow> bool" where
  "neutral r as \<longleftrightarrow> (\<forall>held rest. list_all (\<lambda>h. rank h < r) held \<longrightarrow> disciplined held rest \<longrightarrow> disciplined held (as @ rest))"

lemma neutral_Nil [simp]: "neutral r []"
  by (simp add: neutral_def)

lemma neutral_append: "neutral r as \<Longrightarrow> neutral r bs \<Longrightarrow> neutral r (as @ bs)"
  by (simp add: neutral_def)

lemma neutral_inside: "neutral (Suc (rank l)) as \<Longrightarrow> r \<le> rank l \<Longrightarrow> neutral r (inside l as)"
  unfolding neutral_def inside_def
proof (intro allI impI)
  fix held rest
  assume body: "\<forall>held rest. list_all (\<lambda>h. rank h < Suc (rank l)) held \<longrightarrow> disciplined held rest \<longrightarrow> disciplined held (as @ rest)"
    and r: "r \<le> rank l" and held: "list_all (\<lambda>h. rank h < r) held" and rest: "disciplined held rest"
  have "list_all (\<lambda>h. rank h < rank l) held" using held r by (auto simp: list_all_iff)
  moreover have "disciplined (l # held) (as @ Release l # rest)"
    using body rest \<open>list_all (\<lambda>h. rank h < rank l) held\<close> by (auto simp: list_all_iff less_Suc_eq)
  ultimately show "disciplined held ((Acquire l # as @ [Release l]) @ rest)" by simp
qed

lemma neutral_concat: "(\<And>x. x \<in> set xs \<Longrightarrow> neutral r (f x)) \<Longrightarrow> neutral r (concat (map f xs))"
  by (induction xs) (auto intro: neutral_append)

lemma neutral_pool: "r \<le> 4 \<Longrightarrow> neutral r (pool_locks n)"
  and neutral_services: "r \<le> 3 \<Longrightarrow> neutral r (inside ServicesLock [])"
  and neutral_nodes: "r \<le> 2 \<Longrightarrow> neutral r (inside NodesLock [])"
  by (simp_all add: pool_locks_def neutral_inside)

lemmas neutral_parts = neutral_append neutral_concat neutral_pool neutral_services neutral_nodes neutral_inside

lemma neutral_change: "r \<le> 2 \<Longrightarrow> neutral r (change_locks c)"
  by (cases c) (simp_all add: node_add_locks_def node_get_locks_def service_add_locks_def service_get_locks_def
      service_found_locks_def node_delete_locks_def neutral_parts)

lemma neutral_children: "r \<le> 1 \<Longrightarrow> neutral r (children_change_locks cs)"
  unfolding children_change_locks_def by (intro neutral_inside neutral_concat neutral_change) simp_all

lemma activity_disciplined: "disciplined [] (activity_locks a)"
proof -
  have "neutral 0 (activity_locks a)"
  proof (cases a)
    case (Invoke c)
    then show ?thesis
      by (cases c) (simp_all add: node_get_locks_def service_get_locks_def service_found_locks_def neutral_parts)
  next
    case (Watch w)
    then show ?thesis
      by (cases w) (auto intro!: neutral_inside neutral_concat neutral_children split: option.split)
  next
    case (Require node)
    then show ?thesis by (cases node) (simp_all add: node_pool_locks_def neutral_parts)
  next
    case (DestroyPool k n)
    have "neutral 0 (concat (map (\<lambda>_. pool_locks n) (replicate k ())))" by (intro neutral_concat neutral_pool) simp
    then show ?thesis using DestroyPool by (simp add: destroy_thread_locks_def)
  qed (simp_all add: neutral_children all_pools_locks_def neutral_parts)
  from this [unfolded neutral_def, rule_format, of "[]" "[]"] show ?thesis by simp
qed

section \<open>Threads that share the locks\<close>

text \<open>Each thread has the locks it holds and what it has still to do.\<close>

type_synonym thread = "lock list \<times> action list"

definition free :: "lock \<Rightarrow> thread list \<Rightarrow> bool" where
  "free l ts = list_all (\<lambda>t. l \<notin> set (fst t)) ts"

text \<open>The next action of a thread; \<open>None\<close> when it is done or waits for a lock.\<close>

definition lock_step :: "nat \<Rightarrow> thread list \<Rightarrow> thread list option" where
  "lock_step i ts =
     (if i < length ts then
        (case ts ! i of
           (held, []) \<Rightarrow> None
         | (held, Acquire l # as) \<Rightarrow> if free l ts then Some (ts[i := (l # held, as)]) else None
         | (held, Release l # as) \<Rightarrow> Some (ts[i := (remove1 l held, as)]))
      else None)"

fun schedule :: "nat list \<Rightarrow> thread list \<Rightarrow> thread list option" where
  "schedule [] ts = Some ts"
| "schedule (i # is) ts = (case lock_step i ts of None \<Rightarrow> None | Some ts \<Rightarrow> schedule is ts)"

definition start :: "activity list \<Rightarrow> thread list" where
  "start acts = map (\<lambda>a. ([], activity_locks a)) acts"

definition all_done :: "thread list \<Rightarrow> bool" where
  "all_done ts = list_all (\<lambda>t. snd t = []) ts"

definition steps_left :: "thread list \<Rightarrow> nat" where
  "steps_left ts = sum_list (map (\<lambda>t. length (snd t)) ts)"

definition locks_ok :: "thread list \<Rightarrow> bool" where
  "locks_ok ts \<longleftrightarrow> (\<forall>i < length ts. disciplined (fst (ts ! i)) (snd (ts ! i)))
     \<and> (\<forall>i < length ts. \<forall>j < length ts. i \<noteq> j \<longrightarrow> set (fst (ts ! i)) \<inter> set (fst (ts ! j)) = {})"

lemma start_ok: "locks_ok (start acts)"
  by (auto simp: locks_ok_def start_def activity_disciplined)

lemma lock_step_keeps:
  assumes ok: "locks_ok ts" and run: "lock_step i ts = Some ts'"
  shows "locks_ok ts' \<and> steps_left ts = Suc (steps_left ts')"
proof -
  obtain held acts where i: "i < length ts" "ts ! i = (held, acts)"
    using run by (cases "ts ! i") (auto simp: lock_step_def split: if_splits)
  have d: "disciplined held acts" using ok i by (auto simp: locks_ok_def)
  obtain x as where acts: "acts = x # as" using run i by (cases acts) (auto simp: lock_step_def)
  define h where "h = (case x of Acquire l \<Rightarrow> l # held | Release l \<Rightarrow> remove1 l held)"
  have ts': "ts' = ts[i := (h, as)]"
    using run i acts by (cases x) (auto simp: lock_step_def h_def split: if_splits)
  have "disciplined h as" using d acts by (cases x) (auto simp: h_def)
  moreover have "set h \<inter> set (fst (ts ! j)) = {}" if "j < length ts" "j \<noteq> i" for j
  proof -
    have "set (fst (ts ! i)) \<inter> set (fst (ts ! j)) = {}" using ok i(1) that unfolding locks_ok_def by metis
    then have "set held \<inter> set (fst (ts ! j)) = {}" using i(2) by simp
    moreover have "l \<notin> set (fst (ts ! j))" if "x = Acquire l" for l
      using run i acts that \<open>j < length ts\<close>
      by (auto simp: lock_step_def free_def list_all_length split: if_splits prod.splits)
    ultimately show ?thesis using set_remove1_subset [of _ held] by (cases x) (auto simp: h_def)
  qed
  moreover have "steps_left ts = Suc (steps_left ts')"
  proof -
    have "length (snd (ts ! i)) \<le> steps_left ts"
      using i(1) elem_le_sum_list [of i "map (\<lambda>t. length (snd t)) ts"] by (simp add: steps_left_def)
    then show ?thesis
      using i acts by (simp add: ts' steps_left_def map_update sum_list_update)
  qed
  ultimately show ?thesis
    using ok i ts' by (auto simp: locks_ok_def nth_list_update)
qed

text \<open>Some thread can always go on: the one that waits for the lock of the highest rank could not wait.\<close>

lemma some_step:
  assumes ok: "locks_ok ts" and "\<not> all_done ts"
  shows "\<exists>i. lock_step i ts \<noteq> None"
proof (rule ccontr)
  assume stuck: "\<not> (\<exists>i. lock_step i ts \<noteq> None)"
  define waiting where "waiting = {(i, l). i < length ts \<and> (\<exists>as. snd (ts ! i) = Acquire l # as)}"
  have wait: "\<exists>l. (i, l) \<in> waiting" if "i < length ts" and "snd (ts ! i) \<noteq> []" for i
  proof -
    obtain held x as where i: "ts ! i = (held, x # as)" using \<open>snd (ts ! i) \<noteq> []\<close> by (cases "ts ! i"; cases "snd (ts ! i)") auto
    have "lock_step i ts = None" using stuck by blast
    with i \<open>i < length ts\<close> obtain l where "x = Acquire l" by (cases x) (auto simp: lock_step_def)
    with i \<open>i < length ts\<close> show ?thesis by (auto simp: waiting_def)
  qed
  have higher: "\<exists>j m. (j, m) \<in> waiting \<and> rank l < rank m" if wl: "(i, l) \<in> waiting" for i l
  proof -
    obtain as where "i < length ts" "snd (ts ! i) = Acquire l # as" using wl by (auto simp: waiting_def)
    then have i: "i < length ts" "ts ! i = (fst (ts ! i), Acquire l # as)" by (simp_all add: prod_eq_iff)
    have "lock_step i ts = None" using stuck by blast
    then have "\<not> free l ts" using i(1) by (subst (asm) lock_step_def) (subst (asm) i(2), simp split: if_splits)
    then obtain j where j: "j < length ts" "l \<in> set (fst (ts ! j))"
      by (auto simp: free_def list_all_length split: prod.splits)
    have dj: "disciplined (fst (ts ! j)) (snd (ts ! j))" using ok j by (auto simp: locks_ok_def)
    then have "snd (ts ! j) \<noteq> []" using j(2) by (cases "snd (ts ! j)") auto
    with wait j(1) obtain m where m: "(j, m) \<in> waiting" by blast
    then have "rank l < rank m" using dj j(2) by (auto simp: waiting_def list_all_iff)
    with m show ?thesis by blast
  qed
  obtain i where "i < length ts" "snd (ts ! i) \<noteq> []"
    using assms(2) by (auto simp: all_done_def list_all_length split: prod.splits)
  with wait obtain l where start: "(i, l) \<in> waiting" by blast
  have "\<exists>j m. (j, m) \<in> waiting \<and> k \<le> rank m" for k
  proof (induction k)
    case (Suc k)
    then obtain j m where "(j, m) \<in> waiting" "k \<le> rank m" by blast
    from higher [OF this(1)] this(2) show ?case by (meson Suc_leI order_le_less_trans)
  qed (use start in blast)
  then obtain j m where "(j, m) \<in> waiting" "5 \<le> rank m" by blast
  then show False by (cases m) auto
qed

lemma schedule_keeps:
  "schedule is ts = Some ts' \<Longrightarrow> locks_ok ts \<Longrightarrow> locks_ok ts' \<and> steps_left ts = length is + steps_left ts'"
proof (induction "is" arbitrary: ts)
  case (Cons i "is")
  then obtain ts1 where "lock_step i ts = Some ts1" "schedule is ts1 = Some ts'" by (auto split: option.splits)
  with Cons lock_step_keeps [of ts i ts1] show ?case by auto
qed simp

lemma can_finish: "locks_ok ts \<Longrightarrow> \<exists>is ts'. schedule is ts = Some ts' \<and> all_done ts'"
proof (induction "steps_left ts" arbitrary: ts rule: less_induct)
  case less
  show ?case
  proof (cases "all_done ts")
    case True
    then show ?thesis by (intro exI [of _ "[]"] exI [of _ ts]) simp
  next
    case False
    then obtain i ts1 where i: "lock_step i ts = Some ts1" using some_step [OF less.prems] by auto
    with lock_step_keeps [OF less.prems] have "locks_ok ts1" "steps_left ts1 < steps_left ts" by fastforce+
    from less.hyps [OF this(2,1)] obtain "is" ts' where "schedule is ts1 = Some ts'" "all_done ts'" by blast
    with i show ?thesis by (intro exI [of _ "i # is"]) auto
  qed
qed

section \<open>Property\<close>

text \<open>
  C19: however many threads do whatever the agent's threads do, and in whatever order they are
  scheduled, they never deadlock: in every state that is reached either all are done or one can go
  on, and every schedule that goes on ends, with all of them done, after as many steps as there
  were actions left.
\<close>

theorem no_deadlock:
  assumes "schedule is (start acts) = Some ts"
  shows "(all_done ts \<or> (\<exists>i. lock_step i ts \<noteq> None)) \<and> length is \<le> steps_left (start acts)
    \<and> (\<exists>js ts'. schedule js ts = Some ts' \<and> all_done ts' \<and> length is + length js = steps_left (start acts))"
proof -
  have ok: "locks_ok ts" "steps_left (start acts) = length is + steps_left ts"
    using schedule_keeps [OF assms start_ok] by auto
  obtain js ts' where js: "schedule js ts = Some ts'" "all_done ts'" using can_finish [OF ok(1)] by blast
  have "map (\<lambda>t. length (snd t)) ts' = map (\<lambda>_. 0) ts'"
    using js(2) by (auto simp: all_done_def list_all_iff)
  then have "steps_left ts' = 0" unfolding steps_left_def by simp
  with schedule_keeps [OF js(1) ok(1)] have "steps_left ts = length js" by simp
  then show ?thesis using ok js some_step [OF ok(1)] by auto
qed

text \<open>A worker, a removal by the watcher and the checker, stopped in the middle.\<close>

definition demo_activities :: "activity list" where
  "demo_activities = [Invoke (Exchanged 0), Watch (Groups [Some [Removed True False True, Added False 1], None]), CheckPools [0, 1]]"

lemma demo_schedule: "schedule [1, 1, 2, 0, 2, 0, 1] (start demo_activities) \<noteq> None"
  by code_simp

theorem no_deadlock_witness:
  "\<exists>ts js ts'. schedule [1, 1, 2, 0, 2, 0, 1] (start demo_activities) = Some ts \<and> \<not> all_done ts
     \<and> schedule js ts = Some ts' \<and> all_done ts'"
proof -
  have "case schedule [1, 1, 2, 0, 2, 0, 1] (start demo_activities) of Some ts \<Rightarrow> \<not> all_done ts | None \<Rightarrow> False"
    by code_simp
  then obtain ts where ts: "schedule [1, 1, 2, 0, 2, 0, 1] (start demo_activities) = Some ts" "\<not> all_done ts"
    by (auto split: option.splits)
  from no_deadlock [OF ts(1)] ts show ?thesis by blast
qed

end
