(* ===== verification/Agent_Log.thy ===== *)
theory Agent_Log
  imports Prelude
begin

text \<open>
  soaagent/log.c and log.h: the wrapper around the zlog library, which is not part of the program:
  its functions are the fields of \<open>zlog_api\<close>, over an unknown state of the library.
\<close>

text \<open>The category struct the header copies from zlog, as far as the macros read it.\<close>

record zlog_category =
  level_bitmap :: "byte list"

record 's zlog_api =
  zlog_init :: "string \<Rightarrow> 's \<Rightarrow> int \<times> 's"
  zlog_get_category :: "string \<Rightarrow> 's \<Rightarrow> zlog_category option \<times> 's"
  zlog_fini :: "'s \<Rightarrow> 's"
  zlog_put :: "zlog_category option \<Rightarrow> nat \<Rightarrow> string \<Rightarrow> 's \<Rightarrow> 's"

record 's agent_log =
  zc :: "zlog_category option"
  log_inited :: bool
  zlog_state :: 's

definition log_init :: "'s zlog_api \<Rightarrow> string \<Rightarrow> 's agent_log \<Rightarrow> int \<times> 's agent_log" where
  "log_init api config_file_path g =
     (if log_inited g then (0, g)
      else
        let (rc, s) = zlog_init api config_file_path (zlog_state g) in
        if rc \<noteq> 0 then (-1, g\<lparr>zlog_state := s\<rparr>)
        else
          (case zlog_get_category api ''my_cat'' s of
             (None, s) \<Rightarrow> (-1, g\<lparr>zc := None, zlog_state := zlog_fini api s\<rparr>)
           | (Some c, s) \<Rightarrow> (0, g\<lparr>zc := Some c, log_inited := True, zlog_state := s\<rparr>)))"

text \<open>The bit of a level in the map of a category; outside the map there is no bit to read.\<close>

definition my_zlog_category_needless_level :: "zlog_category \<Rightarrow> nat \<Rightarrow> fault + bool" where
  "my_zlog_category_needless_level c lv =
     (if lv div 8 < length (level_bitmap c)
      then Inr (drop_bit (7 - lv mod 8) (level_bitmap c ! (lv div 8)) AND 1 = 0)
      else Inl OutOfBounds)"

text \<open>The macros \<open>DEBUG\<close> to \<open>FATAL\<close>, each with the number of its level in zlog.\<close>

definition log_macro :: "'s zlog_api \<Rightarrow> nat \<Rightarrow> string \<Rightarrow> 's agent_log \<Rightarrow> fault + 's agent_log" where
  "log_macro api lv msg g =
     (case zc g of
        None \<Rightarrow> Inr (g\<lparr>zlog_state := zlog_put api None lv msg (zlog_state g)\<rparr>)
      | Some c \<Rightarrow>
          after (my_zlog_category_needless_level c lv) (\<lambda>needless.
            Inr (if needless then g else g\<lparr>zlog_state := zlog_put api (Some c) lv msg (zlog_state g)\<rparr>)))"

text \<open>
  What libevent reports goes to the same log (server.c).  The numbers of the severities are
  libevent's, those of the levels zlog's.
\<close>

datatype severity = EVENT_LOG_DEBUG | EVENT_LOG_MSG | EVENT_LOG_WARN | EVENT_LOG_ERR | EVENT_LOG_OTHER

record zlog_levels =
  level_debug :: nat
  level_info :: nat
  level_warn :: nat
  level_error :: nat

definition my_libevent_event_log_cb ::
  "'s zlog_api \<Rightarrow> zlog_levels \<Rightarrow> severity \<Rightarrow> string \<Rightarrow> 's agent_log \<Rightarrow> fault + 's agent_log" where
  "my_libevent_event_log_cb api lv sev msg g =
     (case sev of
        EVENT_LOG_DEBUG \<Rightarrow> log_macro api (level_debug lv) (''LIBEVENT:debug :: '' @ msg) g
      | EVENT_LOG_MSG \<Rightarrow> log_macro api (level_info lv) (''LIBEVENT:info :: '' @ msg) g
      | EVENT_LOG_WARN \<Rightarrow> log_macro api (level_warn lv) (''LIBEVENT:warn :: '' @ msg) g
      | EVENT_LOG_ERR \<Rightarrow> log_macro api (level_error lv) (''LIBEVENT:error :: '' @ msg) g
      | EVENT_LOG_OTHER \<Rightarrow> log_macro api (level_debug lv) (''LIBEVENT:??? :: '' @ msg) g)"

text \<open>
  The log is initialised once: after a success neither the library nor the category is asked again,
  and a failure leaves a log that can be initialised later.
\<close>

lemma log_init_once:
  assumes "log_init api path g = (0, g')"
  shows "log_inited g' \<and> log_init api path' g' = (0, g')"
  using assms by (auto simp: log_init_def Let_def split: if_splits prod.splits option.splits)

lemma log_init_failed: "log_init api path g = (r, g') \<Longrightarrow> r \<noteq> 0 \<Longrightarrow> r = -1 \<and> \<not> log_inited g \<and> \<not> log_inited g'"
  by (auto simp: log_init_def Let_def split: if_splits prod.splits option.splits)

text \<open>With a map of 32 bytes every level of one byte is inside it, and a message goes out if its bit is set.\<close>

lemma log_macro_level:
  assumes "zc g = Some c" and "length (level_bitmap c) = 32" and "lv < 256"
  shows "log_macro api lv msg g =
    Inr (if bit (level_bitmap c ! (lv div 8)) (7 - lv mod 8)
         then g\<lparr>zlog_state := zlog_put api (Some c) lv msg (zlog_state g)\<rparr> else g)"
proof -
  have "lv div 8 < 32" using assms(3) by simp
  moreover have "drop_bit n b AND 1 = 0 \<longleftrightarrow> \<not> bit b n" for b :: byte and n
    by (simp add: bit_iff_odd_drop_bit and_one_eq even_iff_mod_2_eq_zero)
  ultimately show ?thesis
    using assms by (simp add: log_macro_def my_zlog_category_needless_level_def)
qed

end
