(* ===== verification/Uthash.thy ===== *)
theory Uthash
  imports Hash_Table
begin

text \<open>
  soaagent/uthash.h, the macros the program uses (\<open>HASH_FIND_STR\<close>, \<open>HASH_ADD_STR\<close>, \<open>HASH_DEL\<close>,
  \<open>HASH_ITER\<close>, \<open>HASH_COUNT\<close>) with the Jenkins hash and the growth of the table.  The items of a
  bucket and the items in the order of addition are lists of addresses; the counters, unsigned in C,
  are numbers, which makes a difference from \<open>2 ^ 31\<close> buckets on.  Memory is never exhausted.
  The lists of items of theory Hash_Table are the abstraction that the tables are shown to implement.
\<close>

section \<open>The Jenkins hash\<close>

definition JEN_MIX :: "u32 \<Rightarrow> u32 \<Rightarrow> u32 \<Rightarrow> u32 \<times> u32 \<times> u32" where
  "JEN_MIX a b c =
     (let a = (a - b - c) XOR drop_bit 13 c;
          b = (b - c - a) XOR push_bit 8 a;
          c = (c - a - b) XOR drop_bit 13 b;
          a = (a - b - c) XOR drop_bit 12 c;
          b = (b - c - a) XOR push_bit 16 a;
          c = (c - a - b) XOR drop_bit 5 b;
          a = (a - b - c) XOR drop_bit 3 c;
          b = (b - c - a) XOR push_bit 10 a;
          c = (c - a - b) XOR drop_bit 15 b
      in (a, b, c))"

text \<open>The byte at an index, 0 behind the end: the cases of the switch that do not apply add nothing.\<close>

definition key_byte :: "string \<Rightarrow> nat \<Rightarrow> u32" where
  "key_byte s i = (if i < length s then word_of_nat (code (s ! i)) else 0)"

definition key_word :: "string \<Rightarrow> nat \<Rightarrow> u32" where
  "key_word s i = key_byte s i + push_bit 8 (key_byte s (i + 1)) + push_bit 16 (key_byte s (i + 2)) + push_bit 24 (key_byte s (i + 3))"

function jen_loop :: "string \<Rightarrow> u32 \<Rightarrow> u32 \<Rightarrow> u32 \<Rightarrow> string \<times> u32 \<times> u32 \<times> u32" where
  "jen_loop s i j h =
     (if 12 \<le> length s
      then (let (i, j, h) = JEN_MIX (i + key_word s 0) (j + key_word s 4) (h + key_word s 8) in jen_loop (drop 12 s) i j h)
      else (s, i, j, h))"
  by pat_completeness auto
termination by (relation "measure (\<lambda>(s, i, j, h). length s)") auto

declare jen_loop.simps [simp del]

definition HASH_JEN :: "string \<Rightarrow> u32" where
  "HASH_JEN key =
     (let (s, i, j, h) = jen_loop key 0x9e3779b9 0x9e3779b9 0xfeedbeef;
          h = h + word_of_nat (length key);
          h = h + push_bit 24 (key_byte s 10) + push_bit 16 (key_byte s 9) + push_bit 8 (key_byte s 8);
          (_, _, hashv) = JEN_MIX (i + key_word s 0) (j + key_word s 4) h
      in hashv)"

section \<open>Tables\<close>

definition HASH_INITIAL_NUM_BUCKETS :: nat where "HASH_INITIAL_NUM_BUCKETS = 32"
definition HASH_INITIAL_NUM_BUCKETS_LOG2 :: nat where "HASH_INITIAL_NUM_BUCKETS_LOG2 = 5"
definition HASH_BKT_CAPACITY_THRESH :: nat where "HASH_BKT_CAPACITY_THRESH = 10"

text \<open>The handle of an item with the value its struct holds, at an address.\<close>

record 'v ut_item =
  hh_key :: string
  hh_hashv :: u32
  hh_value :: 'v

record ut_bucket =
  chain :: "nat list"
  bkt_count :: nat
  expand_mult :: nat

record ut_table =
  ut_buckets :: "ut_bucket list"
  num_buckets :: nat
  log2_num_buckets :: nat
  num_items :: nat
  app_order :: "nat list"
  ideal_chain_maxlen :: nat
  nonideal_items :: nat
  ineff_expands :: nat
  noexpand :: bool

text \<open>The memory of the items, the next free address, and the head pointer with the table behind it.\<close>

record 'v uthash =
  ut_next :: nat
  ut_item :: "nat \<Rightarrow> 'v ut_item"
  ut_head :: "ut_table option"

definition HASH_TO_BKT :: "u32 \<Rightarrow> nat \<Rightarrow> nat" where
  "HASH_TO_BKT hashv num_bkts = unat hashv AND (num_bkts - 1)"

definition empty_bucket :: ut_bucket where
  "empty_bucket = \<lparr>chain = [], bkt_count = 0, expand_mult = 0\<rparr>"

definition HASH_MAKE_TABLE :: ut_table where
  "HASH_MAKE_TABLE = \<lparr>ut_buckets = replicate HASH_INITIAL_NUM_BUCKETS empty_bucket,
     num_buckets = HASH_INITIAL_NUM_BUCKETS, log2_num_buckets = HASH_INITIAL_NUM_BUCKETS_LOG2, num_items = 0,
     app_order = [], ideal_chain_maxlen = 0, nonideal_items = 0, ineff_expands = 0, noexpand = False\<rparr>"

section \<open>Growth\<close>

text \<open>One item moves to the head of its new bucket.\<close>

definition move_item ::
  "(nat \<Rightarrow> 'v ut_item) \<Rightarrow> nat \<Rightarrow> nat \<Rightarrow> nat \<Rightarrow> ut_bucket list \<times> nat \<Rightarrow> ut_bucket list \<times> nat" where
  "move_item it n ideal thh = (\<lambda>(bs, nonideal).
     let i = HASH_TO_BKT (hh_hashv (it thh)) n; b = bs ! i; c = bkt_count b + 1; over = ideal < c in
     (bs[i := b\<lparr>chain := thh # chain b, bkt_count := c, expand_mult := (if over then c div ideal else expand_mult b)\<rparr>],
      if over then nonideal + 1 else nonideal))"

definition HASH_EXPAND_BUCKETS :: "(nat \<Rightarrow> 'v ut_item) \<Rightarrow> ut_table \<Rightarrow> ut_table" where
  "HASH_EXPAND_BUCKETS it t =
     (let n = 2 * num_buckets t;
          ideal = drop_bit (log2_num_buckets t + 1) (num_items t) + (if num_items t AND (n - 1) \<noteq> 0 then 1 else 0);
          (bs, nonideal) = fold (move_item it n ideal) (concat (map chain (ut_buckets t))) (replicate n empty_bucket, 0);
          ineff = (if nonideal > drop_bit 1 (num_items t) then ineff_expands t + 1 else 0)
      in t\<lparr>ut_buckets := bs, num_buckets := n, log2_num_buckets := log2_num_buckets t + 1, ideal_chain_maxlen := ideal,
           nonideal_items := nonideal, ineff_expands := ineff, noexpand := noexpand t \<or> ineff > 1\<rparr>)"

section \<open>The macros\<close>

definition HASH_ADD_TO_BKT :: "(nat \<Rightarrow> 'v ut_item) \<Rightarrow> nat \<Rightarrow> nat \<Rightarrow> ut_table \<Rightarrow> ut_table" where
  "HASH_ADD_TO_BKT it i addhh t =
     (let b = ut_buckets t ! i; b = b\<lparr>bkt_count := bkt_count b + 1, chain := addhh # chain b\<rparr>;
          t = t\<lparr>ut_buckets := (ut_buckets t)[i := b]\<rparr>
      in if bkt_count b \<ge> (expand_mult b + 1) * HASH_BKT_CAPACITY_THRESH \<and> \<not> noexpand t
         then HASH_EXPAND_BUCKETS it t else t)"

definition HASH_FIND_IN_BKT :: "(nat \<Rightarrow> 'v ut_item) \<Rightarrow> nat list \<Rightarrow> string \<Rightarrow> nat option" where
  "HASH_FIND_IN_BKT it hhs key = List.find (\<lambda>out. length (hh_key (it out)) = length key \<and> hh_key (it out) = key) hhs"

definition HASH_FIND_STR :: "'v uthash \<Rightarrow> string \<Rightarrow> nat option" where
  "HASH_FIND_STR s findstr =
     (case ut_head s of
        None \<Rightarrow> None
      | Some t \<Rightarrow> HASH_FIND_IN_BKT (ut_item s)
          (chain (ut_buckets t ! HASH_TO_BKT (HASH_JEN findstr) (num_buckets t))) findstr)"

text \<open>\<open>HASH_ADD_STR\<close> of a struct that has just been allocated and filled in.\<close>

definition HASH_ADD_STR :: "string \<Rightarrow> 'v \<Rightarrow> 'v uthash \<Rightarrow> 'v uthash" where
  "HASH_ADD_STR key v s =
     (let a = ut_next s; hashv = HASH_JEN key;
          it = (ut_item s)(a := \<lparr>hh_key = key, hh_hashv = hashv, hh_value = v\<rparr>);
          t = (case ut_head s of None \<Rightarrow> HASH_MAKE_TABLE | Some t \<Rightarrow> t);
          t = t\<lparr>app_order := app_order t @ [a], num_items := num_items t + 1\<rparr>
      in \<lparr>ut_next = a + 1, ut_item = it,
          ut_head = Some (HASH_ADD_TO_BKT it (HASH_TO_BKT hashv (num_buckets t)) a t)\<rparr>)"

text \<open>The first test asks for an item without neighbours: the table goes with its last item.\<close>

definition HASH_DEL :: "nat \<Rightarrow> 'v uthash \<Rightarrow> 'v uthash" where
  "HASH_DEL delptr s =
     (case ut_head s of
        None \<Rightarrow> s
      | Some t \<Rightarrow>
          if app_order t = [delptr] then s\<lparr>ut_head := None\<rparr>
          else
            let i = HASH_TO_BKT (hh_hashv (ut_item s delptr)) (num_buckets t); b = ut_buckets t ! i
            in s\<lparr>ut_head := Some (t\<lparr>app_order := remove1 delptr (app_order t),
                   ut_buckets := (ut_buckets t)[i := b\<lparr>bkt_count := bkt_count b - 1, chain := remove1 delptr (chain b)\<rparr>],
                   num_items := num_items t - 1\<rparr>)\<rparr>)"

definition HASH_ITER :: "'v uthash \<Rightarrow> nat list" where
  "HASH_ITER s = (case ut_head s of None \<Rightarrow> [] | Some t \<Rightarrow> app_order t)"

definition HASH_COUNT :: "'v uthash \<Rightarrow> nat" where
  "HASH_COUNT s = (case ut_head s of None \<Rightarrow> 0 | Some t \<Rightarrow> num_items t)"

section \<open>Buckets\<close>

text \<open>Every item of a set hangs in the bucket its hash value selects, once, and is counted there.\<close>

definition buckets_hold :: "(nat \<Rightarrow> 'v ut_item) \<Rightarrow> nat \<Rightarrow> nat set \<Rightarrow> ut_bucket list \<Rightarrow> bool" where
  "buckets_hold it n A bs \<longleftrightarrow> length bs = n \<and>
     (\<forall>i<n. distinct (chain (bs ! i)) \<and> bkt_count (bs ! i) = length (chain (bs ! i)) \<and>
            set (chain (bs ! i)) = {a \<in> A. HASH_TO_BKT (hh_hashv (it a)) n = i})"

lemma HASH_TO_BKT_mod: "HASH_TO_BKT h (2 ^ k) = unat h mod 2 ^ k"
  by (simp add: HASH_TO_BKT_def take_bit_eq_mask mask_eq_exp_minus_1 flip: take_bit_eq_mod)

lemma HASH_TO_BKT_less: "n = 2 ^ k \<Longrightarrow> HASH_TO_BKT h n < n"
  by (simp add: HASH_TO_BKT_mod)

lemma buckets_hold_empty: "buckets_hold it n {} (replicate n empty_bucket)"
  by (simp add: buckets_hold_def empty_bucket_def)

lemma buckets_hold_length: "buckets_hold it n A bs \<Longrightarrow> length bs = n"
  by (simp add: buckets_hold_def)

lemma buckets_holdD:
  assumes "buckets_hold it n A bs" and "i < n"
  shows "distinct (chain (bs ! i))" and "bkt_count (bs ! i) = length (chain (bs ! i))"
    and "set (chain (bs ! i)) = {a \<in> A. HASH_TO_BKT (hh_hashv (it a)) n = i}"
  using assms by (simp_all add: buckets_hold_def)

lemma buckets_hold_insert:
  assumes hold: "buckets_hold it n A bs" and "a \<notin> A" and i: "HASH_TO_BKT (hh_hashv (it a)) n = i" "i < n"
    and b: "chain b = a # chain (bs ! i)" "bkt_count b = bkt_count (bs ! i) + 1"
  shows "buckets_hold it n (insert a A) (bs[i := b])"
  using assms by (auto simp: buckets_hold_def nth_list_update)

lemma buckets_hold_remove:
  assumes hold: "buckets_hold it n A bs" and "a \<in> A" and i: "HASH_TO_BKT (hh_hashv (it a)) n = i" "i < n"
    and b: "chain b = remove1 a (chain (bs ! i))" "bkt_count b = bkt_count (bs ! i) - 1"
  shows "buckets_hold it n (A - {a}) (bs[i := b])"
proof -
  have "a \<in> set (chain (bs ! i))" and "distinct (chain (bs ! i))"
    using buckets_holdD [OF hold i(2)] \<open>a \<in> A\<close> i(1) by auto
  then have "distinct (chain b)" "bkt_count b = length (chain b)" "set (chain b) = set (chain (bs ! i)) - {a}"
    using buckets_holdD(2) [OF hold i(2)] b by (simp_all add: length_remove1)
  then show ?thesis using hold i by (auto simp: buckets_hold_def nth_list_update)
qed

text \<open>What the buckets hold depends on the hash values of the items in them only.\<close>

lemma buckets_hold_cong:
  "buckets_hold it n A bs \<Longrightarrow> (\<And>a. a \<in> A \<Longrightarrow> hh_hashv (it' a) = hh_hashv (it a)) \<Longrightarrow> buckets_hold it' n A bs"
  by (auto simp: buckets_hold_def)

lemma buckets_hold_moves:
  assumes "n = 2 ^ k"
  shows "buckets_hold it n A bs \<Longrightarrow> distinct xs \<Longrightarrow> set xs \<inter> A = {} \<Longrightarrow>
    buckets_hold it n (A \<union> set xs) (fst (fold (move_item it n ideal) xs (bs, c)))"
proof (induction xs arbitrary: A bs c)
  case (Cons x xs)
  obtain bs' c' where m: "move_item it n ideal x (bs, c) = (bs', c')" by force
  have "buckets_hold it n (insert x A) (fst (move_item it n ideal x (bs, c)))"
    using Cons.prems HASH_TO_BKT_less [OF assms, of "hh_hashv (it x)"]
    by (simp add: move_item_def Let_def buckets_hold_insert)
  with m Cons.IH [of "insert x A" bs' c'] Cons.prems show ?case by simp
qed simp

lemma distinct_concat_disjoint:
  "\<forall>i < length cs. distinct (cs ! i) \<and> (\<forall>x \<in> set (cs ! i). f x = i + d) \<Longrightarrow> distinct (concat cs)"
proof (induction cs arbitrary: d)
  case (Cons c cs)
  have tail: "\<forall>i < length cs. distinct (cs ! i) \<and> (\<forall>x \<in> set (cs ! i). f x = i + Suc d)"
    using Cons.prems by (metis Suc_less_eq add_Suc_shift length_Cons nth_Cons_Suc)
  have "f x \<ge> Suc d" if x: "x \<in> set (concat cs)" for x
  proof -
    from x obtain c' where "c' \<in> set cs" and "x \<in> set c'" by auto
    then obtain i where "i < length cs" and "x \<in> set (cs ! i)" by (metis in_set_conv_nth)
    with tail show ?thesis by simp
  qed
  moreover have "distinct c" "\<forall>x \<in> set c. f x = d" using Cons.prems by force+
  ultimately show ?case using Cons.IH [OF tail] by fastforce
qed simp

lemma buckets_hold_concat:
  assumes hold: "buckets_hold it n A bs" and n: "n = 2 ^ k"
  shows "distinct (concat (map chain bs))" and "set (concat (map chain bs)) = A"
proof -
  show "distinct (concat (map chain bs))"
    using hold by (intro distinct_concat_disjoint [where f = "\<lambda>a. HASH_TO_BKT (hh_hashv (it a)) n" and d = 0])
      (auto simp: buckets_hold_def)
  show "set (concat (map chain bs)) = A"
  proof (intro equalityI subsetI)
    fix a assume "a \<in> set (concat (map chain bs))"
    then obtain b where "b \<in> set bs" and a: "a \<in> set (chain b)" by auto
    then obtain i where i: "i < length bs" and "bs ! i = b" by (auto simp: in_set_conv_nth)
    with a show "a \<in> A" using buckets_holdD(3) [OF hold, of i] buckets_hold_length [OF hold] by simp
  next
    fix a assume a: "a \<in> A"
    have i: "HASH_TO_BKT (hh_hashv (it a)) n < n" by (rule HASH_TO_BKT_less [OF n])
    with a have "a \<in> set (chain (bs ! HASH_TO_BKT (hh_hashv (it a)) n))"
      using buckets_holdD(3) [OF hold i] by simp
    with i show "a \<in> set (concat (map chain bs))"
      using buckets_hold_length [OF hold] nth_mem [of _ bs] by auto
  qed
qed

section \<open>Well-formed tables\<close>

definition table_ok :: "(nat \<Rightarrow> 'v ut_item) \<Rightarrow> ut_table \<Rightarrow> bool" where
  "table_ok it t \<longleftrightarrow> num_buckets t = 2 ^ log2_num_buckets t \<and>
     buckets_hold it (num_buckets t) (set (app_order t)) (ut_buckets t) \<and>
     num_items t = length (app_order t) \<and> distinct (app_order t)"

lemma table_okD:
  assumes "table_ok it t"
  shows "num_buckets t = 2 ^ log2_num_buckets t"
    and "buckets_hold it (num_buckets t) (set (app_order t)) (ut_buckets t)"
    and "num_items t = length (app_order t)" and "distinct (app_order t)"
  using assms unfolding table_ok_def by blast+

lemma HASH_EXPAND_fields [simp]:
  "app_order (HASH_EXPAND_BUCKETS it t) = app_order t"
  "num_items (HASH_EXPAND_BUCKETS it t) = num_items t"
  "num_buckets (HASH_EXPAND_BUCKETS it t) = 2 * num_buckets t"
  "log2_num_buckets (HASH_EXPAND_BUCKETS it t) = log2_num_buckets t + 1"
  by (simp_all add: HASH_EXPAND_BUCKETS_def Let_def case_prod_unfold)

lemma HASH_EXPAND_ok [inv_intros]:
  assumes ok: "table_ok it t"
  shows "table_ok it (HASH_EXPAND_BUCKETS it t)"
proof -
  note bs = buckets_hold_concat [OF table_okD(2) [OF ok] table_okD(1) [OF ok]]
  have "2 * num_buckets t = 2 ^ (log2_num_buckets t + 1)" using table_okD(1) [OF ok] by simp
  then have "buckets_hold it (2 * num_buckets t) ({} \<union> set (concat (map chain (ut_buckets t))))
      (fst (fold (move_item it (2 * num_buckets t) ideal) (concat (map chain (ut_buckets t)))
         (replicate (2 * num_buckets t) empty_bucket, 0)))" for ideal
    by (rule buckets_hold_moves [OF _ buckets_hold_empty]) (use bs in auto)
  then have "buckets_hold it (2 * num_buckets t) (set (app_order t)) (ut_buckets (HASH_EXPAND_BUCKETS it t))"
    unfolding bs(2) HASH_EXPAND_BUCKETS_def Let_def by (simp add: case_prod_unfold)
  then show ?thesis using ok by (simp add: table_ok_def)
qed

text \<open>
  The shift and the mask compute the ceiling of items by buckets, as the comment above the macro says;
  it is not 0, the divisor of \<open>expand_mult\<close>, because the table grows when an item has been added.
\<close>

lemma ceiling_shift: "drop_bit k n + (if n AND (2 ^ k - 1) \<noteq> 0 then 1 else 0) = (n + 2 ^ k - 1) div (2 ^ k :: nat)"
proof -
  have "n AND (2 ^ k - 1) = n mod 2 ^ k" by (simp add: take_bit_eq_mask mask_eq_exp_minus_1 flip: take_bit_eq_mod)
  moreover have "(n + b - 1) div b = n div b + (if n mod b \<noteq> 0 then 1 else 0)" if "0 < b" for b :: nat
  proof -
    have "n + b - 1 = n mod b + b - 1 + n div b * b" using that by simp
    then have "(n + b - 1) div b = (n mod b + b - 1) div b + n div b" using that by (metis add.commute div_mult_self3 less_irrefl)
    moreover have "(n mod b + b - 1) div b = (if n mod b \<noteq> 0 then 1 else 0)"
    proof (cases "n mod b")
      case (Suc m)
      then have "n mod b + b - 1 = m + b" "m < b" using mod_less_divisor [OF that, of n] by auto
      with Suc that div_add_self2 [of b m] show ?thesis by simp
    qed (use that in simp)
    ultimately show ?thesis by simp
  qed
  ultimately show ?thesis by (simp add: drop_bit_eq_div)
qed

lemma ideal_chain_maxlen_ceiling:
  assumes "table_ok it t" and "0 < num_items t"
  shows "ideal_chain_maxlen (HASH_EXPAND_BUCKETS it t) = (num_items t + 2 * num_buckets t - 1) div (2 * num_buckets t)"
    and "0 < ideal_chain_maxlen (HASH_EXPAND_BUCKETS it t)"
proof -
  have "2 * num_buckets t = 2 ^ (log2_num_buckets t + 1)" using table_okD(1) [OF assms(1)] by simp
  then show eq: "ideal_chain_maxlen (HASH_EXPAND_BUCKETS it t) = (num_items t + 2 * num_buckets t - 1) div (2 * num_buckets t)"
    using ceiling_shift [of "log2_num_buckets t + 1" "num_items t"]
    by (simp only: HASH_EXPAND_BUCKETS_def Let_def case_prod_unfold) simp
  show "0 < ideal_chain_maxlen (HASH_EXPAND_BUCKETS it t)"
    unfolding eq using assms(2) table_okD(1) [OF assms(1)] by (simp add: div_greater_zero_iff)
qed

lemma HASH_ADD_TO_BKT_ok:
  assumes "buckets_hold it (num_buckets t) A (ut_buckets t)" and "num_buckets t = 2 ^ log2_num_buckets t"
    and "app_order t = as @ [a]" and "set as = A" and "distinct (app_order t)" and "num_items t = length (app_order t)"
    and i: "HASH_TO_BKT (hh_hashv (it a)) (num_buckets t) = i"
  shows "table_ok it (HASH_ADD_TO_BKT it i a t)" and "app_order (HASH_ADD_TO_BKT it i a t) = app_order t"
proof -
  let ?b = "ut_buckets t ! i"
  let ?t = "t\<lparr>ut_buckets := (ut_buckets t)[i := ?b\<lparr>bkt_count := bkt_count ?b + 1, chain := a # chain ?b\<rparr>]\<rparr>"
  have "i < num_buckets t" using HASH_TO_BKT_less [OF assms(2)] i by auto
  with assms have "table_ok it ?t" by (auto simp: table_ok_def intro!: buckets_hold_insert)
  then show "table_ok it (HASH_ADD_TO_BKT it i a t)" by (simp add: HASH_ADD_TO_BKT_def Let_def HASH_EXPAND_ok)
  show "app_order (HASH_ADD_TO_BKT it i a t) = app_order t" by (simp add: HASH_ADD_TO_BKT_def Let_def)
qed

text \<open>
  The items in the order of addition: linked to the table, below the next free address, with the hash
  value of their key, and with different keys, because every client looks a key up before it adds it
  (the mapping does so too, but cuts a key that is too long between the two: \<open>long_group_never_found\<close>).
  Only then the order of a chain, which a doubling reverses, cannot be seen.
\<close>

definition ut_ok :: "'v uthash \<Rightarrow> bool" where
  "ut_ok s \<longleftrightarrow> (\<forall>t. ut_head s = Some t \<longrightarrow> table_ok (ut_item s) t \<and> app_order t \<noteq> []) \<and>
     (\<forall>a \<in> set (HASH_ITER s). a < ut_next s \<and> hh_hashv (ut_item s a) = HASH_JEN (hh_key (ut_item s a))) \<and>
     inj_on (\<lambda>a. hh_key (ut_item s a)) (set (HASH_ITER s))"

definition ut_empty :: "'v uthash" where
  "ut_empty = \<lparr>ut_next = 0, ut_item = (\<lambda>_. undefined), ut_head = None\<rparr>"

definition ut_entry :: "'v uthash \<Rightarrow> nat \<Rightarrow> string \<times> 'v" where
  "ut_entry s a = (hh_key (ut_item s a), hh_value (ut_item s a))"

definition ut_list :: "'v uthash \<Rightarrow> 'v htab" where
  "ut_list s = rev (map (ut_entry s) (HASH_ITER s))"

lemma ut_ok_empty [simp]: "ut_ok ut_empty" and ut_list_empty [simp]: "ut_list ut_empty = []"
  by (simp_all add: ut_ok_def ut_empty_def ut_list_def HASH_ITER_def)

lemma ut_okD:
  assumes "ut_ok s"
  shows "ut_head s = Some t \<Longrightarrow> table_ok (ut_item s) t"
    and "ut_head s = Some t \<Longrightarrow> app_order t \<noteq> []"
    and "a \<in> set (HASH_ITER s) \<Longrightarrow> a < ut_next s"
    and "a \<in> set (HASH_ITER s) \<Longrightarrow> hh_hashv (ut_item s a) = HASH_JEN (hh_key (ut_item s a))"
    and "inj_on (\<lambda>a. hh_key (ut_item s a)) (set (HASH_ITER s))"
  using assms unfolding ut_ok_def by blast+

lemma HASH_ITER_distinct: "ut_ok s \<Longrightarrow> distinct (HASH_ITER s)"
  by (auto simp: HASH_ITER_def dest: ut_okD(1) table_okD(4) split: option.split)

lemma HASH_COUNT_iter: "ut_ok s \<Longrightarrow> HASH_COUNT s = length (HASH_ITER s)"
  by (auto simp: HASH_COUNT_def HASH_ITER_def dest: ut_okD(1) table_okD(3) split: option.split)

lemma HASH_FIND_IN_BKT_SomeD:
  "HASH_FIND_IN_BKT it hhs k = Some a \<Longrightarrow> a \<in> set hhs \<and> hh_key (it a) = k"
  by (auto simp: HASH_FIND_IN_BKT_def find_Some_iff)

lemma HASH_FIND_IN_BKT_None: "HASH_FIND_IN_BKT it hhs k = None \<longleftrightarrow> (\<forall>a \<in> set hhs. hh_key (it a) \<noteq> k)"
  by (auto simp: HASH_FIND_IN_BKT_def find_None_iff)

text \<open>A look-up reads one bucket only, and that is where the key is, if anywhere.\<close>

lemma HASH_FIND_STR_Some:
  assumes ok: "ut_ok s"
  shows "HASH_FIND_STR s k = Some a \<longleftrightarrow> a \<in> set (HASH_ITER s) \<and> hh_key (ut_item s a) = k"
proof (cases "ut_head s")
  case None
  then show ?thesis by (simp add: HASH_FIND_STR_def HASH_ITER_def)
next
  case (Some t)
  let ?i = "HASH_TO_BKT (HASH_JEN k) (num_buckets t)" and ?A = "set (HASH_ITER s)"
  have t: "table_ok (ut_item s) t" by (rule ut_okD(1) [OF ok Some])
  have iter: "app_order t = HASH_ITER s" using Some by (simp add: HASH_ITER_def)
  have chain: "set (chain (ut_buckets t ! ?i)) = {a \<in> ?A. HASH_TO_BKT (hh_hashv (ut_item s a)) (num_buckets t) = ?i}"
    using buckets_holdD(3) [OF table_okD(2) [OF t] HASH_TO_BKT_less [OF table_okD(1) [OF t]]] iter by simp
  have find: "HASH_FIND_STR s k = HASH_FIND_IN_BKT (ut_item s) (chain (ut_buckets t ! ?i)) k"
    using Some by (simp add: HASH_FIND_STR_def)
  show ?thesis
  proof
    assume "HASH_FIND_STR s k = Some a"
    then show "a \<in> ?A \<and> hh_key (ut_item s a) = k"
      using HASH_FIND_IN_BKT_SomeD [of "ut_item s" _ k a] find chain by auto
  next
    assume a: "a \<in> ?A \<and> hh_key (ut_item s a) = k"
    then have "a \<in> set (chain (ut_buckets t ! ?i))" using ut_okD(4) [OF ok, of a] chain by auto
    then obtain b where b: "HASH_FIND_STR s k = Some b"
      using HASH_FIND_IN_BKT_None [of "ut_item s" "chain (ut_buckets t ! ?i)" k] find a by fastforce
    then have "b \<in> ?A" "hh_key (ut_item s b) = k"
      using HASH_FIND_IN_BKT_SomeD [of "ut_item s" _ k b] find chain by auto
    then have "b = a" using a inj_onD [OF ut_okD(5) [OF ok], of b a] by simp
    with b show "HASH_FIND_STR s k = Some a" by simp
  qed
qed

lemma HASH_FIND_STR_None:
  assumes "ut_ok s"
  shows "HASH_FIND_STR s k = None \<longleftrightarrow> (\<forall>a \<in> set (HASH_ITER s). hh_key (ut_item s a) \<noteq> k)"
  using HASH_FIND_STR_Some [OF assms, of k] by (cases "HASH_FIND_STR s k") auto

lemma hash_ok_ut_list: "ut_ok s \<Longrightarrow> hash_ok (ut_list s)"
  using HASH_ITER_distinct [of s] ut_okD(5) [of s]
  by (simp add: hash_ok_def ut_list_def rev_map [symmetric] distinct_map ut_entry_def o_def)

lemma find_ut_list:
  assumes ok: "ut_ok s"
  shows "map_option (\<lambda>a. hh_value (ut_item s a)) (HASH_FIND_STR s k) = hash_find (ut_list s) k"
proof (cases "HASH_FIND_STR s k")
  case None
  then have "k \<notin> fst ` set (ut_list s)"
    using HASH_FIND_STR_None [OF ok, of k] by (auto simp: ut_list_def ut_entry_def)
  with None show ?thesis using hash_find_None [of "ut_list s" k] by simp
next
  case (Some a)
  then have "(k, hh_value (ut_item s a)) \<in> set (ut_list s)"
    using HASH_FIND_STR_Some [OF ok, of k a] by (auto simp: ut_list_def ut_entry_def)
  then have "hash_find (ut_list s) k = Some (hh_value (ut_item s a))"
    using hash_find_in [OF hash_ok_ut_list [OF ok]] by blast
  with Some show ?thesis by simp
qed

section \<open>The clients' operations\<close>

text \<open>Look a key up and write through the item found, or add a new item; look a key up and delete its item.\<close>

definition ut_put :: "string \<Rightarrow> 'v \<Rightarrow> 'v uthash \<Rightarrow> 'v uthash" where
  "ut_put k v s = (case HASH_FIND_STR s k of
     None \<Rightarrow> HASH_ADD_STR k v s
   | Some a \<Rightarrow> s\<lparr>ut_item := (ut_item s)(a := (ut_item s a)\<lparr>hh_value := v\<rparr>)\<rparr>)"

definition ut_remove :: "string \<Rightarrow> 'v uthash \<Rightarrow> 'v uthash" where
  "ut_remove k s = (case HASH_FIND_STR s k of None \<Rightarrow> s | Some a \<Rightarrow> HASH_DEL a s)"

definition ut_find :: "'v uthash \<Rightarrow> string \<Rightarrow> 'v option" where
  "ut_find s k = map_option (\<lambda>a. hh_value (ut_item s a)) (HASH_FIND_STR s k)"

lemma HASH_ADD_STR_spec:
  assumes ok: "ut_ok s" and new: "HASH_FIND_STR s k = None"
  shows "ut_ok (HASH_ADD_STR k v s)" and "ut_list (HASH_ADD_STR k v s) = (k, v) # ut_list s"
proof -
  define a it where "a = ut_next s" and "it = (ut_item s)(a := \<lparr>hh_key = k, hh_hashv = HASH_JEN k, hh_value = v\<rparr>)"
  define t where "t = (case ut_head s of None \<Rightarrow> HASH_MAKE_TABLE | Some t \<Rightarrow> t)"
  define t1 where "t1 = t\<lparr>app_order := app_order t @ [a], num_items := num_items t + 1\<rparr>"
  define t2 where "t2 = HASH_ADD_TO_BKT it (HASH_TO_BKT (HASH_JEN k) (num_buckets t1)) a t1"
  have s': "HASH_ADD_STR k v s = \<lparr>ut_next = a + 1, ut_item = it, ut_head = Some t2\<rparr>"
    by (simp add: HASH_ADD_STR_def a_def it_def t_def t1_def t2_def Let_def)
  have old: "app_order t = HASH_ITER s" "table_ok (ut_item s) t"
    using buckets_hold_empty [of "ut_item s" 32] ut_okD(1) [OF ok]
    by (auto simp: t_def HASH_ITER_def HASH_MAKE_TABLE_def table_ok_def HASH_INITIAL_NUM_BUCKETS_def
        HASH_INITIAL_NUM_BUCKETS_LOG2_def split: option.split)
  have fresh: "a \<notin> set (HASH_ITER s)" using ut_okD(3) [OF ok, of a] by (auto simp: a_def)
  then have it: "b \<in> set (HASH_ITER s) \<Longrightarrow> it b = ut_item s b" for b by (auto simp: it_def)
  have "buckets_hold it (num_buckets t1) (set (HASH_ITER s)) (ut_buckets t1)"
    using buckets_hold_cong [OF table_okD(2) [OF old(2)], of it] old(1) it by (simp add: t1_def)
  moreover have "num_buckets t1 = 2 ^ log2_num_buckets t1" using table_okD(1) [OF old(2)] by (simp add: t1_def)
  moreover have "app_order t1 = HASH_ITER s @ [a]" using old(1) by (simp add: t1_def)
  moreover have "num_items t1 = length (app_order t1)" using table_okD(3) [OF old(2)] by (simp add: t1_def)
  moreover have "hh_hashv (it a) = HASH_JEN k" by (simp add: it_def)
  ultimately have t2: "table_ok it t2" "app_order t2 = HASH_ITER s @ [a]"
    using HASH_ADD_TO_BKT_ok [of it t1 "set (HASH_ITER s)" "HASH_ITER s" a] HASH_ITER_distinct [OF ok] fresh
    by (simp_all add: t2_def)
  have iter: "HASH_ITER (HASH_ADD_STR k v s) = HASH_ITER s @ [a]" by (simp add: s' HASH_ITER_def t2(2))
  have keys: "\<forall>b \<in> set (HASH_ITER s). hh_key (ut_item s b) \<noteq> k" using new HASH_FIND_STR_None [OF ok] by simp
  have "inj_on (\<lambda>b. hh_key (it b)) (set (HASH_ITER s) \<union> {a})"
    using ut_okD(5) [OF ok] keys it by (auto simp: inj_on_def it_def)
  moreover have "b \<in> set (HASH_ITER s) \<Longrightarrow> b < a + 1 \<and> hh_hashv (it b) = HASH_JEN (hh_key (it b))" for b
    using ut_okD(3,4) [OF ok, of b] it [of b] by (auto simp: a_def)
  ultimately show "ut_ok (HASH_ADD_STR k v s)"
    using t2 unfolding ut_ok_def iter by (auto simp: s' it_def)
  have "map (ut_entry (HASH_ADD_STR k v s)) (HASH_ITER s) = map (ut_entry s) (HASH_ITER s)"
    using it by (simp add: ut_entry_def s')
  then show "ut_list (HASH_ADD_STR k v s) = (k, v) # ut_list s"
    unfolding ut_list_def iter by (simp add: ut_entry_def s' it_def)
qed

text \<open>Writing the value of an item.\<close>

lemma write_value_spec:
  assumes ok: "ut_ok s" and a: "a \<in> set (HASH_ITER s)" and k: "hh_key (ut_item s a) = k"
    and s': "s' = s\<lparr>ut_item := (ut_item s)(a := (ut_item s a)\<lparr>hh_value := v\<rparr>)\<rparr>"
  shows "ut_ok s'" and "ut_list s' = hash_upd k v (ut_list s)"
proof -
  have same: "hh_key (ut_item s' b) = hh_key (ut_item s b)" "hh_hashv (ut_item s' b) = hh_hashv (ut_item s b)" for b
    by (simp_all add: s')
  have iter: "HASH_ITER s' = HASH_ITER s" and "ut_head s' = ut_head s" and "ut_next s' = ut_next s"
    by (simp_all add: s' HASH_ITER_def)
  moreover have "table_ok (ut_item s') t" if "table_ok (ut_item s) t" for t
    using that buckets_hold_cong [OF table_okD(2) [OF that], of "ut_item s'"] by (simp add: same table_ok_def)
  ultimately show "ut_ok s'" using ok by (simp add: ut_ok_def same)
  have "map (ut_entry s') as = rev (hash_upd k v (rev (map (ut_entry s) as)))"
    if "set as \<subseteq> set (HASH_ITER s)" "distinct as" for as
    using that
  proof (induction as rule: rev_induct)
    case (snoc b as)
    have upd: "map (ut_entry s') as = map (ut_entry s) as" if "b = a"
      using snoc.prems that by (auto simp: ut_entry_def s')
    show ?case
    proof (cases "b = a")
      case True
      then show ?thesis using upd k by (simp add: ut_entry_def s')
    next
      case False
      then have "hh_key (ut_item s b) \<noteq> k"
        using inj_onD [OF ut_okD(5) [OF ok], of b a] snoc.prems(1) a k by auto
      with False snoc show ?thesis by (simp add: ut_entry_def s')
    qed
  qed simp
  then show "ut_list s' = hash_upd k v (ut_list s)"
    using HASH_ITER_distinct [OF ok] by (simp add: ut_list_def iter)
qed

lemma hash_del_remove:
  "distinct (map fst t) \<Longrightarrow> hash_del k t = filter (\<lambda>e. fst e \<noteq> k) t"
proof (induction k t rule: hash_del.induct)
  case (2 k a w t)
  have "filter (\<lambda>e. fst e \<noteq> k) t = t" if "a = k" using 2 that by (auto simp: filter_id_conv)
  with 2 show ?case by auto
qed simp

lemma HASH_DEL_spec:
  assumes ok: "ut_ok s" and a: "a \<in> set (HASH_ITER s)" and k: "hh_key (ut_item s a) = k"
  shows "ut_ok (HASH_DEL a s)" and "ut_list (HASH_DEL a s) = hash_del k (ut_list s)"
proof -
  obtain t where t: "ut_head s = Some t" using a by (cases "ut_head s") (auto simp: HASH_ITER_def)
  have iter: "app_order t = HASH_ITER s" using t by (simp add: HASH_ITER_def)
  have tok: "table_ok (ut_item s) t" by (rule ut_okD(1) [OF ok t])
  define i where "i = HASH_TO_BKT (hh_hashv (ut_item s a)) (num_buckets t)"
  define b where "b = (ut_buckets t ! i)\<lparr>bkt_count := bkt_count (ut_buckets t ! i) - 1,
      chain := remove1 a (chain (ut_buckets t ! i))\<rparr>"
  define t' where "t' = t\<lparr>app_order := remove1 a (app_order t), ut_buckets := (ut_buckets t)[i := b],
      num_items := num_items t - 1\<rparr>"
  have del: "HASH_DEL a s = (if app_order t = [a] then s\<lparr>ut_head := None\<rparr> else s\<lparr>ut_head := Some t'\<rparr>)"
    by (simp add: HASH_DEL_def t Let_def i_def b_def t'_def)
  then have iter': "HASH_ITER (HASH_DEL a s) = remove1 a (HASH_ITER s)"
    using iter by (auto simp: HASH_ITER_def t'_def)
  have same: "ut_item (HASH_DEL a s) = ut_item s" "ut_next (HASH_DEL a s) = ut_next s" by (simp_all add: del)
  have sub: "set (remove1 a (HASH_ITER s)) = set (HASH_ITER s) - {a}" using HASH_ITER_distinct [OF ok] by simp
  have "buckets_hold (ut_item s) (num_buckets t) (set (HASH_ITER s) - {a}) (ut_buckets t')"
    using buckets_hold_remove [OF table_okD(2) [OF tok], of a i b] a iter HASH_TO_BKT_less [OF table_okD(1) [OF tok]]
    by (simp add: t'_def b_def i_def)
  then have "table_ok (ut_item s) t'"
    using table_okD [OF tok] a HASH_ITER_distinct [OF ok] iter
    by (simp add: table_ok_def t'_def length_remove1)
  moreover have "app_order t' \<noteq> []" if "app_order t \<noteq> [a]"
    using that a arg_cong [of "remove1 a (HASH_ITER s)" "[]" length] unfolding iter
    by (cases "HASH_ITER s") (auto simp: t'_def iter length_remove1 split: if_splits)
  ultimately show "ut_ok (HASH_DEL a s)"
    using ok unfolding ut_ok_def iter' same sub by (auto simp: del inj_on_def split: if_splits)
  have "remove1 a (HASH_ITER s) = filter (\<lambda>b. b \<noteq> a) (HASH_ITER s)"
    by (rule distinct_remove1_removeAll [OF HASH_ITER_distinct [OF ok], unfolded removeAll_filter_not_eq,
          simplified eq_commute])
  moreover have "b \<noteq> a \<longleftrightarrow> hh_key (ut_item s b) \<noteq> k" if "b \<in> set (HASH_ITER s)" for b
    using inj_onD [OF ut_okD(5) [OF ok], of b a] that a k by auto
  ultimately have "remove1 a (HASH_ITER s) = filter (\<lambda>b. hh_key (ut_item s b) \<noteq> k) (HASH_ITER s)"
    by (simp cong: filter_cong)
  then have "ut_list (HASH_DEL a s) = filter (\<lambda>e. fst e \<noteq> k) (ut_list s)"
    unfolding ut_list_def iter' rev_filter [symmetric] by (simp add: filter_map o_def ut_entry_def same)
  then show "ut_list (HASH_DEL a s) = hash_del k (ut_list s)"
    using hash_del_remove [of "ut_list s" k] hash_ok_ut_list [OF ok] by (simp add: hash_ok_def)
qed

text \<open>Both operations preserve the tables and do on the list of items what theory Hash_Table says.\<close>

lemma ut_put_spec:
  assumes ok: "ut_ok s"
  shows "ut_ok (ut_put k v s)" and "ut_list (ut_put k v s) = hash_put k v (ut_list s)"
proof -
  have "ut_ok (ut_put k v s) \<and> ut_list (ut_put k v s) = hash_put k v (ut_list s)"
  proof (cases "HASH_FIND_STR s k")
    case None
    then have "hash_find (ut_list s) k = None" using find_ut_list [OF ok, of k] by simp
    with None HASH_ADD_STR_spec [OF ok None] show ?thesis
      by (simp add: ut_put_def hash_put_def hash_add_def)
  next
    case (Some a)
    then have "hash_find (ut_list s) k = Some (hh_value (ut_item s a))" using find_ut_list [OF ok, of k] by simp
    with Some write_value_spec [OF ok, of a k] HASH_FIND_STR_Some [OF ok, of k a] show ?thesis
      by (simp add: ut_put_def hash_put_def)
  qed
  then show "ut_ok (ut_put k v s)" and "ut_list (ut_put k v s) = hash_put k v (ut_list s)" by auto
qed

lemma hash_del_absent: "hash_find t k = None \<Longrightarrow> hash_del k t = t"
  by (induction k t rule: hash_del.induct) (auto simp: hash_find_def split: if_splits)

lemma ut_remove_spec:
  assumes ok: "ut_ok s"
  shows "ut_ok (ut_remove k s)" and "ut_list (ut_remove k s) = hash_del k (ut_list s)"
proof -
  have "ut_ok (ut_remove k s) \<and> ut_list (ut_remove k s) = hash_del k (ut_list s)"
  proof (cases "HASH_FIND_STR s k")
    case None
    then have "hash_find (ut_list s) k = None" using find_ut_list [OF ok, of k] by simp
    with None ok show ?thesis by (simp add: ut_remove_def hash_del_absent)
  next
    case (Some a)
    then show ?thesis
      using HASH_DEL_spec [OF ok, of a k] HASH_FIND_STR_Some [OF ok, of k a] by (simp add: ut_remove_def)
  qed
  then show "ut_ok (ut_remove k s)" and "ut_list (ut_remove k s) = hash_del k (ut_list s)" by auto
qed

lemma ut_find_list: "ut_ok s \<Longrightarrow> ut_find s k = hash_find (ut_list s) k"
  by (simp add: ut_find_def find_ut_list)

lemmas ut_spec = ut_put_spec ut_remove_spec ut_find_list

text \<open>The tables keep the contract under which the components use theirs.\<close>

interpretation ut: keyed_table "ut_empty :: 'v uthash" ut_find ut_put ut_remove ut_ok
  by unfold_locales
     (simp_all add: ut_spec hash_find_put hash_find_del hash_ok_ut_list, simp add: hash_find_def)

section \<open>Runs\<close>

datatype 'v ut_op = Put string 'v | Remove string

fun ut_exec :: "'v ut_op \<Rightarrow> 'v uthash \<Rightarrow> 'v uthash" where
  "ut_exec (Put k v) s = ut_put k v s"
| "ut_exec (Remove k) s = ut_remove k s"

fun list_exec :: "'v ut_op \<Rightarrow> 'v htab \<Rightarrow> 'v htab" where
  "list_exec (Put k v) t = hash_put k v t"
| "list_exec (Remove k) t = hash_del k t"

lemma ut_exec_spec: "ut_ok s \<Longrightarrow> ut_ok (ut_exec ev s) \<and> ut_list (ut_exec ev s) = list_exec ev (ut_list s)"
  by (cases ev) (simp_all add: ut_spec)

lemma ut_run_spec:
  "ut_ok s \<Longrightarrow> ut_ok (fold ut_exec evs s) \<and> ut_list (fold ut_exec evs s) = fold list_exec evs (ut_list s)"
  by (induction evs arbitrary: s) (simp_all add: ut_exec_spec)

text \<open>
  C17: after any run of the clients' operations on a table, the type invariant of the C structure
  holds: the number of buckets is the power of two its logarithm says, every item hangs in the bucket
  that the Jenkins hash of its key selects and in no other, once, the counters of the buckets and of the
  table are the numbers of their items, and no two items have the same key - through every doubling of
  the buckets, deletions and the disappearance of the table with its last item.
\<close>

theorem uthash_well_formed: "ut_ok (fold ut_exec evs ut_empty)"
  by (simp add: ut_run_spec)

text \<open>
  C16: the bucketed tables of uthash.h implement the lists of items on which the components of
  the agent are modelled: after the same run of operations a look-up through the hash finds what the
  list has, the iteration visits the items of the list in the order of their addition, and the count is
  the length of the list.  No chain order, hash collision or growth of the table can be seen.
\<close>

theorem uthash_refines_lists:
  "ut_find (fold ut_exec evs ut_empty) k = hash_find (fold list_exec evs []) k \<and>
   map (ut_entry (fold ut_exec evs ut_empty)) (HASH_ITER (fold ut_exec evs ut_empty)) = hash_iter (fold list_exec evs []) \<and>
   HASH_COUNT (fold ut_exec evs ut_empty) = length (fold list_exec evs [])"
proof -
  have ok: "ut_ok (fold ut_exec evs ut_empty)" and t: "ut_list (fold ut_exec evs ut_empty) = fold list_exec evs []"
    using ut_run_spec [of ut_empty evs] by simp_all
  have "length (ut_list s) = length (HASH_ITER s)" for s :: "'a uthash" by (simp add: ut_list_def)
  then show ?thesis
    using ut_find_list [OF ok] HASH_COUNT_iter [OF ok] by (simp flip: t add: hash_iter_def) (simp add: ut_list_def)
qed

end
