(* ===== verification/Utarray.thy ===== *)
theory Utarray
  imports Str_Array
begin

text \<open>
  soaagent/utarray.h and utstring.h, the macros the program uses, on the memory they manage.  A growing
  array of strings owns a copy of each; the copies are blocks of a heap, and freeing a block twice, or
  reading a slot that was never written, is a fault.  The lists of strings of theory Str_Array
  are shown to be what these arrays hold.  Sizes are numbers, as far below \<open>2 ^ 31\<close> as memory is.
\<close>

section \<open>Growing arrays\<close>

datatype cell = Garbage | NullPtr | StrPtr nat

record ut_array =
  ut_i :: nat
  ut_n :: nat
  ut_d :: "cell list"

record str_heap =
  blocks :: "nat \<rightharpoonup> string"
  next_block :: nat

definition utarray_new :: ut_array where
  "utarray_new = \<lparr>ut_i = 0, ut_n = 0, ut_d = []\<rparr>"

text \<open>The loop of \<open>utarray_reserve\<close>.\<close>

function grow :: "nat \<Rightarrow> nat \<Rightarrow> nat" where
  "grow need n = (if need > n then grow need (if n \<noteq> 0 then 2 * n else 8) else n)"
  by pat_completeness auto
termination by (relation "measure (\<lambda>(need, n). need - n)") auto

declare grow.simps [simp del]

definition utarray_reserve :: "nat \<Rightarrow> ut_array \<Rightarrow> ut_array" where
  "utarray_reserve by a =
     (if ut_i a + by > ut_n a then
        (let n = grow (ut_i a + by) (ut_n a)
         in a\<lparr>ut_n := n, ut_d := ut_d a @ replicate (n - ut_n a) Garbage\<rparr>)
      else a)"

definition strdup :: "string \<Rightarrow> str_heap \<Rightarrow> nat \<times> str_heap" where
  "strdup s h = (next_block h, h\<lparr>blocks := (blocks h)(next_block h \<mapsto> s), next_block := Suc (next_block h)\<rparr>)"

definition utarray_str_cpy :: "string option \<Rightarrow> str_heap \<Rightarrow> cell \<times> str_heap" where
  "utarray_str_cpy src h = (case src of None \<Rightarrow> (NullPtr, h) | Some s \<Rightarrow> let (p, h) = strdup s h in (StrPtr p, h))"

fun utarray_str_dtor :: "cell \<Rightarrow> str_heap \<Rightarrow> fault + str_heap" where
  "utarray_str_dtor Garbage h = Inl Uninitialised"
| "utarray_str_dtor NullPtr h = Inr h"
| "utarray_str_dtor (StrPtr p) h =
     (if blocks h p = None then Inl OutOfBounds else Inr (h\<lparr>blocks := (blocks h)(p := None)\<rparr>))"

definition utarray_push_back :: "string option \<Rightarrow> ut_array \<times> str_heap \<Rightarrow> ut_array \<times> str_heap" where
  "utarray_push_back v = (\<lambda>(a, h).
     let a = utarray_reserve 1 a; (c, h) = utarray_str_cpy v h
     in (a\<lparr>ut_d := (ut_d a)[ut_i a := c], ut_i := ut_i a + 1\<rparr>, h))"

text \<open>The address of a slot is its index; \<open>None\<close> is NULL.\<close>

definition utarray_eltptr :: "ut_array \<Rightarrow> nat \<Rightarrow> nat option" where
  "utarray_eltptr a j = (if j < ut_i a then Some j else None)"

fun dtors :: "ut_array \<Rightarrow> nat list \<Rightarrow> str_heap \<Rightarrow> fault + str_heap" where
  "dtors a [] h = Inr h"
| "dtors a (j # js) h =
     (case utarray_eltptr a j of
        None \<Rightarrow> Inl NullDeref
      | Some p \<Rightarrow> after (utarray_str_dtor (ut_d a ! p) h) (dtors a js))"

definition memmove :: "nat \<Rightarrow> nat \<Rightarrow> nat \<Rightarrow> 'a list \<Rightarrow> 'a list" where
  "memmove dst src cnt d = take dst d @ take cnt (drop src d) @ drop (dst + cnt) d"

definition utarray_erase :: "nat \<Rightarrow> nat \<Rightarrow> ut_array \<times> str_heap \<Rightarrow> fault + ut_array \<times> str_heap" where
  "utarray_erase pos len = (\<lambda>(a, h).
     after (dtors a [pos ..< pos + len] h) (\<lambda>h.
       let d = (if ut_i a > pos + len then memmove pos (pos + len) (ut_i a - (pos + len)) (ut_d a) else ut_d a)
       in Inr (a\<lparr>ut_d := d, ut_i := ut_i a - len\<rparr>, h)))"

definition utarray_done :: "ut_array \<times> str_heap \<Rightarrow> fault + ut_array \<times> str_heap" where
  "utarray_done = (\<lambda>(a, h).
     if ut_n a \<noteq> 0 then after (dtors a [0 ..< ut_i a] h) (\<lambda>h. Inr (a\<lparr>ut_d := [], ut_n := 0\<rparr>, h)) else Inr (a, h))"

definition utarray_front :: "ut_array \<Rightarrow> nat option" where
  "utarray_front a = (if ut_i a \<noteq> 0 then Some 0 else None)"

definition utarray_next :: "ut_array \<Rightarrow> nat option \<Rightarrow> nat option" where
  "utarray_next a e = (case e of None \<Rightarrow> utarray_front a | Some e \<Rightarrow> if ut_i a > e + 1 then Some (e + 1) else None)"

text \<open>\<open>while ((p = utarray_next(a, p)))\<close>: the addresses it yields.\<close>

function utarray_walk :: "ut_array \<Rightarrow> nat option \<Rightarrow> nat list" where
  "utarray_walk a e = (case utarray_next a e of None \<Rightarrow> [] | Some p \<Rightarrow> p # utarray_walk a (Some p))"
  by pat_completeness auto
termination
  by (relation "measure (\<lambda>(a, e). case e of None \<Rightarrow> Suc (ut_i a) | Some p \<Rightarrow> ut_i a - p)")
     (auto simp: utarray_next_def utarray_front_def split: option.splits if_splits)

declare utarray_walk.simps [simp del]

section \<open>The string array on them\<close>

text \<open>\<open>*p\<close> for an address: the string of its block, or NULL.\<close>

definition cell_string :: "str_heap \<Rightarrow> cell \<Rightarrow> string option" where
  "cell_string h c = (case c of StrPtr p \<Rightarrow> blocks h p | _ \<Rightarrow> None)"

definition ua_find :: "string \<Rightarrow> ut_array \<times> str_heap \<Rightarrow> int" where
  "ua_find v = (\<lambda>(a, h).
     case List.find (\<lambda>p. cell_string h (ut_d a ! p) = Some v) (utarray_walk a None) of None \<Rightarrow> -1 | Some p \<Rightarrow> int p)"

definition ua_add :: "string \<Rightarrow> ut_array \<times> str_heap \<Rightarrow> ut_array \<times> str_heap" where
  "ua_add v s = (if ua_find v s \<noteq> -1 then s else utarray_push_back (Some v) s)"

definition ua_delete :: "string \<Rightarrow> ut_array \<times> str_heap \<Rightarrow> fault + int \<times> ut_array \<times> str_heap" where
  "ua_delete v s =
     (let idx = ua_find v s in
      if idx = -1 then Inr (-1, s) else after (utarray_erase (nat idx) 1 s) (\<lambda>s. Inr (0, s)))"

section \<open>What an array holds\<close>

lemma grow_enough: "need \<le> grow need n \<and> n \<le> grow need n"
proof (induction need n rule: grow.induct)
  case (1 need n)
  then show ?case by (subst (1 2) grow.simps) (auto split: if_splits)
qed

lemma walk_from: "utarray_walk a (Some p) = [Suc p ..< ut_i a]"
proof (induction "ut_i a - p" arbitrary: p rule: less_induct)
  case less
  show ?case
  proof (cases "Suc p < ut_i a")
    case True
    then have "utarray_walk a (Some (Suc p)) = [Suc (Suc p) ..< ut_i a]" by (intro less) auto
    with True show ?thesis by (subst utarray_walk.simps) (simp add: utarray_next_def upt_conv_Cons)
  qed (subst utarray_walk.simps, simp add: utarray_next_def)
qed

lemma walk_all: "utarray_walk a None = [0 ..< ut_i a]"
  by (subst utarray_walk.simps) (simp add: utarray_next_def utarray_front_def walk_from upt_conv_Cons)

text \<open>
  The array owns the blocks \<open>ps\<close>, one per element and different from each other, and everything else on
  the heap is as it was in \<open>h0\<close>.
\<close>

definition heap_ok :: "str_heap \<Rightarrow> bool" where
  "heap_ok h \<longleftrightarrow> (\<forall>p \<ge> next_block h. blocks h p = None)"

definition owns :: "str_heap \<Rightarrow> nat list \<Rightarrow> ut_array \<times> str_heap \<Rightarrow> bool" where
  "owns h0 ps = (\<lambda>(a, h). ut_i a \<le> ut_n a \<and> length (ut_d a) = ut_n a \<and> take (ut_i a) (ut_d a) = map StrPtr ps
     \<and> distinct ps \<and> (\<forall>p \<in> set ps. next_block h0 \<le> p \<and> p < next_block h \<and> blocks h p \<noteq> None)
     \<and> (\<forall>p. p \<notin> set ps \<longrightarrow> blocks h p = blocks h0 p) \<and> next_block h0 \<le> next_block h)"

definition ua_strs :: "nat list \<Rightarrow> ut_array \<times> str_heap \<Rightarrow> string list" where
  "ua_strs ps = (\<lambda>(a, h). map (\<lambda>p. the (blocks h p)) ps)"

lemma ownsD:
  assumes "owns h0 ps (a, h)"
  shows "ut_i a \<le> ut_n a" and "length (ut_d a) = ut_n a" and "take (ut_i a) (ut_d a) = map StrPtr ps"
    and "distinct ps" and "p \<in> set ps \<Longrightarrow> next_block h0 \<le> p \<and> p < next_block h \<and> blocks h p \<noteq> None"
    and "p \<notin> set ps \<Longrightarrow> blocks h p = blocks h0 p" and "next_block h0 \<le> next_block h" and "ut_i a = length ps"
    and "j < length ps \<Longrightarrow> ut_d a ! j = StrPtr (ps ! j)"
proof -
  have len: "ut_i a \<le> length (ut_d a)" using assms by (simp add: owns_def)
  show t: "take (ut_i a) (ut_d a) = map StrPtr ps" using assms by (simp add: owns_def)
  show i: "ut_i a = length ps" using arg_cong [OF t, of length] len by simp
  show "ut_d a ! j = StrPtr (ps ! j)" if "j < length ps" using that i arg_cong [OF t, of "\<lambda>l. l ! j"] by simp
qed (use assms in \<open>auto simp: owns_def\<close>)

lemma owns_new: "owns h [] (utarray_new, h)"
  by (simp add: owns_def utarray_new_def)

lemma ua_strs_nth: "owns h0 ps s \<Longrightarrow> j < length ps \<Longrightarrow> cell_string (snd s) (ut_d (fst s) ! j) = Some (ua_strs ps s ! j)"
  using ownsD(5,9) [of h0 ps "fst s" "snd s"] nth_mem [of j ps] by (cases s) (auto simp: cell_string_def ua_strs_def)

section \<open>The operations\<close>

lemma length_memmove: "dst + cnt \<le> length d \<Longrightarrow> src + cnt \<le> length d \<Longrightarrow> length (memmove dst src cnt d) = length d"
  by (simp add: memmove_def)

lemma owns_reserve:
  assumes "owns h0 ps (a, h)"
  shows "owns h0 ps (utarray_reserve k a, h)" and "ut_i a + k \<le> ut_n (utarray_reserve k a)"
    and "ut_i (utarray_reserve k a) = ut_i a"
  using assms grow_enough [of "ut_i a + k" "ut_n a"] by (auto simp: owns_def utarray_reserve_def Let_def)

lemma owns_push:
  assumes own: "owns h0 ps (a, h)" and ok: "heap_ok h0"
  obtains a' h' where "utarray_push_back (Some v) (a, h) = (a', h')" and "owns h0 (ps @ [next_block h]) (a', h')"
    and "ua_strs (ps @ [next_block h]) (a', h') = ua_strs ps (a, h) @ [v]"
proof -
  define b where "b = utarray_reserve 1 a"
  define h' where "h' = h\<lparr>blocks := (blocks h)(next_block h \<mapsto> v), next_block := Suc (next_block h)\<rparr>"
  define a' where "a' = b\<lparr>ut_d := (ut_d b)[ut_i b := StrPtr (next_block h)], ut_i := ut_i b + 1\<rparr>"
  have b: "owns h0 ps (b, h)" "Suc (ut_i b) \<le> ut_n b" using owns_reserve [OF own, of 1] by (simp_all add: b_def)
  have fresh: "next_block h \<notin> set ps" using ownsD(5) [OF own] by blast
  have "take (Suc (ut_i b)) ((ut_d b)[ut_i b := StrPtr (next_block h)]) = map StrPtr (ps @ [next_block h])"
    using ownsD(2,3) [OF b(1)] b(2) by (simp add: take_Suc_conv_app_nth)
  moreover have "blocks h' p = blocks h0 p" if "p \<notin> set (ps @ [next_block h])" for p
    using that ownsD(6) [OF own, of p] by (simp add: h'_def)
  moreover have "next_block h0 \<le> p \<and> p < next_block h' \<and> blocks h' p \<noteq> None" if "p \<in> set (ps @ [next_block h])" for p
    using that ownsD(5) [OF own, of p] ownsD(7) [OF own] by (auto simp: h'_def)
  ultimately have "owns h0 (ps @ [next_block h]) (a', h')"
    using ownsD(2,4) [OF b(1)] le_SucI [OF ownsD(7) [OF own]] b(2) fresh unfolding owns_def by (simp add: a'_def h'_def)
  moreover have "utarray_push_back (Some v) (a, h) = (a', h')"
    by (simp add: utarray_push_back_def utarray_str_cpy_def strdup_def a'_def h'_def b_def Let_def)
  moreover have "ua_strs (ps @ [next_block h]) (a', h') = ua_strs ps (a, h) @ [v]"
    using fresh by (auto simp: ua_strs_def h'_def)
  ultimately show thesis using that by blast
qed

text \<open>The destructors free the blocks of their slots and nothing else.\<close>

lemma dtors_free:
  assumes "owns h0 ps (a, h1)" and "\<forall>j \<in> set js. j < length ps" and "distinct js"
    and "\<forall>j \<in> set js. blocks h (ps ! j) \<noteq> None"
  shows "\<exists>h'. dtors a js h = Inr h' \<and> next_block h' = next_block h
    \<and> (\<forall>p. blocks h' p = (if p \<in> (!) ps ` set js then None else blocks h p))"
  using assms(2-4)
proof (induction js arbitrary: h)
  case (Cons j js)
  let ?h = "h\<lparr>blocks := (blocks h)(ps ! j := None)\<rparr>"
  have j: "j < length ps" "ut_d a ! j = StrPtr (ps ! j)" "utarray_eltptr a j = Some j"
    using Cons.prems ownsD(8,9) [OF assms(1)] by (auto simp: utarray_eltptr_def)
  have "blocks ?h (ps ! k) \<noteq> None" if "k \<in> set js" for k
    using that Cons.prems nth_eq_iff_index_eq [OF ownsD(4) [OF assms(1)], of k j] by auto
  then obtain h' where h': "dtors a js ?h = Inr h'" "next_block h' = next_block ?h"
    "\<forall>p. blocks h' p = (if p \<in> (!) ps ` set js then None else blocks ?h p)"
    using Cons.IH [of ?h] Cons.prems by auto
  have "dtors a (j # js) h = dtors a js ?h" using j Cons.prems by auto
  then show ?case using h' by (intro exI [of _ h']) auto
qed simp

lemma owns_erase:
  assumes own: "owns h0 ps (a, h)" and ok: "heap_ok h0" and j: "j < length ps"
  obtains a' h' where "utarray_erase j 1 (a, h) = Inr (a', h')" and "owns h0 (take j ps @ drop (Suc j) ps) (a', h')"
    and "ua_strs (take j ps @ drop (Suc j) ps) (a', h') = take j (ua_strs ps (a, h)) @ drop (Suc j) (ua_strs ps (a, h))"
proof -
  let ?qs = "take j ps @ drop (Suc j) ps"
  have "blocks h (ps ! j) \<noteq> None" using ownsD(5) [OF own] j nth_mem [OF j] by blast
  then obtain h' where h': "dtors a [j ..< j + 1] h = Inr h'" "next_block h' = next_block h"
    "\<forall>p. blocks h' p = (if p = ps ! j then None else blocks h p)"
    using dtors_free [OF own, of "[j]" h] j by auto
  define d where "d = (if ut_i a > j + 1 then memmove j (j + 1) (ut_i a - (j + 1)) (ut_d a) else ut_d a)"
  define a' where "a' = a\<lparr>ut_d := d, ut_i := ut_i a - 1\<rparr>"
  note own' = ownsD [OF own]
  note ps = id_take_nth_drop [OF j, symmetric]
  have dist: "distinct (take j ps @ ps ! j # drop (Suc j) ps)" and "set (take j ps @ ps ! j # drop (Suc j) ps) = set ps"
    using own'(4) by (simp_all only: ps)
  then have notin: "ps ! j \<notin> set ?qs" "distinct ?qs" "set ps = insert (ps ! j) (set ?qs)" by auto
  have i: "ut_i a = length ps" "length ps \<le> length (ut_d a)" using own'(1,2,8) by simp_all
  have "take j (ut_d a) = map StrPtr (take j ps)"
    using arg_cong [OF own'(3), of "take j"] j i by (simp add: take_map)
  moreover have "take (length ps - Suc j) (drop (Suc j) (ut_d a)) = map StrPtr (drop (Suc j) ps)"
    using arg_cong [OF own'(3), of "drop (Suc j)"] j i by (simp add: drop_map drop_take)
  moreover have "length ps - Suc 0 = j" if "\<not> Suc j < length ps" using that j by simp
  ultimately have "take (ut_i a - 1) d = map StrPtr ?qs" and "length d = length (ut_d a)"
    using j i by (auto simp: d_def memmove_def)
  moreover have "blocks h0 (ps ! j) = None" using own'(5) [OF nth_mem [OF j]] ok by (simp add: heap_ok_def)
  ultimately have "owns h0 ?qs (a', h')"
    using own'(1,2,7) i j notin own'(5,6) h'(2,3) unfolding owns_def by (auto simp: a'_def)
  moreover have "utarray_erase j 1 (a, h) = Inr (a', h')"
    using h'(1) by (simp add: utarray_erase_def a'_def d_def)
  moreover have "ua_strs ?qs (a', h') = take j (ua_strs ps (a, h)) @ drop (Suc j) (ua_strs ps (a, h))"
    using h'(3) notin(1) by (auto simp: ua_strs_def take_map drop_map)
  ultimately show thesis using that by blast
qed

lemma owns_done:
  assumes own: "owns h0 ps (a, h)" and ok: "heap_ok h0"
  shows "\<exists>a' h'. utarray_done (a, h) = Inr (a', h') \<and> blocks h' = blocks h0"
proof (cases "ut_n a")
  case 0
  then have "ps = []" using ownsD(1,8) [OF own] by simp
  then have "blocks h = blocks h0" using ownsD(6) [OF own] by auto
  with 0 show ?thesis by (simp add: utarray_done_def)
next
  case (Suc n)
  have i: "ut_i a = length ps" by (rule ownsD(8) [OF own])
  have "\<forall>j \<in> set [0 ..< length ps]. blocks h (ps ! j) \<noteq> None" using ownsD(5) [OF own] by simp
  then obtain h' where h': "dtors a [0 ..< length ps] h = Inr h'"
    "\<forall>p. blocks h' p = (if p \<in> (!) ps ` set [0 ..< length ps] then None else blocks h p)"
    using dtors_free [OF own, of "[0 ..< length ps]" h] by auto
  have "(!) ps ` set [0 ..< length ps] = set ps" by (auto simp: in_set_conv_nth)
  then have "blocks h' p = blocks h0 p" for p
    using h'(2) ownsD(5,6) [OF own, of p] ok by (auto simp: heap_ok_def)
  then have "blocks h' = blocks h0" by auto
  with Suc h'(1) i show ?thesis by (simp add: utarray_done_def)
qed

text \<open>The search walks the array from the front.\<close>

lemma find_from_find:
  "find_from (int i) vs v = (case List.find (\<lambda>j. vs ! (j - i) = v) [i ..< i + length vs] of None \<Rightarrow> -1 | Some j \<Rightarrow> int j)"
proof (induction vs arbitrary: i)
  case (Cons w vs)
  have "List.find (\<lambda>j. (w # vs) ! (j - i) = v) [Suc i ..< Suc i + length vs] = List.find (\<lambda>j. vs ! (j - Suc i) = v) [Suc i ..< Suc i + length vs]"
    by (rule find_cong) (auto simp: nth_Cons' Suc_diff_Suc)
  then show ?case using Cons.IH [of "Suc i"] by (simp add: upt_conv_Cons add.commute del: upt_Suc)
qed simp

lemma ua_find_list:
  assumes own: "owns h0 ps (a, h)"
  shows "ua_find v (a, h) = find_from 0 (ua_strs ps (a, h)) v"
proof -
  have "List.find (\<lambda>p. cell_string h (ut_d a ! p) = Some v) [0 ..< length ps] = List.find (\<lambda>j. ua_strs ps (a, h) ! j = v) [0 ..< length ps]"
    using ua_strs_nth [OF own] by (intro find_cong) auto
  then show ?thesis
    using find_from_find [of 0 "ua_strs ps (a, h)" v] ownsD(8) [OF own] by (simp add: ua_find_def walk_all ua_strs_def)
qed

section \<open>Runs\<close>

datatype sa_op = Add string | Delete string

fun ua_exec :: "sa_op \<Rightarrow> ut_array \<times> str_heap \<Rightarrow> fault + ut_array \<times> str_heap" where
  "ua_exec (Add v) s = Inr (ua_add v s)"
| "ua_exec (Delete v) s = after (ua_delete v s) (\<lambda>(r, s). Inr s)"

fun sa_exec :: "sa_op \<Rightarrow> string_array \<Rightarrow> string_array" where
  "sa_exec (Add v) sa = string_array_add sa v"
| "sa_exec (Delete v) sa = snd (string_array_delete sa v)"

lemma ua_exec_spec:
  assumes own: "owns h0 ps s" and ok: "heap_ok h0" and vs: "ua_strs ps s = strs sa"
  shows "\<exists>s' qs. ua_exec ev s = Inr s' \<and> owns h0 qs s' \<and> ua_strs qs s' = strs (sa_exec ev sa)"
proof -
  obtain a h where s: "s = (a, h)" by (cases s)
  have find: "ua_find v s = string_array_find sa v" for v
    using ua_find_list own vs unfolding s by (simp add: string_array_find_def)
  show ?thesis
  proof (cases ev)
    case (Add v)
    show ?thesis
    proof (cases "string_array_find sa v = -1")
      case True
      with owns_push [OF own [unfolded s] ok, of v] show ?thesis
        using find vs by (fastforce simp: Add s ua_add_def string_array_add_def Let_def)
    next
      case False
      with own vs find show ?thesis by (auto simp: Add ua_add_def string_array_add_def Let_def)
    qed
  next
    case (Delete v)
    show ?thesis
    proof (cases "v \<in> set (strs sa)")
      case True
      then obtain j where j: "j < length (strs sa)" "string_array_find sa v = int j"
        using find_from_in [of v "strs sa" 0] by (auto simp: string_array_find_def)
      have "length (strs sa) = length ps" using vs by (auto simp: s ua_strs_def dest: arg_cong [of _ _ length])
      with j(1) have "j < length ps" by simp
      from owns_erase [OF own [unfolded s] ok this] show ?thesis
        using find [of v] j vs by (fastforce simp: Delete s ua_delete_def string_array_delete_def Let_def)
    next
      case False
      with own vs find [of v] string_array_find_iff [of sa v] show ?thesis
        by (auto simp: Delete ua_delete_def string_array_delete_def Let_def)
    qed
  qed
qed

fun ua_run :: "sa_op list \<Rightarrow> ut_array \<times> str_heap \<Rightarrow> fault + ut_array \<times> str_heap" where
  "ua_run [] s = Inr s"
| "ua_run (ev # evs) s = after (ua_exec ev s) (ua_run evs)"

lemma ua_run_spec:
  assumes "heap_ok h0"
  shows "owns h0 ps s \<Longrightarrow> ua_strs ps s = strs sa \<Longrightarrow>
    \<exists>s' qs. ua_run evs s = Inr s' \<and> owns h0 qs s' \<and> ua_strs qs s' = strs (fold sa_exec evs sa)"
proof (induction evs arbitrary: s ps sa)
  case (Cons ev evs)
  from ua_exec_spec [OF Cons.prems(1) assms Cons.prems(2), of ev] obtain s1 qs1 where
    s1: "ua_exec ev s = Inr s1" "owns h0 qs1 s1" "ua_strs qs1 s1 = strs (sa_exec ev sa)" by blast
  from Cons.IH [OF s1(2,3)] s1(1) show ?case by simp
qed auto

text \<open>
  C18: the memory of a string array, through any run of additions and deletions and any growth of its
  slots: no slot is read before it is written, no block is freed twice or used after it has been freed;
  the walk over the array reads exactly the strings of the list model, in their order; and when the
  array is freed, every copy it made has been given back and no other block has been touched.
\<close>

theorem string_arrays_in_memory:
  assumes "heap_ok h0"
  shows "\<exists>a h. ua_run evs (utarray_new, h0) = Inr (a, h)
    \<and> map (\<lambda>p. cell_string h (ut_d a ! p)) (utarray_walk a None) = map Some (strs (fold sa_exec evs string_array_init))
    \<and> (\<exists>a' h'. utarray_done (a, h) = Inr (a', h') \<and> blocks h' = blocks h0)"
proof -
  have "ua_strs [] (utarray_new, h0) = strs string_array_init" by (simp add: ua_strs_def string_array_init_def)
  from ua_run_spec [OF assms owns_new this, of evs] obtain s qs where
    s: "ua_run evs (utarray_new, h0) = Inr s" "owns h0 qs s" "ua_strs qs s = strs (fold sa_exec evs string_array_init)"
    by blast
  obtain a h where ah: "s = (a, h)" by (cases s)
  note own = s(2) [unfolded ah]
  have "length (ua_strs qs s) = length qs" by (simp add: ah ua_strs_def)
  then have "map (\<lambda>p. cell_string h (ut_d a ! p)) (utarray_walk a None) = map Some (ua_strs qs s)"
    using ua_strs_nth [OF own] ownsD(8) [OF own] by (auto simp: walk_all ah intro!: nth_equalityI)
  then show ?thesis using owns_done [OF own assms] s(1,3) ah by auto
qed

theorem string_arrays_in_memory_witness:
  "\<exists>a h. ua_run [Add ''n1'', Add ''n2'', Delete ''n1''] (utarray_new, \<lparr>blocks = Map.empty, next_block = 0\<rparr>) = Inr (a, h)
     \<and> map (\<lambda>p. cell_string h (ut_d a ! p)) (utarray_walk a None) = [Some ''n2'']"
proof -
  have "strs (fold sa_exec [Add ''n1'', Add ''n2'', Delete ''n1''] string_array_init) = [''n2'']" by code_simp
  then show ?thesis
    using string_arrays_in_memory [of "\<lparr>blocks = Map.empty, next_block = 0\<rparr>" "[Add ''n1'', Add ''n2'', Delete ''n1'']"]
    by (auto simp: heap_ok_def)
qed

section \<open>Growing strings\<close>

text \<open>The buffer with what it holds, garbage as any character; the terminating NUL is one of them.\<close>

record ut_string =
  us_d :: string
  us_n :: nat
  us_i :: nat

definition utstring_reserve :: "nat \<Rightarrow> ut_string \<Rightarrow> ut_string" where
  "utstring_reserve amt s =
     (if us_n s - us_i s < amt
      then s\<lparr>us_d := us_d s @ replicate amt undefined, us_n := us_n s + amt\<rparr> else s)"

definition utstring_new :: ut_string where
  "utstring_new =
     (let s = utstring_reserve 100 \<lparr>us_d = [], us_n = 0, us_i = 0\<rparr> in s\<lparr>us_d := (us_d s)[0 := CHR 0x00]\<rparr>)"

text \<open>\<open>vsnprintf\<close> of a formatted text into \<open>space\<close> bytes from an index on.\<close>

definition vsnprintf_at :: "nat \<Rightarrow> nat \<Rightarrow> string \<Rightarrow> string \<Rightarrow> string" where
  "vsnprintf_at i space msg d =
     (if space = 0 then d
      else let out = take (space - 1) msg @ [CHR 0x00] in take i d @ out @ drop (i + length out) d)"

function utstring_printf :: "string \<Rightarrow> ut_string \<Rightarrow> ut_string" where
  "utstring_printf msg s =
     (let space = us_n s - us_i s; s = s\<lparr>us_d := vsnprintf_at (us_i s) space msg (us_d s)\<rparr>
      in if length msg < space then s\<lparr>us_i := us_i s + length msg\<rparr>
         else utstring_printf msg (utstring_reserve (length msg + 1) s))"
  by pat_completeness auto
termination
  by (relation "measure (\<lambda>(msg, s). length msg + 1 + us_i s - us_n s)") (auto simp: utstring_reserve_def Let_def)

declare utstring_printf.simps [simp del]

definition utstring_body :: "ut_string \<Rightarrow> string" where
  "utstring_body s = us_d s"

definition us_holds :: "string \<Rightarrow> ut_string \<Rightarrow> bool" where
  "us_holds t s \<longleftrightarrow> us_i s = length t \<and> us_i s < us_n s \<and> length (us_d s) = us_n s
     \<and> take (length t) (us_d s) = t \<and> us_d s ! length t = CHR 0x00"

lemma us_holds_new: "us_holds [] utstring_new"
  by (simp add: us_holds_def utstring_new_def utstring_reserve_def)

lemma us_printf_fits:
  assumes "us_i s = length t" and "length t + length msg < us_n s" and "length (us_d s) = us_n s"
    and "take (length t) (us_d s) = t"
  shows "us_holds (t @ msg) (utstring_printf msg s)"
proof -
  let ?d = "take (length t) (us_d s) @ msg @ CHR 0x00 # drop (length t + Suc (length msg)) (us_d s)"
  have "vsnprintf_at (us_i s) (us_n s - us_i s) msg (us_d s) = ?d"
    using assms(1,2) by (simp add: vsnprintf_at_def)
  moreover have "length msg < us_n s - us_i s" using assms(1,2) by simp
  ultimately have "utstring_printf msg s = s\<lparr>us_d := ?d, us_i := length t + length msg\<rparr>"
    using assms(1) by (subst utstring_printf.simps) simp
  then show ?thesis using assms by (simp add: us_holds_def nth_append)
qed

lemma us_printf:
  assumes "us_holds t s"
  shows "us_holds (t @ msg) (utstring_printf msg s)"
proof (cases "length t + length msg < us_n s")
  case True
  with assms show ?thesis by (intro us_printf_fits) (auto simp: us_holds_def)
next
  case False
  let ?s = "utstring_reserve (length msg + 1) (s\<lparr>us_d := vsnprintf_at (us_i s) (us_n s - us_i s) msg (us_d s)\<rparr>)"
  have i: "us_i s = length t" "length t < us_n s" "length (us_d s) = us_n s" "take (length t) (us_d s) = t"
    using assms by (simp_all add: us_holds_def)
  have "length (vsnprintf_at (us_i s) (us_n s - us_i s) msg (us_d s)) = us_n s"
    "take (length t) (vsnprintf_at (us_i s) (us_n s - us_i s) msg (us_d s)) = t"
    using i False by (auto simp: vsnprintf_at_def Let_def)
  then have "us_holds (t @ msg) (utstring_printf msg ?s)"
    using i False by (intro us_printf_fits) (auto simp: utstring_reserve_def)
  moreover have "utstring_printf msg s = utstring_printf msg ?s"
    using i False by (subst utstring_printf.simps) (simp add: Let_def)
  ultimately show ?thesis by simp
qed

lemma us_printf_all: "us_holds t s \<Longrightarrow> us_holds (t @ concat msgs) (fold utstring_printf msgs s)"
proof (induction msgs arbitrary: t s)
  case (Cons msg msgs)
  from Cons.IH [OF us_printf [OF Cons.prems]] show ?case by simp
qed simp

lemma us_holds_string:
  assumes "us_holds t s" and "CHR 0x00 \<notin> set t"
  shows "c_string (utstring_body s) = t"
proof -
  have "us_d s = t @ CHR 0x00 # drop (Suc (length t)) (us_d s)"
    using assms(1) id_take_nth_drop [of "length t" "us_d s"] by (simp add: us_holds_def)
  then have "takeWhile (\<lambda>c. c \<noteq> CHR 0x00) (us_d s) = t" using takeWhile_neq_append [OF assms(2)] by metis
  then show ?thesis by (simp add: c_string_def utstring_body_def)
qed

text \<open>The report of a string array, written piece by piece into a growing string.\<close>

definition content_pieces :: "string_array \<Rightarrow> string list" where
  "content_pieces array =
     (''counter='' @ show_int (sint (counter array)) @ '',size='' @ show_int (int (length (strs array))) @ '','')
       # map (\<lambda>p. p @ '', '') (strs array)"

text \<open>
  What \<open>string_array_content\<close> reports is what the growing string holds after its calls of
  \<open>utstring_printf\<close>, each of which ends, after at most one enlargement, and loses nothing.
\<close>

theorem content_in_growing_string:
  assumes "\<forall>p \<in> set (strs array). CHR 0x00 \<notin> set p"
  shows "string_array_content array buf_len =
    snprintf_s buf_len (c_string (utstring_body (fold utstring_printf (content_pieces array) utstring_new)))"
proof -
  have "CHR 0x00 \<notin> set (show_int i)" for i using show_int_chars [of "CHR 0x00" i] by (auto simp: isdigit_def)
  then have "CHR 0x00 \<notin> set (concat (content_pieces array))"
    using assms by (auto simp: content_pieces_def)
  then show ?thesis
    using us_holds_string [OF us_printf_all [OF us_holds_new, of "content_pieces array"]]
    by (simp add: string_array_content_def content_pieces_def)
qed

theorem content_in_growing_string_witness:
  "snprintf_s 100 (c_string (utstring_body (fold utstring_printf
       (content_pieces \<lparr>strs = [''10.0.0.1#80''], counter = 3\<rparr>) utstring_new)))
     = ''counter=3,size=1,10.0.0.1#80, ''"
proof -
  have "char_of (51 :: nat) = CHR ''3'' \<and> char_of (49 :: nat) = CHR ''1''" by code_simp
  then have "string_array_content \<lparr>strs = [''10.0.0.1#80''], counter = 3\<rparr> 100 = ''counter=3,size=1,10.0.0.1#80, ''"
    by (simp add: string_array_content_def snprintf_s_def show_int_def dec_nat.simps digit_char_def)
  then show ?thesis
    using content_in_growing_string [of "\<lparr>strs = [''10.0.0.1#80''], counter = 3\<rparr>" 100] by simp
qed

end
