(* ===== verification/Cjson_Minify.thy ===== *)
theory Cjson_Minify
  imports Cjson
begin

text \<open>
  \<open>cJSON_Minify\<close> of cJSON.c, which removes blanks and comments from a text in place.  The write pointer
  never overtakes the read pointer, so the text is read as it was; moving the read pointer over the
  terminating NUL is the fault \<open>OutOfBounds\<close>.
\<close>

section \<open>The function\<close>

text \<open>The rest behind a comment that starts with a slash and an asterisk.\<close>

fun comment_end :: "string \<Rightarrow> fault + string" where
  "comment_end [] = Inl OutOfBounds"
| "comment_end (c # s) = (if code c = 42 \<and> cur s = 47 then Inr (tl s) else comment_end s)"

text \<open>A string literal after its opening quote: what is copied, and the rest.\<close>

fun copy_literal :: "string \<Rightarrow> fault + string \<times> string" where
  "copy_literal [] = Inl OutOfBounds"
| "copy_literal (c # s) =
     (if code c = 34 then Inr ([c], s)
      else if code c = 92 then
        (case s of
           [] \<Rightarrow> Inl OutOfBounds
         | d # s' \<Rightarrow> after (copy_literal s') (\<lambda>(out, r). Inr (c # d # out, r)))
      else after (copy_literal s) (\<lambda>(out, r). Inr (c # out, r)))"

lemma comment_end_shorter: "comment_end s = Inr r \<Longrightarrow> length r < length s"
  by (induction s) (auto split: if_splits)

lemma copy_literal_shorter: "copy_literal s = Inr (out, r) \<Longrightarrow> length r < length s"
proof (induction s arbitrary: out r rule: copy_literal.induct)
  case (2 c s)
  show ?case
  proof (cases "code c = 92")
    case True
    with "2.prems" obtain d s' out' where "s = d # s'" "copy_literal s' = Inr (out', r)"
      by (auto split: list.splits)
    with "2.IH"(1) True show ?thesis by fastforce
  next
    case False
    with 2 show ?thesis by (fastforce split: if_splits)
  qed
qed simp

lemma after_cong [fundef_cong]: "r = r' \<Longrightarrow> (\<And>x. r' = Inr x \<Longrightarrow> f x = g x) \<Longrightarrow> after r f = after r' g"
  by (cases r) auto

function cJSON_Minify :: "string \<Rightarrow> fault + string" where
  "cJSON_Minify [] = Inr []"
| "cJSON_Minify (c # s) =
     (if code c = 32 \<or> code c = 9 \<or> code c = 13 \<or> code c = 10 then cJSON_Minify s
      else if code c = 47 \<and> cur s = 47 then cJSON_Minify (dropWhile (\<lambda>c. code c \<noteq> 10) s)
      else if code c = 47 \<and> cur s = 42 then after (comment_end (c # s)) cJSON_Minify
      else if code c = 34 then
        after (copy_literal s) (\<lambda>(out, r). after (cJSON_Minify r) (\<lambda>json. Inr (c # out @ json)))
      else after (cJSON_Minify s) (\<lambda>json. Inr (c # json)))"
  by pat_completeness auto
termination
  by (relation "measure length")
     (auto simp: le_imp_less_Suc length_dropWhile_le less_SucI dest: copy_literal_shorter comment_end_shorter split: if_splits)

declare cJSON_Minify.simps [simp del]

section \<open>Printed documents\<close>

text \<open>In front of any text, \<open>a\<close> comes out as \<open>b\<close>.\<close>

definition minifies :: "string \<Rightarrow> string \<Rightarrow> bool" where
  "minifies a b \<longleftrightarrow> (\<forall>rest. cJSON_Minify (a @ rest) = after (cJSON_Minify rest) (\<lambda>json. Inr (b @ json)))"

lemma after_after: "after (after r f) g = after r (\<lambda>x. after (f x) g)"
  by (cases r) auto

lemma after_same: "after r Inr = r"
  by (cases r) auto

lemma minifies_append: "minifies a b \<Longrightarrow> minifies a' b' \<Longrightarrow> minifies (a @ a') (b @ b')"
  by (simp add: minifies_def after_after)

lemma minifies_Nil: "minifies [] []"
  by (simp add: minifies_def after_same)

lemma minifies_blank: "\<forall>c \<in> set ws. code c = 32 \<or> code c = 9 \<or> code c = 13 \<or> code c = 10 \<Longrightarrow> minifies ws []"
proof (induction ws)
  case (Cons c ws)
  then show ?case by (simp add: minifies_def cJSON_Minify.simps)
qed (rule minifies_Nil)

lemma minifies_plain: "\<forall>c \<in> set xs. code c \<notin> {9, 10, 13, 32, 34, 47} \<Longrightarrow> minifies xs xs"
proof (induction xs)
  case (Cons c xs)
  have "minifies [c] [c]" using Cons.prems by (simp add: minifies_def cJSON_Minify.simps)
  from minifies_append [OF this] Cons show ?case by fastforce
qed (rule minifies_Nil)

lemma code_hex_char: "d < 16 \<Longrightarrow> code (hex_char d) \<noteq> 34 \<and> code (hex_char d) \<noteq> 92"
  by (simp add: hex_char_def)

lemma copy_plain:
  "\<forall>c \<in> set xs. code c \<noteq> 34 \<and> code c \<noteq> 92 \<Longrightarrow> copy_literal (xs @ s) = after (copy_literal s) (\<lambda>(out, r). Inr (xs @ out, r))"
proof (induction xs)
  case Nil
  show ?case by (cases "copy_literal s") auto
next
  case (Cons c xs)
  then show ?case by (cases "copy_literal s") auto
qed

lemma copy_printed_char: "copy_literal (print_char c @ s) = after (copy_literal s) (\<lambda>(out, r). Inr (print_char c @ out, r))"
proof (cases "31 < code c \<and> code c \<noteq> 34 \<and> code c \<noteq> 92")
  case True
  then show ?thesis using copy_plain [of "[c]" s] by (simp add: print_char_def)
next
  case False
  define d xs where "d = hd (tl (print_char c))" and "xs = tl (tl (print_char c))"
  have p: "print_char c = char_of (92 :: nat) # d # xs" and xs: "\<forall>x \<in> set xs. code x \<noteq> 34 \<and> code x \<noteq> 92"
    using False by (auto simp: print_char_def code_hex_char d_def xs_def)
  have "copy_literal (print_char c @ s) = after (copy_literal (xs @ s)) (\<lambda>(out, r). Inr (char_of (92 :: nat) # d # out, r))"
    by (simp add: p)
  also have "\<dots> = after (copy_literal s) (\<lambda>(out, r). Inr (print_char c @ out, r))"
    by (cases "copy_literal s") (auto simp: copy_plain [OF xs] p)
  finally show ?thesis .
qed

lemma copy_printed:
  "copy_literal (concat (map print_char s) @ char_of (34 :: nat) # rest) = Inr (concat (map print_char s) @ [char_of (34 :: nat)], rest)"
  by (induction s) (simp_all add: copy_printed_char)

lemma minifies_literal: "minifies (print_string_ptr (Some s)) (print_string_ptr (Some s))"
  by (simp add: minifies_def print_string_ptr_def cJSON_Minify.simps(2) [of "char_of (34 :: nat)"] copy_printed)

lemma minifies_join:
  assumes "minifies sep sep'" and "\<forall>x \<in> set xs. minifies (f x) (g x)"
  shows "minifies (join_entries sep (map f xs)) (join_entries sep' (map g xs))"
  using assms(2)
proof (induction xs rule: induct_list012)
  case (3 x y xs)
  then show ?case using minifies_append [OF _ minifies_append [OF assms(1)]] by auto
qed (auto simp: minifies_Nil)

lemmas minifies_parts = minifies_append minifies_blank minifies_plain minifies_literal

lemma minifies_white: "minifies nl []" "minifies (tabs n) []"
  by (auto simp: nl_def tabs_def intro!: minifies_blank)

lemma minifies_member: "minifies a b \<Longrightarrow> minifies (print_member True d (k, a)) (print_member False d' (k, b))"
proof -
  assume ab: "minifies a b"
  have "minifies '':'' '':''" by (rule minifies_plain) simp
  from minifies_append [OF minifies_white(2) [of d] minifies_append [OF minifies_literal [of k]
      minifies_append [OF this minifies_append [OF minifies_white(2) [of 1] ab]]]]
  show ?thesis by (simp add: print_member_def)
qed

lemma minifies_number: "json_ok (JNumber m e) \<Longrightarrow> minifies (print_number fd m e) (print_number fd m e)"
proof -
  have "code c \<notin> {9, 10, 13, 32, 34, 47}" if "c \<in> set (show_int m)" for c
    using show_int_chars [OF that] by (auto simp: isdigit_def)
  then have "minifies (show_int m) (show_int m)" by (intro minifies_plain) blast
  then show "json_ok (JNumber m e) \<Longrightarrow> minifies (print_number fd m e) (print_number fd m e)"
    by (auto simp: print_number_def near_int_def num_int_def)
qed

lemma minifies_printed: "json_ok j \<Longrightarrow> minifies (print_value fd d True j) (print_value fd d' False j)"
proof (induction j arbitrary: d d')
  case (JNumber m e)
  then show ?case using minifies_number by simp
next
  case (JString s)
  then show ?case using minifies_literal by simp
next
  case (JArray js)
  have sep: "minifies '', '' '',''" and br: "minifies ''['' ''[''" "minifies '']'' '']''" and e: "minifies ''[]'' ''[]''"
    by (simp_all add: minifies_def cJSON_Minify.simps after_after)
  have "minifies (join_entries '', '' (map (print_value fd (Suc d) True) js)) (join_entries '','' (map (print_value fd (Suc d') False) js))"
    using JArray by (intro minifies_join [OF sep]) auto
  from minifies_append [OF br(1) minifies_append [OF this br(2)]] e show ?case by (simp add: print_array_def)
next
  case (JObject ms)
  let ?f = "\<lambda>d fmt. print_member fmt (Suc d) \<circ> (\<lambda>(name, j). (name, print_value fd (Suc d) fmt j))"
  have comma: "minifies '','' '',''" and br: "minifies ''{'' ''{''" "minifies ''}'' ''}''"
    by (simp_all add: minifies_def cJSON_Minify.simps after_after)
  have sep: "minifies ('','' @ nl) '',''" using minifies_append [OF comma minifies_white(1)] by simp
  have "minifies (join_entries ('','' @ nl) (map (?f d True) ms)) (join_entries '','' (map (?f d' False) ms))"
  proof (rule minifies_join [OF sep], rule ballI)
    fix x assume x: "x \<in> set ms"
    obtain k j where kj: "x = (k, j)" by (cases x)
    with x JObject.prems have "json_ok j" by auto
    with JObject.IH [OF x] kj have "minifies (print_value fd (Suc d) True j) (print_value fd (Suc d') False j)"
      by (simp add: snds.simps)
    then show "minifies (?f d True x) (?f d' False x)" by (simp add: kj minifies_member)
  qed
  from minifies_append [OF br(1) minifies_append [OF minifies_white(1) minifies_append [OF this
      minifies_append [OF minifies_white(1) minifies_append [OF minifies_white(2) [of d] br(2)]]]]]
    minifies_append [OF br(1) minifies_append [OF minifies_white(1) minifies_append [OF minifies_white(2) [of "d - 1"] br(2)]]]
  show ?case by (simp add: print_object_def comp_def)
qed (simp_all add: minifies_plain)

text \<open>
  C26: minifying the formatted print of a document gives its unformatted print: all the white
  space the printer adds goes, nothing in a string literal is touched, and the call does not leave the text.
\<close>

theorem minify_printed:
  assumes "json_ok j"
  shows "cJSON_Minify (cJSON_Print fd j) = Inr (cJSON_PrintUnformatted fd j)"
  using minifies_printed [OF assms, of fd 0 0]
  by (auto simp: minifies_def cJSON_Print_def cJSON_PrintUnformatted_def cJSON_Minify.simps(1) dest: spec [of _ "[]"])

theorem minify_printed_witness:
  "cJSON_Minify (cJSON_Print (\<lambda>m e. []) (JObject [(''a b'', JArray [JTrue, JString ''// x''])]))
     = Inr (cJSON_PrintUnformatted (\<lambda>m e. []) (JObject [(''a b'', JArray [JTrue, JString ''// x''])]))"
  by (rule minify_printed) (simp add: no_nul_def)

text \<open>
  A slash behind the start of a comment closes it, as the asterisk is read twice.
  A comment or a literal that is not closed leads the read pointer over the end of the text.
\<close>

lemma comment_open: "\<forall>i. Suc i < length s \<longrightarrow> \<not> (code (s ! i) = 42 \<and> code (s ! Suc i) = 47) \<Longrightarrow> comment_end s = Inl OutOfBounds"
proof (induction s)
  case (Cons c s)
  have "comment_end s = Inl OutOfBounds" using Cons.prems by (intro Cons.IH) fastforce
  moreover have "\<not> (code c = 42 \<and> cur s = 47)" using Cons.prems [rule_format, of 0] by (cases s) (auto simp: cur_def)
  ultimately show ?case by simp
qed simp

lemma minify_crashes:
  "\<forall>c \<in> set s. code c \<noteq> 42 \<Longrightarrow> cur s \<noteq> 47 \<Longrightarrow> cJSON_Minify (char_of (47 :: nat) # char_of (42 :: nat) # s) = Inl OutOfBounds"
  "\<forall>c \<in> set s. code c \<noteq> 34 \<and> code c \<noteq> 92 \<Longrightarrow> cJSON_Minify (char_of (34 :: nat) # s) = Inl OutOfBounds"
proof -
  assume s: "\<forall>c \<in> set s. code c \<noteq> 42" and cur: "cur s \<noteq> 47"
  then have "comment_end s = Inl OutOfBounds" by (intro comment_open) auto
  then have "comment_end (char_of (47 :: nat) # char_of (42 :: nat) # s) = Inl OutOfBounds"
    using cur by simp
  then show "cJSON_Minify (char_of (47 :: nat) # char_of (42 :: nat) # s) = Inl OutOfBounds"
    by (simp add: cJSON_Minify.simps(2) [of "char_of (47 :: nat)"])
next
  assume "\<forall>c \<in> set s. code c \<noteq> 34 \<and> code c \<noteq> 92"
  then have "copy_literal s = Inl OutOfBounds" using copy_plain [of s "[]"] by simp
  then show "cJSON_Minify (char_of (34 :: nat) # s) = Inl OutOfBounds"
    by (simp add: cJSON_Minify.simps(2) [of "char_of (34 :: nat)"])
qed

end
