(* ===== verification/Log.thy ===== *)
theory Log
  imports File_System
begin

text \<open>
  soaregister/log.c: the log of the registering extension.  A line goes to the file of the day;
  before each line the handle checks whether the day has changed, or the file has been deleted or
  replaced, and opens the file again.  The log files are modelled with their inodes: a file that is
  deleted or renamed while it is open stays the target of the open handle.  One call is one step
  (the lock that \<open>threadsafe\<close> selects is taken in \<open>prepare_log\<close> only: what another thread does
  to the stream between \<open>prepare_log\<close> and \<open>fwrite\<close> is left out); the formatting of the arguments
  has been done, so a message is a text.
\<close>

section \<open>Levels and locks\<close>

datatype log_level = LEVEL_NONE | LEVEL_DEBUG | LEVEL_INFO | LEVEL_NOTICE | LEVEL_WARN | LEVEL_ERROR | LEVEL_FATAL

fun level_value :: "log_level \<Rightarrow> int" where
  "level_value LEVEL_NONE = -1"
| "level_value LEVEL_DEBUG = 0"
| "level_value LEVEL_INFO = 1"
| "level_value LEVEL_NOTICE = 2"
| "level_value LEVEL_WARN = 3"
| "level_value LEVEL_ERROR = 4"
| "level_value LEVEL_FATAL = 5"

lemma level_value_inject: "level_value a = level_value b \<Longrightarrow> a = b"
  by (cases a; cases b; simp)

text \<open>Levels are compared by their numbers.\<close>

instantiation log_level :: linorder
begin

definition less_eq_log_level :: "log_level \<Rightarrow> log_level \<Rightarrow> bool" where
  "less_eq_log_level a b \<longleftrightarrow> level_value a \<le> level_value b"

definition less_log_level :: "log_level \<Rightarrow> log_level \<Rightarrow> bool" where
  "less_log_level a b \<longleftrightarrow> level_value a < level_value b"

instance
  by standard (auto simp: less_eq_log_level_def less_log_level_def intro: level_value_inject)

end

datatype lock_type = LOCK_NONE | LOCK_BETWEEN_THREAD | LOCK_BETWEEN_PROCESS

definition get_locktype :: "string \<Rightarrow> lock_type" where
  "get_locktype lock_type_name =
     (if lock_type_name = ''thread'' then LOCK_BETWEEN_THREAD
      else if lock_type_name = ''process'' then LOCK_BETWEEN_PROCESS
      else LOCK_NONE)"

definition get_level :: "string \<Rightarrow> log_level" where
  "get_level level_name =
     (if level_name = ''debug'' then LEVEL_DEBUG
      else if level_name = ''info'' then LEVEL_INFO
      else if level_name = ''notice'' then LEVEL_NOTICE
      else if level_name = ''warn'' then LEVEL_WARN
      else if level_name = ''error'' then LEVEL_ERROR
      else if level_name = ''fatal'' then LEVEL_FATAL
      else LEVEL_NONE)"

fun level_name :: "log_level \<Rightarrow> string" where
  "level_name LEVEL_FATAL = ''[FATAL] ''"
| "level_name LEVEL_ERROR = ''[ERROR] ''"
| "level_name LEVEL_WARN = ''[WARN ] ''"
| "level_name LEVEL_NOTICE = ''[NOTICE]''"
| "level_name LEVEL_INFO = ''[INFO ] ''"
| "level_name LEVEL_DEBUG = ''[DEBUG] ''"
| "level_name LEVEL_NONE = []"

definition LEVEL_NAME_LEN :: nat where "LEVEL_NAME_LEN = 8"
definition LOG_BUF_LEN :: nat where "LOG_BUF_LEN = 4096"

section \<open>State\<close>

text \<open>The pointer \<open>fp\<close> to an open file is its inode; the lock and the stream's buffer are left out.\<close>

record log_handle =
  lh_status :: bool
  lh_fp :: "nat option"
  filenametpl :: string
  lh_filename :: string
  inode_value :: int
  lh_level :: log_level
  threadsafe :: lock_type
  rotate_size :: "64 word"
  w_curr :: "64 word"
  w_total :: "64 word"

text \<open>
  The log files: the inode behind a name, what an inode holds, the number of the next new inode,
  which names can be opened, and how many bytes the disk still takes.
\<close>

record log_disk =
  log_link :: "string \<rightharpoonup> nat"
  log_data :: "nat \<Rightarrow> string"
  log_next :: nat
  log_opens :: "string \<Rightarrow> bool"
  log_room :: nat

text \<open>A moment of the local time; the month counts from 1.\<close>

record log_time =
  tm_year :: nat
  tm_mon :: nat
  tm_mday :: nat
  tm_hour :: nat
  tm_min :: nat
  tm_sec :: nat
  tm_ms :: nat

section \<open>Text\<close>

text \<open>The conversions \<open>%0nd\<close> and \<open>%x\<close>.\<close>

definition pad0 :: "nat \<Rightarrow> nat \<Rightarrow> string" where
  "pad0 n v = replicate (n - length (dec_nat v)) CHR ''0'' @ dec_nat v"

fun hex_nat :: "nat \<Rightarrow> string" where
  "hex_nat n =
     (let d = n mod 16; c = char_of (if d < 10 then 48 + d else 87 + d)
      in if n < 16 then [c] else hex_nat (n div 16) @ [c])"

declare hex_nat.simps [simp del]

definition log_path :: "string \<Rightarrow> log_time \<Rightarrow> string" where
  "log_path tpl tm =
     snprintf_s PATH_MAX (tpl @ ''.'' @ pad0 4 (tm_year tm) @ pad0 2 (tm_mon tm) @ pad0 2 (tm_mday tm))"

definition log_stamp :: "log_time \<Rightarrow> u32 \<Rightarrow> u32 \<Rightarrow> string" where
  "log_stamp tm pid tid =
     pad0 4 (tm_year tm) @ ''-'' @ pad0 2 (tm_mon tm) @ ''-'' @ pad0 2 (tm_mday tm) @ '' ''
     @ pad0 2 (tm_hour tm) @ '':'' @ pad0 2 (tm_min tm) @ '':'' @ pad0 2 (tm_sec tm) @ ''.'' @ pad0 3 (tm_ms tm) @ '' ''
     @ dec_nat (unat pid) @ '':'' @ hex_nat (unat tid) @ '' ''"

section \<open>Files\<close>

definition get_inode :: "log_disk \<Rightarrow> string \<Rightarrow> int" where
  "get_inode d file_path = (case log_link d file_path of Some i \<Rightarrow> int i | None \<Rightarrow> -1)"

text \<open>\<open>fopen(path, "a")\<close>.\<close>

definition log_fopen :: "string \<Rightarrow> log_disk \<Rightarrow> nat option \<times> log_disk" where
  "log_fopen path d =
     (if \<not> log_opens d path then (None, d)
      else case log_link d path of
             Some i \<Rightarrow> (Some i, d)
           | None \<Rightarrow> (Some (log_next d),
               d\<lparr>log_link := (log_link d)(path \<mapsto> log_next d), log_data := (log_data d)(log_next d := []),
                 log_next := Suc (log_next d)\<rparr>))"

definition switch_file :: "string \<Rightarrow> log_handle \<Rightarrow> log_disk \<Rightarrow> int \<times> log_handle \<times> log_disk" where
  "switch_file file_path h d =
     (case log_fopen file_path d of
        (None, d) \<Rightarrow> (-1, h\<lparr>lh_fp := None, lh_status := False\<rparr>, d)
      | (Some fp, d) \<Rightarrow>
          (0, h\<lparr>lh_fp := Some fp, lh_filename := snprintf_s PATH_MAX file_path, inode_value := get_inode d file_path\<rparr>, d))"

definition prepare_log :: "log_time \<Rightarrow> log_handle \<Rightarrow> log_disk \<Rightarrow> int \<times> log_handle \<times> log_disk" where
  "prepare_log tm h d =
     (let file_path = log_path (filenametpl h) tm in
      if file_path \<noteq> lh_filename h then switch_file file_path h d
      else
        let cur_inode_value = get_inode d file_path;
            file_deleted = (cur_inode_value = -1);
            file_changed = (cur_inode_value \<noteq> -1 \<and> inode_value h \<noteq> cur_inode_value)
        in if file_deleted \<or> file_changed then switch_file file_path h d else (0, h, d))"

section \<open>Operations\<close>

definition open_log ::
  "string \<Rightarrow> string \<Rightarrow> string \<Rightarrow> 64 word \<Rightarrow> log_handle \<Rightarrow> filesystem \<Rightarrow> int \<times> log_handle \<times> filesystem" where
  "open_log filename levelname lock_type rsize h fs =
     (let h = h\<lparr>lh_status := True, lh_fp := None, filenametpl := [], lh_filename := [], inode_value := -1,
                lh_level := get_level levelname, rotate_size := 0, w_curr := 0, w_total := 0\<rparr> in
      if length filename > PATH_MAX - 25 then (-1, h\<lparr>lh_status := False\<rparr>, fs)
      else
        let (r, fs) = make_sure_dir (Some filename) MODE_755 fs in
        if r \<noteq> 0 then (-1, h\<lparr>lh_status := False\<rparr>, fs)
        else (0, h\<lparr>threadsafe := get_locktype lock_type, rotate_size := rsize,
                   filenametpl := snprintf_s PATH_MAX filename\<rparr>, fs))"

definition close_log :: "log_handle \<Rightarrow> int \<times> log_handle" where
  "close_log h =
     (if lh_status h \<and> lh_fp h = None then (0, h)
      else (0, if lh_status h then h\<lparr>lh_fp := None, lh_status := False\<rparr> else h\<lparr>lh_status := False\<rparr>))"

definition set_log_level :: "string \<Rightarrow> log_handle \<Rightarrow> log_handle" where
  "set_log_level levelname h = h\<lparr>lh_level := get_level levelname\<rparr>"

text \<open>
  What ends up in the buffer: \<open>vsnprintf\<close> stores at most \<open>space - 1\<close> characters and a NUL, and the
  pointer is moved behind the NUL when the text did not fit.
\<close>

definition log_line :: "log_level \<Rightarrow> string \<Rightarrow> log_time \<Rightarrow> u32 \<Rightarrow> u32 \<Rightarrow> string" where
  "log_line level msg tm pid tid =
     (let head = log_stamp tm pid tid @ level_name level; space = LOG_BUF_LEN - length head - 2;
          body = (if length msg < space then msg else take (space - 1) msg @ [CHR 0x00])
      in head @ body @ [CHR 0x0A])"

text \<open>
  The clock is read for the text and again for the file.  \<open>fwrite\<close> stores what there is room for;
  its result is not looked at.
\<close>

definition log_fwrite :: "nat \<Rightarrow> string \<Rightarrow> log_disk \<Rightarrow> log_disk" where
  "log_fwrite fp buf d =
     d\<lparr>log_data := (log_data d)(fp := log_data d fp @ take (log_room d) buf), log_room := log_room d - length buf\<rparr>"

definition logv ::
  "log_level \<Rightarrow> string \<Rightarrow> log_time \<Rightarrow> log_time \<Rightarrow> u32 \<Rightarrow> u32 \<Rightarrow> log_handle \<Rightarrow> log_disk
     \<Rightarrow> fault + int \<times> log_handle \<times> log_disk" where
  "logv level msg tm tm' pid tid h d =
     (if length (level_name level) < LEVEL_NAME_LEN then Inl OutOfBounds
      else
        let buf = log_line level msg tm pid tid; (r, h, d) = prepare_log tm' h d in
        if r \<noteq> 0 then Inr (-1, h, d)
        else
          (case lh_fp h of
             None \<Rightarrow> Inl NullDeref
           | Some fp \<Rightarrow> Inr (int (length buf), h, log_fwrite fp buf d)))"

definition log_write ::
  "log_level \<Rightarrow> string \<Rightarrow> log_time \<Rightarrow> log_time \<Rightarrow> u32 \<Rightarrow> u32 \<Rightarrow> log_handle \<Rightarrow> log_disk
     \<Rightarrow> fault + int \<times> log_handle \<times> log_disk" where
  "log_write level msg tm tm' pid tid h d =
     (if \<not> lh_status h \<or> lh_level h = LEVEL_NONE \<or> level < lh_level h then Inr (0, h, d)
      else logv level msg tm tm' pid tid h d)"

section \<open>The length of a line\<close>

definition real_time :: "log_time \<Rightarrow> bool" where
  "real_time tm \<longleftrightarrow> tm_year tm < 10000 \<and> tm_mon tm < 100 \<and> tm_mday tm < 100 \<and> tm_hour tm < 100
     \<and> tm_min tm < 100 \<and> tm_sec tm < 100 \<and> tm_ms tm < 1000"

lemma length_pad0: "v < 10 ^ k \<Longrightarrow> 0 < k \<Longrightarrow> length (pad0 k v) = k"
  using length_dec_nat [of v "k - 1"] by (simp add: pad0_def)

lemma length_hex_nat: "n < 16 ^ Suc k \<Longrightarrow> length (hex_nat n) \<le> Suc k"
proof (induction k arbitrary: n)
  case 0
  then show ?case by (simp add: hex_nat.simps [of n] Let_def)
next
  case (Suc k)
  have "n div 16 < 16 ^ Suc k" using Suc.prems by (simp add: less_mult_imp_div_less)
  then show ?case using Suc.IH [of "n div 16"] by (subst hex_nat.simps) (simp add: Let_def)
qed

lemma length_log_stamp:
  assumes "real_time tm"
  shows "length (log_stamp tm pid tid) \<le> 44"
proof -
  have "unat pid < 10 ^ Suc 9" using unsigned_less [of pid, where ?'a = nat] by simp
  then have p: "length (dec_nat (unat pid)) \<le> 10" using length_dec_nat [of "unat pid" 9] by simp
  have "unat tid < 16 ^ Suc 7" using unsigned_less [of tid, where ?'a = nat] by simp
  then have t: "length (hex_nat (unat tid)) \<le> 8" using length_hex_nat [of "unat tid" 7] by simp
  have "v < 100 \<Longrightarrow> length (pad0 2 v) = 2" "v < 10000 \<Longrightarrow> length (pad0 4 v) = 4"
    "v < 1000 \<Longrightarrow> length (pad0 3 v) = 3" for v
    by (simp_all add: length_pad0)
  then show ?thesis using assms p t by (simp add: log_stamp_def real_time_def)
qed

lemma length_level_name: "length (level_name l) \<le> 8"
  by (cases l) simp_all

section \<open>The handle and the files\<close>

definition disk_ok :: "log_disk \<Rightarrow> bool" where
  "disk_ok d \<longleftrightarrow> (\<forall>p i. log_link d p = Some i \<longrightarrow> i < log_next d)"

text \<open>An open handle knows the inode it writes to.\<close>

definition log_ok :: "log_handle \<times> log_disk \<Rightarrow> bool" where
  "log_ok = (\<lambda>(h, d). disk_ok d \<and>
     (lh_status h \<longrightarrow> (case lh_fp h of
        None \<Rightarrow> lh_filename h = []
      | Some i \<Rightarrow> inode_value h = int i \<and> i < log_next d)))"

lemma log_path_nonempty [simp]: "log_path tpl tm \<noteq> []"
proof -
  have "length (log_path tpl tm) = min 4095 (length (tpl @ ''.'' @ pad0 4 (tm_year tm) @ pad0 2 (tm_mon tm) @ pad0 2 (tm_mday tm)))"
    by (simp add: log_path_def length_snprintf_s PATH_MAX_def)
  then show ?thesis by force
qed

lemma log_path_cut [simp]: "snprintf_s PATH_MAX (log_path tpl tm) = log_path tpl tm"
  by (simp add: log_path_def)

text \<open>Where the file is opened the handle has the inode now behind the name; nothing else changes.\<close>

lemma log_fopen_result:
  assumes "log_opens d path" and "disk_ok d"
  obtains i d' where "log_fopen path d = (Some i, d')" and "log_link d' = (log_link d)(path \<mapsto> i)"
    and "log_data d' = (log_data d)(i := (case log_link d path of Some j \<Rightarrow> log_data d j | None \<Rightarrow> []))"
    and "i < log_next d'" "log_next d \<le> log_next d'" "disk_ok d'" "log_room d' = log_room d"
proof (cases "log_link d path")
  case None
  then show ?thesis using assms that by (fastforce simp: log_fopen_def disk_ok_def less_Suc_eq)
next
  case (Some j)
  then show ?thesis using assms that [of j d] by (auto simp: log_fopen_def disk_ok_def fun_upd_idem)
qed

text \<open>The handle has today's file open, and it is still the one behind the name.\<close>

definition still_open :: "log_handle \<Rightarrow> log_disk \<Rightarrow> string \<Rightarrow> bool" where
  "still_open h d path \<longleftrightarrow> lh_filename h = path \<and> log_link d path \<noteq> None \<and> inode_value h = get_inode d path"

lemma prepare_log_result:
  fixes h d tm
  defines "path \<equiv> log_path (filenametpl h) tm"
  assumes "log_ok (h, d)" and "lh_status h" and "log_opens d path \<or> still_open h d path"
  obtains i h' d' where "prepare_log tm h d = (0, h', d')" and "lh_fp h' = Some i"
    and "log_link d' = (log_link d)(path \<mapsto> i)"
    and "log_data d' = (log_data d)(i := (case log_link d path of Some j \<Rightarrow> log_data d j | None \<Rightarrow> []))"
    and "log_ok (h', d')" "lh_status h'" "lh_level h' = lh_level h" "filenametpl h' = filenametpl h"
    and "log_room d' = log_room d"
proof -
  have d: "disk_ok d" using assms(2) by (simp add: log_ok_def)
  show ?thesis
  proof (cases "still_open h d path")
    case False
    with assms(4) have "log_opens d path" by simp
    from log_fopen_result [OF this d] obtain i d' where
      open': "log_fopen path d = (Some i, d')" "log_link d' = (log_link d)(path \<mapsto> i)"
      "log_data d' = (log_data d)(i := (case log_link d path of Some j \<Rightarrow> log_data d j | None \<Rightarrow> []))"
      "i < log_next d'" "disk_ok d'" "log_room d' = log_room d" by metis
    let ?h = "h\<lparr>lh_fp := Some i, lh_filename := path, inode_value := int i\<rparr>"
    have switch: "switch_file path h d = (0, ?h, d')"
      using open'(1,2) unfolding path_def by (simp add: switch_file_def get_inode_def)
    have "prepare_log tm h d = (0, ?h, d')"
      using switch False unfolding path_def
      by (auto simp: prepare_log_def still_open_def get_inode_def Let_def split: option.splits)
    then show ?thesis
      using that [of ?h d' i] open' assms(3) by (simp add: log_ok_def)
  next
    case True
    then obtain j where j: "log_link d path = Some j" by (auto simp: still_open_def)
    have "lh_filename h \<noteq> []" using True unfolding path_def by (metis log_path_nonempty still_open_def)
    then have "lh_fp h = Some j"
      using assms(2,3) True j by (auto simp: log_ok_def still_open_def get_inode_def split: option.splits)
    moreover have "prepare_log tm h d = (0, h, d)"
      using True j unfolding path_def by (auto simp: prepare_log_def still_open_def get_inode_def Let_def)
    ultimately show ?thesis using that [of h d j] j assms(2,3) by (simp add: fun_upd_idem)
  qed
qed

section \<open>What can happen between lines\<close>

text \<open>
  The calls of the extension, and what others do to the files: delete, rename, create, append,
  take or give the permission to open, and use up or free the space on the disk.
\<close>

inductive log_step :: "log_handle \<times> log_disk \<Rightarrow> log_handle \<times> log_disk \<Rightarrow> bool" where
  log: "log_write level msg tm tm' pid tid h d = Inr (r, h', d') \<Longrightarrow> log_step (h, d) (h', d')"
| level: "log_step (h, d) (set_log_level s h, d)"
| close: "close_log h = (r, h') \<Longrightarrow> log_step (h, d) (h', d)"
| reopen: "open_log name lev lock rsize h fs = (r, h', fs') \<Longrightarrow> log_step (h, d) (h', d)"
| delete: "log_step (h, d) (h, d\<lparr>log_link := (log_link d)(p := None)\<rparr>)"
| rename: "log_step (h, d) (h, d\<lparr>log_link := (log_link d)(p := None, q := log_link d p)\<rparr>)"
| create: "log_fopen p d = (i, d') \<Longrightarrow> log_step (h, d) (h, d')"
| append: "log_step (h, d) (h, d\<lparr>log_data := (log_data d)(i := log_data d i @ s)\<rparr>)"
| permit: "log_step (h, d) (h, d\<lparr>log_opens := f\<rparr>)"
| space: "log_step (h, d) (h, d\<lparr>log_room := n\<rparr>)"

lemma log_fopen_mono:
  "log_fopen p d = (i, d') \<Longrightarrow> disk_ok d \<Longrightarrow> disk_ok d' \<and> log_next d \<le> log_next d'"
  by (auto simp: log_fopen_def disk_ok_def less_Suc_eq split: if_splits option.splits)

lemma log_ok_disk:
  "log_ok (h, d) \<Longrightarrow> disk_ok d' \<Longrightarrow> log_next d \<le> log_next d' \<Longrightarrow> log_ok (h, d')"
  by (auto simp: log_ok_def split: option.splits)

lemma prepare_log_ok:
  assumes "prepare_log tm h d = (r, h', d')" and "log_ok (h, d)"
  shows "log_ok (h', d') \<and> (lh_status h' \<longrightarrow> lh_status h)"
proof (cases "switch_file (log_path (filenametpl h) tm) h d = (r, h', d')")
  case False
  then show ?thesis using assms by (auto simp: prepare_log_def Let_def split: if_splits)
next
  case True
  have d: "disk_ok d" using assms(2) by (simp add: log_ok_def)
  show ?thesis
  proof (cases "log_opens d (log_path (filenametpl h) tm)")
    case closed: False
    then show ?thesis using True assms(2) by (auto simp: switch_file_def log_fopen_def log_ok_def)
  next
    case opens: True
    obtain i d1 where "log_fopen (log_path (filenametpl h) tm) d = (Some i, d1)"
      "log_link d1 = (log_link d)(log_path (filenametpl h) tm \<mapsto> i)" "i < log_next d1" "disk_ok d1"
      using log_fopen_result [OF opens d] by metis
    then show ?thesis using True by (auto simp: switch_file_def log_ok_def get_inode_def)
  qed
qed

lemma log_write_ok:
  assumes "log_write level msg tm tm' pid tid h d = Inr (r, h', d')" and "log_ok (h, d)"
  shows "log_ok (h', d')"
proof (cases "(h', d') = (h, d)")
  case False
  then obtain r1 d1 where p: "prepare_log tm' h d = (r1, h', d1)"
    "d' = d1 \<or> (\<exists>fp buf. d' = log_fwrite fp buf d1)"
    using assms(1) by (auto simp: log_write_def logv_def Let_def split: if_splits prod.splits option.splits)
  then have "log_ok (h', d1)" using prepare_log_ok assms(2) by blast
  then show ?thesis using p(2) by (auto simp: log_ok_def disk_ok_def log_fwrite_def split: option.splits)
qed (use assms(2) in simp)

lemma log_step_ok: "log_step s s' \<Longrightarrow> log_ok s \<Longrightarrow> log_ok s'"
proof (induction rule: log_step.induct)
  case (log level msg tm tm' pid tid h d r h' d')
  then show ?case by (rule log_write_ok)
next
  case (create p d i d' h)
  then show ?case using log_fopen_mono [of p d i d'] log_ok_disk [of h d d'] by (simp add: log_ok_def)
next
  case (reopen name lev lock rsize h fs r h' fs' d)
  then show ?case by (auto simp: open_log_def log_ok_def Let_def split: if_splits prod.splits)
next
  case (close h r h' d)
  then show ?case by (auto simp: close_log_def log_ok_def split: if_splits)
qed (auto simp: set_log_level_def log_ok_def disk_ok_def split: option.splits if_splits)

lemma reachable_log_ok: "log_step\<^sup>*\<^sup>* s s' \<Longrightarrow> log_ok s \<Longrightarrow> log_ok s'"
  by (induction rule: rtranclp_induct) (auto intro: log_step_ok)

lemma open_log_ok:
  "disk_ok d \<Longrightarrow> open_log name lev lock rsize h fs = (r, h', fs') \<Longrightarrow> log_ok (h', d)"
  by (auto simp: open_log_def log_ok_def Let_def split: if_splits prod.splits)

lemma level_name_full: "level \<noteq> LEVEL_NONE \<Longrightarrow> length (level_name level) = LEVEL_NAME_LEN"
  by (cases level) (simp_all add: LEVEL_NAME_LEN_def)

lemma log_write_lands:
  fixes h d tm'
  defines "path \<equiv> log_path (filenametpl h) tm'"
  assumes "log_ok (h, d)" and "lh_status h" and "LEVEL_NONE < lh_level h" and "lh_level h \<le> level"
    and "log_opens d path \<or> still_open h d path"
  shows "\<exists>h' d' i. log_write level msg tm tm' pid tid h d = Inr (int (length (log_line level msg tm pid tid)), h', d')
    \<and> lh_status h' \<and> log_link d' = (log_link d)(path \<mapsto> i)
    \<and> log_data d' = (log_data d)(i := (case log_link d path of Some j \<Rightarrow> log_data d j | None \<Rightarrow> [])
         @ take (log_room d) (log_line level msg tm pid tid))"
proof -
  obtain i h1 d1 where p: "prepare_log tm' h d = (0, h1, d1)" "lh_fp h1 = Some i" "log_link d1 = (log_link d)(path \<mapsto> i)"
    "log_data d1 = (log_data d)(i := (case log_link d path of Some j \<Rightarrow> log_data d j | None \<Rightarrow> []))" "lh_status h1"
    "log_room d1 = log_room d"
    using prepare_log_result [OF assms(2,3)] assms(6) unfolding path_def by metis
  have "level \<noteq> LEVEL_NONE" using assms(4,5) by auto
  then have "log_write level msg tm tm' pid tid h d = Inr (int (length (log_line level msg tm pid tid)), h1,
      log_fwrite i (log_line level msg tm pid tid) d1)"
    using assms(3-5) p(1,2) level_name_full [of level] by (auto simp: log_write_def logv_def Let_def)
  then show ?thesis
    using p(3-6)
    by (intro exI [of _ h1] exI [of _ "log_fwrite i (log_line level msg tm pid tid) d1"] exI [of _ i])
       (simp add: log_fwrite_def)
qed

lemma log_write_shuts:
  fixes h d tm'
  defines "path \<equiv> log_path (filenametpl h) tm'"
  assumes "lh_status h" and "LEVEL_NONE < lh_level h" and "lh_level h \<le> level"
    and "\<not> log_opens d path" and "\<not> still_open h d path"
  shows "\<exists>h'. log_write level msg tm tm' pid tid h d = Inr (-1, h', d) \<and> \<not> lh_status h'"
proof -
  have "switch_file path h d = (-1, h\<lparr>lh_fp := None, lh_status := False\<rparr>, d)"
    using assms(5) by (simp add: switch_file_def log_fopen_def)
  then have "prepare_log tm' h d = (-1, h\<lparr>lh_fp := None, lh_status := False\<rparr>, d)"
    using assms(6) unfolding path_def
    by (auto simp: prepare_log_def still_open_def get_inode_def Let_def split: option.splits)
  moreover have "level \<noteq> LEVEL_NONE" using assms(3,4) by auto
  ultimately show ?thesis
    using assms(2-4) level_name_full [of level] by (auto simp: log_write_def logv_def Let_def)
qed

section \<open>Properties\<close>

text \<open>
  C34: whatever has happened since the log was opened - lines, days, rotation, deletion, replacement,
  truncated permissions of its files and a full disk - there are three cases.  A line below the
  threshold (or of a log that is shut) does nothing.  Otherwise, when today's file can be opened or
  the handle has it open already, the line is appended to the file that now stands under today's
  name, which is created when it is missing, and no other file changes; the line is whole when the
  disk has room for it and is cut to what there is room for otherwise, and in both cases the caller
  is told the length of the whole line.  When today's file is not open and cannot be opened nothing
  is written and the log is shut for good.
\<close>

theorem log_write_spec:
  fixes level msg tm tm' pid tid h d
  defines "path \<equiv> log_path (filenametpl h) tm'" and "text_line \<equiv> log_line level msg tm pid tid"
  assumes "open_log name lev lock rsize prev fs = (r, h0, fs')" and "disk_ok d0" and "log_step\<^sup>*\<^sup>* (h0, d0) (h, d)"
  shows "if \<not> lh_status h \<or> lh_level h = LEVEL_NONE \<or> level < lh_level h
    then log_write level msg tm tm' pid tid h d = Inr (0, h, d)
    else if log_opens d path \<or> still_open h d path
    then (\<exists>h' d' i. log_write level msg tm tm' pid tid h d = Inr (int (length text_line), h', d')
          \<and> lh_status h' \<and> log_link d' = (log_link d)(path \<mapsto> i)
          \<and> log_data d' = (log_data d)(i := (case log_link d path of Some j \<Rightarrow> log_data d j | None \<Rightarrow> [])
               @ (if length text_line \<le> log_room d then text_line else take (log_room d) text_line)))
    else (\<exists>h'. log_write level msg tm tm' pid tid h d = Inr (-1, h', d) \<and> \<not> lh_status h')"
proof (cases "\<not> lh_status h \<or> lh_level h = LEVEL_NONE \<or> level < lh_level h")
  case True
  then show ?thesis by (simp add: log_write_def)
next
  case False
  have ok: "log_ok (h, d)" using reachable_log_ok [OF assms(5)] open_log_ok [OF assms(4,3)] by simp
  have cut: "(if length text_line \<le> log_room d then text_line else take (log_room d) text_line) = take (log_room d) text_line"
    by simp
  have "LEVEL_NONE < lh_level h" using False by (cases "lh_level h") (simp_all add: less_log_level_def)
  then have on: "lh_status h" "LEVEL_NONE < lh_level h" "lh_level h \<le> level" using False by (simp_all add: not_less)
  show ?thesis
  proof (cases "log_opens d path \<or> still_open h d path")
    case True
    show ?thesis
      unfolding if_not_P [OF False] if_P [OF True] cut unfolding path_def text_line_def
      by (rule log_write_lands [OF ok on True [unfolded path_def]])
  next
    case shut: False
    then have "\<not> log_opens d path" "\<not> still_open h d path" by blast+
    from log_write_shuts [OF on this [unfolded path_def]] show ?thesis
      unfolding if_not_P [OF False] if_not_P [OF shut] .
  qed
qed

text \<open>
  C35: a line never leaves the buffer of 4096 bytes and ends in a newline.  A text that fits follows
  the time, the process, the thread and the level unchanged; a longer one is cut, and the NUL that
  \<open>vsnprintf\<close> stored stays in the line.
\<close>

theorem log_line_fits:
  fixes pid tid
  assumes "real_time tm" and "level \<noteq> LEVEL_NONE"
  defines "room \<equiv> LOG_BUF_LEN - length (log_stamp tm pid tid) - LEVEL_NAME_LEN - 2"
  shows "length (log_line level msg tm pid tid) < LOG_BUF_LEN \<and> 4042 \<le> room
    \<and> log_line level msg tm pid tid =
        log_stamp tm pid tid @ level_name level
          @ (if length msg < room then msg else take (room - 1) msg @ [CHR 0x00]) @ [CHR 0x0A]"
proof -
  note len = length_log_stamp [OF assms(1), of pid tid] level_name_full [OF assms(2)]
  have "LOG_BUF_LEN - length (log_stamp tm pid tid @ level_name level) - 2 = room" by (simp add: room_def len)
  moreover have "4042 \<le> room" "length (log_stamp tm pid tid) + LEVEL_NAME_LEN + room + 2 = LOG_BUF_LEN"
    using len(1) by (simp_all add: room_def LEVEL_NAME_LEN_def LOG_BUF_LEN_def)
  ultimately show ?thesis by (auto simp: log_line_def Let_def len)
qed

section \<open>A small log\<close>

definition small_log :: log_handle where
  "small_log = \<lparr>lh_status = False, lh_fp = None, filenametpl = [], lh_filename = [], inode_value = 0,
     lh_level = LEVEL_DEBUG, threadsafe = LOCK_NONE, rotate_size = 0, w_curr = 0, w_total = 0\<rparr>"

definition noon :: log_time where
  "noon = \<lparr>tm_year = 2016, tm_mon = 3, tm_mday = 9, tm_hour = 12, tm_min = 0, tm_sec = 5, tm_ms = 7\<rparr>"

definition small_disk :: log_disk where
  "small_disk = \<lparr>log_link = Map.empty, log_data = (\<lambda>_. []), log_next = 0, log_opens = (\<lambda>_. True), log_room = 1000\<rparr>"

theorem log_write_spec_witness:
  "\<exists>h fs. open_log ''/p.log'' ''info'' ''thread'' 0 small_log empty_fs = (0, h, fs) \<and>
     (\<exists>h' d' i. log_write LEVEL_WARN ''hi'' noon noon 1 2 h small_disk = Inr (39, h', d')
       \<and> log_link d' ''/p.log.20160309'' = Some i
       \<and> log_data d' i = ''2016-03-09 12:00:05.007 1:2 [WARN ] hi'' @ [CHR 0x0A])"
proof -
  let ?h = "small_log\<lparr>lh_status := True, inode_value := -1, lh_level := LEVEL_INFO,
      threadsafe := LOCK_BETWEEN_THREAD, filenametpl := ''/p.log''\<rparr>"
  have dir: "make_sure_dir (Some ''/p.log'') MODE_755 empty_fs = (0, empty_fs)"
    by (simp add: make_sure_dir_def snprintf_s_fits PATH_MAX_def slash_prefixes_stop)
  have opened: "open_log ''/p.log'' ''info'' ''thread'' 0 small_log empty_fs = (0, ?h, empty_fs)"
    by (simp add: open_log_def dir get_level_def get_locktype_def small_log_def snprintf_s_fits PATH_MAX_def)
  have digits: "[char_of (48 :: nat), char_of (49 :: nat), char_of (50 :: nat), char_of (51 :: nat), char_of (53 :: nat),
      char_of (54 :: nat), char_of (55 :: nat), char_of (57 :: nat)] = ''01235679''" "replicate 2 CHR ''0'' = ''00''" by code_simp+
  have stamp: "log_stamp noon 1 2 = ''2016-03-09 12:00:05.007 1:2 ''"
    "pad0 4 (tm_year noon) @ pad0 2 (tm_mon noon) @ pad0 2 (tm_mday noon) = ''20160309''"
    by (simp_all add: log_stamp_def noon_def pad0_def dec_nat.simps hex_nat.simps digit_char_def Let_def digits [simplified])
  have shown: "log_line LEVEL_WARN ''hi'' noon 1 2 = ''2016-03-09 12:00:05.007 1:2 [WARN ] hi'' @ [CHR 0x0A]"
    "log_path ''/p.log'' noon = ''/p.log.20160309''"
    by (simp_all add: log_line_def log_path_def stamp LOG_BUF_LEN_def PATH_MAX_def snprintf_s_fits)
  have "disk_ok small_disk" by (simp add: disk_ok_def small_disk_def)
  from log_write_spec [OF opened this rtranclp.rtrancl_refl, of LEVEL_WARN "''hi''" noon noon 1 2]
  have "\<exists>h' d' i. log_write LEVEL_WARN ''hi'' noon noon 1 2 ?h small_disk = Inr (39, h', d')
      \<and> log_link d' = (log_link small_disk)(''/p.log.20160309'' \<mapsto> i)
      \<and> log_data d' = (log_data small_disk)(i := [] @ ''2016-03-09 12:00:05.007 1:2 [WARN ] hi'' @ [CHR 0x0A])"
    by (simp add: shown small_log_def small_disk_def less_log_level_def less_eq_log_level_def) blast
  then show ?thesis unfolding opened by fastforce
qed

theorem log_line_fits_witness:
  "length (log_line LEVEL_WARN (replicate 5000 CHR ''x'') noon 1 2) < LOG_BUF_LEN"
proof -
  have "real_time noon" by (simp add: real_time_def noon_def)
  from log_line_fits [OF this, of LEVEL_WARN "replicate 5000 CHR ''x''" 1 2] show ?thesis by blast
qed

end
