(* ===== verification/Service_Mgt.thy ===== *)
theory Service_Mgt
  imports Agent_Routes Log
begin

text \<open>
  soaregister: the PHP extension that registers a provider (service_mgt.c, scp.c).  It publishes
  the url-encoded description of its services as the name of an ephemeral node, and does so again
  when its session has expired.  The files it shares with the agent (JSON, URL coding, ZooKeeper
  wrapper, files) are the agent's models; the calls of PHP are the operations at the end.
\<close>

section \<open>State\<close>

text \<open>\<open>zk_h\<close> with the path of the node, and \<open>g_inited\<close>.\<close>

record provider_stub =
  p_zk_h :: zk_handle
  node_value :: string
  p_inited :: bool

text \<open>The settings of php.ini.\<close>

record scp_globals =
  g_zk_addrs :: string
  g_log_path :: string
  g_log_level :: string
  g_log_lock_type :: string
  g_log_rotate_size :: "64 word"

record 'z extension =
  ext_stub :: provider_stub
  ext_log :: log_handle
  ext_disk :: filesystem
  ext_zk :: 'z

section \<open>Registration\<close>

text \<open>The path is cut when it is too long.\<close>

definition node_path :: "string \<Rightarrow> string \<Rightarrow> string" where
  "node_path g content =
     snprintf_s MAX_NODE_PATH_LEN
       (''/'' @ g @ ''/providers/'' @ url_encode content)"

definition register_services ::
  "'z zk_client \<Rightarrow> provider_stub \<Rightarrow> filesystem \<Rightarrow> 'z \<Rightarrow> fault + int \<times> provider_stub \<times> 'z" where
  "register_services api stub fs z =
     (case read_content_from_file (Some (config_file_path (p_zk_h stub))) fs of
        None \<Rightarrow> Inr (-1, stub, z)
      | Some buffer \<Rightarrow>
          let content = c_string buffer in
          after (cJSON_Parse content) (\<lambda>root.
            case root of
              None \<Rightarrow> Inr (-1, stub, z)
            | Some _ \<Rightarrow>
                after (cJSON_GetObjectItem root ''group'') (\<lambda>i. after (valuestring i) (\<lambda>group_name.
                after (the_string group_name) (\<lambda>g.
                  let path = node_path g content;
                      (ret, z) = make_sure_enode api path None z
                  in if ret \<noteq> 0 then Inr (-1, stub, z) else Inr (0, stub\<lparr>node_value := path\<rparr>, z))))))"

definition provider_zk_watcher_marshal ::
  "'z zk_client \<Rightarrow> zoo_event \<Rightarrow> zoo_state \<Rightarrow> 'z extension \<Rightarrow> fault + 'z extension" where
  "provider_zk_watcher_marshal api type state x =
     (if type = ZOO_SESSION_EVENT \<and> state = ZOO_EXPIRED_SESSION_STATE then
        (let h = p_zk_h (ext_stub x);
             (_, z) = fini_zk_handle api (ext_zk x);
             (r, z, fs) = init_zk_handle api (zk_addrs h) (agent_pid h) z (ext_disk x);
             x = x\<lparr>ext_zk := z, ext_disk := fs\<rparr>
         in if r \<noteq> 0 then Inr x
            else after (register_services api (ext_stub x) fs z) (\<lambda>(_, stub, z). Inr (x\<lparr>ext_stub := stub, ext_zk := z\<rparr>)))
      else Inr x)"

definition provider_stub_init ::
  "'z zk_client \<Rightarrow> string \<Rightarrow> string \<Rightarrow> int \<Rightarrow> 'z extension \<Rightarrow> fault + int \<times> 'z extension" where
  "provider_stub_init api addrs config_file pid x =
     (let h = \<lparr>zk_addrs = snprintf_s MAX_ZK_ADDR_LEN addrs, config_file_path = snprintf_s PATH_MAX config_file,
               agent_pid = pid\<rparr>;
          stub = (ext_stub x)\<lparr>p_zk_h := h, node_value := []\<rparr>;
          (r, z, fs) = init_zk_handle api (zk_addrs h) pid (ext_zk x) (ext_disk x);
          x = x\<lparr>ext_stub := stub, ext_zk := z, ext_disk := fs\<rparr>
      in if r \<noteq> 0 then Inr (-1, x)
         else after (register_services api stub fs z) (\<lambda>(r, stub, z).
                if r \<noteq> 0 then Inr (-1, x\<lparr>ext_stub := stub, ext_zk := z\<rparr>)
                else Inr (0, x\<lparr>ext_stub := stub\<lparr>p_inited := True\<rparr>, ext_zk := z\<rparr>)))"

definition provider_stub_destroy :: "'z zk_client \<Rightarrow> 'z extension \<Rightarrow> int \<times> 'z extension" where
  "provider_stub_destroy api x =
     (if p_inited (ext_stub x)
      then (let (_, z) = fini_zk_handle api (ext_zk x)
            in (0, x\<lparr>ext_zk := z, ext_stub := (ext_stub x)\<lparr>p_inited := False\<rparr>\<rparr>))
      else (0, x))"

definition get_cur_node_path :: "'z extension \<Rightarrow> string" where
  "get_cur_node_path x = node_value (ext_stub x)"

section \<open>The calls of PHP\<close>

text \<open>The first argument of \<open>register_service_by_file\<close> is not used: the address is the setting's.\<close>

definition register_service_by_file ::
  "'z zk_client \<Rightarrow> scp_globals \<Rightarrow> int \<Rightarrow> string \<Rightarrow> string \<Rightarrow> 'z extension \<Rightarrow> fault + int \<times> 'z extension" where
  "register_service_by_file api ini pid addrs service_define_config_file x =
     after (provider_stub_init api (g_zk_addrs ini) service_define_config_file pid x) (\<lambda>(r, x).
       Inr (if r \<noteq> 0 then -1 else 0, x))"

text \<open>The extension's copy of \<open>write_content_to_file\<close> refuses an empty content.\<close>

definition write_nonempty_to_file :: "string \<Rightarrow> string \<Rightarrow> filesystem \<Rightarrow> int \<times> filesystem" where
  "write_nonempty_to_file path buffer fs = (if buffer = [] then (-1, fs) else write_content_to_file path buffer fs)"

definition scp_write_node_value :: "string \<Rightarrow> 'z extension \<Rightarrow> int \<times> 'z extension" where
  "scp_write_node_value output_file_path x =
     (0, x\<lparr>ext_disk := snd (write_nonempty_to_file output_file_path (get_cur_node_path x) (ext_disk x))\<rparr>)"

text \<open>The start and the end of the module; the start tells whether it succeeded.\<close>

definition scp_minit :: "scp_globals \<Rightarrow> 'z extension \<Rightarrow> bool \<times> 'z extension" where
  "scp_minit ini x =
     (let (r, lg, fs) = open_log (g_log_path ini) (g_log_level ini) (g_log_lock_type ini) (g_log_rotate_size ini)
                          (ext_log x) (ext_disk x)
      in (r = 0, x\<lparr>ext_log := lg, ext_disk := fs\<rparr>))"

definition scp_mshutdown :: "'z zk_client \<Rightarrow> 'z extension \<Rightarrow> 'z extension" where
  "scp_mshutdown api x =
     (let (_, x) = provider_stub_destroy api x; (_, lg) = close_log (ext_log x) in x\<lparr>ext_log := lg\<rparr>)"

section \<open>One registration\<close>

text \<open>A description of group \<open>g\<close> whose node name is not cut.\<close>

definition publishable :: "string \<Rightarrow> string \<Rightarrow> bool" where
  "publishable g content \<longleftrightarrow> CHR 0x00 \<notin> set content
     \<and> length g + length (url_encode content) + 12 < MAX_NODE_PATH_LEN"

lemma node_path_fits: "publishable g content \<Longrightarrow> node_path g content = zpath [g, ''providers'', url_encode content]"
  by (simp add: node_path_def publishable_def snprintf_s_fits)

lemma url_encode_quote: "CHR 34 \<in> set s \<Longrightarrow> CHR ''%'' \<in> set (url_encode s)"
  by (induction s) (auto simp: must_escape_def)

lemma encoded_name: "CHR 34 \<in> set s \<Longrightarrow> znode_name (url_encode s)"
  using url_encode_quote [of s] url_encode_no_slash [of s] by (auto simp: znode_name_def)

lemma described_group:
  "described content (h, p, g, svs) \<Longrightarrow> \<exists>root. cJSON_Parse content = Inr (Some root)
     \<and> find_child (children root) ''group'' = Some (JString g)"
  by (auto simp: described_def provides_def)

lemma register_services_creates:
  assumes doc: "zk_documented api nt"
    and reads: "read_content_from_file (Some (config_file_path (p_zk_h stub))) fs = Some content"
    and content: "described content (h, p, g, svs)" "publishable g content" "znode_name g"
    and above: "no_ephemeral_above (nt z) [g, ''providers'', url_encode content]"
  shows "\<exists>r stub' z'. register_services api stub fs z = Inr (r, stub', z')
    \<and> r = (if nt z [g, ''providers'', url_encode content] = None then 0 else -1)
    \<and> (r = 0 \<longrightarrow> stub' = stub\<lparr>node_value := zpath [g, ''providers'', url_encode content]\<rparr>)
    \<and> (\<forall>k. nt z' k =
          (if nt z k \<noteq> None then nt z k
           else if k = [g, ''providers'', url_encode content] then Some (None, True)
           else if k \<in> range (\<lambda>i. take i [g, ''providers'']) then Some (None, False) else None))"
proof -
  let ?path = "zpath ([g, ''providers''] @ [url_encode content])"
  have "CHR 34 \<in> set content" using content(1) by (simp add: described_def)
  then have names: "list_all znode_name ([g, ''providers''] @ [url_encode content])"
    using content(3) encoded_name by (simp add: znode_name_def)
  obtain r z' where r: "make_sure_enode api ?path None z = (r, z')"
    "r = (if nt z ([g, ''providers''] @ [url_encode content]) = None then 0 else -1)"
    "\<forall>k. nt z' k = (if nt z k \<noteq> None then nt z k
       else if k = [g, ''providers''] @ [url_encode content] then Some (None, True)
       else if k \<in> range (\<lambda>i. take i [g, ''providers'']) then Some (None, False) else None)"
    using make_sure_enode_creates [OF doc names, of z None] above by auto
  obtain root where root: "cJSON_Parse content = Inr (Some root)" "find_child (children root) ''group'' = Some (JString g)"
    using described_group [OF content(1)] by blast
  have "register_services api stub fs z =
    Inr (if r \<noteq> 0 then (-1, stub, z') else (0, stub\<lparr>node_value := ?path\<rparr>, z'))"
    using reads root r(1) node_path_fits [OF content(2)] c_string_id [of content] content(2)
    by (simp add: register_services_def cJSON_GetObjectItem_def valuestring_def the_string_def publishable_def)
  then show ?thesis using r by auto
qed

section \<open>Sessions\<close>

text \<open>What the extension finds once a new session has been made: its file, and no node of its own.\<close>

definition may_register :: "('z \<Rightarrow> znodes) \<Rightarrow> 'z zk_client \<Rightarrow> zk_handle \<Rightarrow> string \<Rightarrow> string \<Rightarrow> 'z \<Rightarrow> filesystem \<Rightarrow> bool" where
  "may_register nt api h g content z fs \<longleftrightarrow> (case init_zk_handle api (zk_addrs h) (agent_pid h) z fs of
     (r, z', fs') \<Rightarrow> r = 0 \<and> read_content_from_file (Some (config_file_path h)) fs' = Some content
       \<and> nt z' [g, ''providers'', url_encode content] = None
       \<and> no_ephemeral_above (nt z') [g, ''providers'', url_encode content])"

definition registered_as :: "('z \<Rightarrow> znodes) \<Rightarrow> string \<Rightarrow> string \<Rightarrow> 'z extension \<Rightarrow> bool" where
  "registered_as nt g content x \<longleftrightarrow> get_cur_node_path x = zpath [g, ''providers'', url_encode content]
     \<and> nt (ext_zk x) [g, ''providers'', url_encode content] = Some (None, True)"

lemma may_register_step:
  assumes "zk_documented api nt" and "described content (hs, p, g, svs)" "publishable g content" "znode_name g"
    and "may_register nt api h g content z fs" and "p_zk_h stub = h"
  obtains z1 fs1 z2 where "init_zk_handle api (zk_addrs h) (agent_pid h) z fs = (0, z1, fs1)"
    and "register_services api stub fs1 z1 = Inr (0, stub\<lparr>node_value := zpath [g, ''providers'', url_encode content]\<rparr>, z2)"
    and "nt z2 [g, ''providers'', url_encode content] = Some (None, True)"
proof -
  obtain z1 fs1 where init: "init_zk_handle api (zk_addrs h) (agent_pid h) z fs = (0, z1, fs1)"
    "read_content_from_file (Some (config_file_path h)) fs1 = Some content"
    "nt z1 [g, ''providers'', url_encode content] = None"
    "no_ephemeral_above (nt z1) [g, ''providers'', url_encode content]"
    using assms(5) by (auto simp: may_register_def)
  have "read_content_from_file (Some (config_file_path (p_zk_h stub))) fs1 = Some content" using init(2) assms(6) by simp
  from register_services_creates [OF assms(1) this assms(2-4) init(4)] init(1,3) that show thesis by auto
qed

lemma provider_stub_init_registers:
  fixes addrs config_file pid
  defines "h \<equiv> \<lparr>zk_addrs = snprintf_s MAX_ZK_ADDR_LEN addrs, config_file_path = snprintf_s PATH_MAX config_file, agent_pid = pid\<rparr>"
  assumes "zk_documented api nt" and "described content (hs, p, g, svs)" "publishable g content" "znode_name g"
    and "may_register nt api h g content (ext_zk x) (ext_disk x)"
  shows "\<exists>x'. provider_stub_init api addrs config_file pid x = Inr (0, x') \<and> registered_as nt g content x'
    \<and> p_inited (ext_stub x') \<and> p_zk_h (ext_stub x') = h"
proof -
  let ?stub = "(ext_stub x)\<lparr>p_zk_h := h, node_value := []\<rparr>"
  have "p_zk_h ?stub = h" by simp
  from may_register_step [OF assms(2-6) this] obtain z1 fs1 z2 where
    "init_zk_handle api (zk_addrs h) (agent_pid h) (ext_zk x) (ext_disk x) = (0, z1, fs1)"
    "register_services api ?stub fs1 z1 = Inr (0, ?stub\<lparr>node_value := zpath [g, ''providers'', url_encode content]\<rparr>, z2)"
    "nt z2 [g, ''providers'', url_encode content] = Some (None, True)" .
  then show ?thesis
    by (simp add: provider_stub_init_def Let_def registered_as_def get_cur_node_path_def h_def)
qed

text \<open>
  C33: a provider that registered at its start registers itself again under the same name when its
  session expires.  Both times the servers must take a new session, keep no node of the provider (the
  old session's node is gone) and no ephemeral node above it, and the description file must hold the
  same text (\<open>may_register\<close>); between start and event the servers, the files and the log may change
  in any way.  Then the start succeeds and so does the event: afterwards the node exists, the path
  that PHP is told is the one it was told before, and the provider counts as started.
\<close>

theorem expired_session_reregisters:
  assumes "zk_documented api nt" and "described content (hs, p, g, svs)" "publishable g content" "znode_name g"
    and start: "provider_stub_init api addrs config_file pid x0 = Inr (r, x)"
      "may_register nt api \<lparr>zk_addrs = snprintf_s MAX_ZK_ADDR_LEN addrs, config_file_path = snprintf_s PATH_MAX config_file,
         agent_pid = pid\<rparr> g content (ext_zk x0) (ext_disk x0)"
    and later: "ext_stub y = ext_stub x"
      "may_register nt api (p_zk_h (ext_stub y)) g content (snd (fini_zk_handle api (ext_zk y))) (ext_disk y)"
  shows "r = 0 \<and> registered_as nt g content x
    \<and> (\<exists>y'. provider_zk_watcher_marshal api ZOO_SESSION_EVENT ZOO_EXPIRED_SESSION_STATE y = Inr y'
         \<and> registered_as nt g content y' \<and> get_cur_node_path y' = get_cur_node_path x \<and> p_inited (ext_stub y'))"
proof -
  have x: "r = 0" "registered_as nt g content x" "p_inited (ext_stub x)"
    using provider_stub_init_registers [OF assms(1-4) start(2)] start(1) by auto
  let ?h = "p_zk_h (ext_stub y)"
  from may_register_step [OF assms(1-4) later(2) refl] obtain z1 fs1 z2 where
    "init_zk_handle api (zk_addrs ?h) (agent_pid ?h) (snd (fini_zk_handle api (ext_zk y))) (ext_disk y) = (0, z1, fs1)"
    "register_services api (ext_stub y) fs1 z1 =
       Inr (0, (ext_stub y)\<lparr>node_value := zpath [g, ''providers'', url_encode content]\<rparr>, z2)"
    "nt z2 [g, ''providers'', url_encode content] = Some (None, True)" .
  then have "\<exists>y'. provider_zk_watcher_marshal api ZOO_SESSION_EVENT ZOO_EXPIRED_SESSION_STATE y = Inr y'
      \<and> registered_as nt g content y' \<and> p_inited (ext_stub y') = p_inited (ext_stub y)"
    by (simp add: provider_zk_watcher_marshal_def Let_def registered_as_def get_cur_node_path_def split_beta)
  with x later(1) show ?thesis by (auto simp: registered_as_def)
qed

section \<open>All providers of a group\<close>

text \<open>
  The providers that have registered one after the other, each through its own client over the
  same servers, with what their files of description hold.
\<close>

inductive registered :: "('z \<Rightarrow> znodes) \<Rightarrow> 'z \<Rightarrow> string list \<Rightarrow> 'z \<Rightarrow> bool" for nt z0 where
  none: "registered nt z0 [] z0"
| one: "registered nt z0 contents z \<Longrightarrow> zk_documented api nt \<Longrightarrow>
     read_content_from_file (Some (config_file_path (p_zk_h stub))) fs = Some content \<Longrightarrow>
     register_services api stub fs z = Inr (0, stub', z') \<Longrightarrow> registered nt z0 (content # contents) z'"

text \<open>Before the first registration the group has no providers.\<close>

definition no_providers :: "znodes \<Rightarrow> string \<Rightarrow> bool" where
  "no_providers t g \<longleftrightarrow> no_ephemeral_above t [g, ''providers'', []] \<and> (\<forall>n. t [g, ''providers'', n] = None)"

definition providers_of :: "znodes \<Rightarrow> string \<Rightarrow> string set" where
  "providers_of t g = {n. t [g, ''providers'', n] \<noteq> None}"

lemma no_ephemeral_above_name: "no_ephemeral_above t [a, b, n] = no_ephemeral_above t [a, b, m]"
  by (simp add: no_ephemeral_above_def upt_rec)

lemma prefixes_two: "range (\<lambda>i. take i [a, b]) = {[], [a], [a, b]}"
proof (rule set_eqI)
  fix x
  have "take i [a, b] = (if i = 0 then [] else if i = 1 then [a] else [a, b])" for i
    by (cases i) (simp_all add: take_Cons')
  then have "x \<in> range (\<lambda>i. take i [a, b]) \<longleftrightarrow> (\<exists>i :: nat. x = (if i = 0 then [] else if i = 1 then [a] else [a, b]))"
    by (simp only: image_iff bex_UNIV)
  also have "\<dots> \<longleftrightarrow> x \<in> {[], [a], [a, b]}"
    by (auto intro: exI [of _ 0] exI [of _ 1] exI [of _ 2])
  finally show "x \<in> range (\<lambda>i. take i [a, b]) \<longleftrightarrow> x \<in> {[], [a], [a, b]}" .
qed

lemma registered_nodes:
  assumes "registered nt z0 contents z" and "no_providers (nt z0) g" and "znode_name g"
    and "list_all2 (\<lambda>c d. described c d \<and> fst (snd (snd d)) = g) contents ds" and "list_all (publishable g) contents"
  shows "no_ephemeral_above (nt z) [g, ''providers'', []] \<and> distinct contents
    \<and> providers_of (nt z) g = url_encode ` set contents \<and> (contents \<noteq> [] \<longrightarrow> nt z [g, ''providers''] \<noteq> None)"
  using assms
proof (induction arbitrary: ds rule: registered.induct)
  case none
  then show ?case by (simp add: no_providers_def providers_of_def)
next
  case (one contents z api stub fs content stub' z')
  obtain d ds' where ds: "ds = d # ds'" using one.prems(3) by (cases ds) auto
  obtain h p g' svs where d: "d = (h, p, g', svs)" by (metis prod_cases4)
  have content: "described content (h, p, g, svs)" "publishable g content"
    using one.prems(3,4) by (auto simp: ds d)
  have IH: "no_ephemeral_above (nt z) [g, ''providers'', []]" "distinct contents"
    "providers_of (nt z) g = url_encode ` set contents"
    using one.IH [of ds'] one.prems by (simp_all add: ds)
  obtain r where r: "Inr (0, stub', z') = (Inr (r, stub', z') :: fault + int \<times> provider_stub \<times> 'a)"
    "r = (if nt z [g, ''providers'', url_encode content] = None then 0 else -1)"
    and post: "\<forall>k. nt z' k =
          (if nt z k \<noteq> None then nt z k
           else if k = [g, ''providers'', url_encode content] then Some (None, True)
           else if k \<in> {[], [g], [g, ''providers'']} then Some (None, False) else None)"
    using register_services_creates [OF one.hyps(2,3) content one.prems(2), of z] IH(1) one.hyps(4)
      no_ephemeral_above_name [of "nt z" g "''providers''" "url_encode content" "[]"]
    unfolding prefixes_two by auto
  have new: "nt z [g, ''providers'', url_encode content] = None" using r by (auto split: if_splits)
  then have "url_encode content \<notin> providers_of (nt z) g" by (simp add: providers_of_def)
  then have "content \<notin> set contents" unfolding IH(3) by blast
  moreover have "providers_of (nt z') g = insert (url_encode content) (providers_of (nt z) g)"
    using post by (auto simp: providers_of_def)
  moreover have "no_ephemeral_above (nt z') [g, ''providers'', []]"
    using IH(1) post by (auto simp: no_ephemeral_above_def upt_rec split: option.splits)
  moreover have "nt z' [g, ''providers''] \<noteq> None" using post [THEN spec, of "[g, ''providers'']"] by (auto split: if_splits)
  ultimately show ?case using IH by simp
qed

section \<open>From the providers to the routes\<close>

text \<open>
  Documented: the listing of an existing node gives the names of its children, each once, in any
  order, and changes nothing.
\<close>

definition lists_children :: "'z zk_client \<Rightarrow> ('z \<Rightarrow> znodes) \<Rightarrow> bool" where
  "lists_children api nt \<longleftrightarrow> (\<forall>path ptr z. canonical path \<longrightarrow> nt z (comps path) \<noteq> None \<longrightarrow>
     (\<exists>ns z'. zoo_wget_children2 api path ptr z = (ZOK, Some ns, z') \<and> distinct ns
        \<and> set ns = {n. nt z (comps path @ [n]) \<noteq> None} \<and> nt z' = nt z))"

text \<open>The same descriptions in another order.\<close>

lemma described_order:
  assumes R: "list_all2 R contents ds" and contents: "distinct contents" and names: "set ns = url_encode ` set contents"
  obtains contents' ds' where "ns = map url_encode contents'" "list_all2 R contents' ds'" "set ds' = set ds"
proof -
  let ?cs = "map url_decode ns" and ?m = "map_of (zip contents ds)"
  have len: "length contents = length ds" using R by (rule list_all2_lengthD)
  have enc: "url_encode (url_decode n) = n" if "n \<in> set ns" for n
    using that names by (auto simp: url_decode_encode)
  have cs: "set ?cs = set contents" using names by (simp add: image_image url_decode_encode)
  have dom: "\<exists>d. ?m c = Some d \<and> R c d" if c: "c \<in> set contents" for c
  proof -
    obtain d where d: "?m c = Some d" using c map_of_zip_is_Some [OF len] by blast
    then have "(c, d) \<in> set (zip contents ds)" by (rule map_of_SomeD)
    then show ?thesis using R d by (auto simp: list_all2_iff)
  qed
  have "ns = map url_encode ?cs" using enc by (simp add: map_idI)
  moreover have "R c (the (?m c))" if "c \<in> set ?cs" for c
    using dom [of c] that unfolding cs by auto
  then have "list_all2 R ?cs (map (the \<circ> ?m) ?cs)"
    by (simp add: list_all2_conv_all_nth)
  moreover have "set (map (the \<circ> ?m) ?cs) = set ds"
  proof -
    have "set (map (the \<circ> ?m) ?cs) = (the \<circ> ?m) ` set contents" unfolding set_map [of "the \<circ> ?m" ?cs] cs ..
    also have "\<dots> = set (map (the \<circ> ?m) contents)" by (rule set_map [symmetric])
    also have "map (the \<circ> ?m) contents = ds"
      using len contents by (auto simp: list_eq_iff_nth_eq map_of_zip_nth)
    finally show ?thesis .
  qed
  ultimately show thesis by (rule that)
qed

text \<open>
  C9: the way of a registration from end to end.  However many providers of a group have registered
  themselves through the extension, and in whatever order the servers list them, the agent that
  reads the group routes the declared services to exactly the endpoints of their descriptions;
  the other groups keep theirs.
\<close>

theorem providers_reach_agent:
  assumes registered: "registered nt z0 contents z" "contents \<noteq> []" "no_providers (nt z0) g"
    and group: "znode_name g" "k = provider_construct_key g MAX_NODE_PATH_LEN" "length k < PROVIDER_KEY_LEN"
    and contents: "list_all2 (\<lambda>c d. described c d \<and> fst (snd (snd d)) = g) contents ds" "list_all (publishable g) contents"
    and api: "lists_children api nt"
    and agent: "agent_ok st" "zk st = z" "\<forall>d \<in> set ds. \<forall>e \<in> declared (filters st) d. genuine k e"
  shows "\<exists>st'. get_group_children api cfg ptr \<lparr>exe_type = exe, node_group_value = k\<rparr> st = Inr (0, st')
    \<and> published st' = (published st)(k := \<Union>d \<in> set ds. declared (filters st) d)
    \<and> routes (rs st') = (\<Union>j. route_of ` published st' j) \<and> res_ok (rs st')"
proof -
  have k: "k = zpath [g, ''providers'']"
    using group(2,3) by (auto simp: provider_construct_key_def snprintf_s_def PROVIDER_KEY_LEN_def
        MAX_NODE_PATH_LEN_def MAX_GROUP_VALUE_LEN_def min_def field_sizes split: if_splits)
  have names: "list_all znode_name [g, ''providers'']" using group(1) by (simp add: znode_name_def)
  have path: "comps k = [g, ''providers'']" unfolding k by (rule comps_zpath [OF names])
  have "canonical k" using names unfolding k canonical_def by blast
  note tree = registered_nodes [OF registered(1,3) group(1) contents]
  have "nt z (comps k) \<noteq> None" using tree registered(2) unfolding path by blast
  with api \<open>canonical k\<close> obtain ns z' where ns0: "zoo_wget_children2 api k ptr z = (ZOK, Some ns, z')"
    "set ns = {n. nt z (comps k @ [n]) \<noteq> None}" unfolding lists_children_def by metis
  have "{n. nt z (comps k @ [n]) \<noteq> None} = url_encode ` set contents"
    using tree unfolding path providers_of_def by simp
  then have ns: "zoo_wget_children2 api k ptr (zk st) = (ZOK, Some ns, z')" "set ns = url_encode ` set contents"
    using ns0 agent(2) by simp_all
  obtain contents' ds' where order: "ns = map url_encode contents'"
    "list_all2 (\<lambda>c d. described c d \<and> fst (snd (snd d)) = g) contents' ds'" "set ds' = set ds"
    using described_order [OF contents(1) _ ns(2)] tree by blast
  have ds': "list_all2 described contents' ds'" using order(2) by (rule list_all2_mono) simp
  obtain st1 remote where run: "children_change_func_impl cfg exe k (map url_encode contents') st = Inr st1"
    "decode_children (filters st) (map url_encode contents') None = Inr remote"
    "endpoints remote = (\<Union>d \<in> set ds. declared (filters st) d)"
    using children_change_total [OF ds', of cfg exe k st] unfolding order(3) by blast
  have honest: "honest (filters st) k (map url_encode contents')"
    using described_honest [OF ds' group(3)] agent(3) unfolding order(3) by blast
  from children_change_keeps [OF agent(1) honest run(1)] run(2,3)
  have "agent_ok st1" "published st1 = (published st)(k := \<Union>d \<in> set ds. declared (filters st) d)" by auto
  moreover have "get_group_children api cfg ptr \<lparr>exe_type = exe, node_group_value = k\<rparr> st = Inr (0, st1\<lparr>zk := z'\<rparr>)"
    using ns(1) run(1) by (simp add: get_group_children_def get_children_def order(1))
  moreover have "published (st1\<lparr>zk := z'\<rparr>) = published st1" by (simp add: published_def fun_eq_iff)
  moreover have "routes (rs st1) = (\<Union>j. route_of ` published st1 j)" "res_ok (rs st1)"
    using calculation(1) unfolding agent_ok_def by blast+
  ultimately show ?thesis by (intro exI [of _ "st1\<lparr>zk := z'\<rparr>"]) simp
qed

section \<open>A small system\<close>

text \<open>Servers whose state is the list of the znodes.\<close>

definition alist_client :: "(string list \<times> string option \<times> bool) list zk_client" where
  "alist_client = \<lparr>zookeeper_init = (\<lambda>_ z. (True, z)), zookeeper_close = (\<lambda>z. (ZOK, z)),
     zoo_exists = (\<lambda>p z. if map_of z (comps p) = None then -101 else ZOK),
     zoo_create = (\<lambda>p v e z. if map_of z (comps p) \<noteq> None then (-110, z)
        else (case map_of z (butlast (comps p)) of Some (_, False) \<Rightarrow> (ZOK, (comps p, v, e) # z) | _ \<Rightarrow> (-101, z))),
     zoo_delete = (\<lambda>p z. if map_of z (comps p) = None then (-101, z) else (ZOK, filter (\<lambda>x. fst x \<noteq> comps p) z)),
     zoo_wget = (\<lambda>p _ z. (-101, [], z)),
     zoo_wget_children2 = (\<lambda>p _ z. (ZOK, Some (map last (filter (\<lambda>k. k \<noteq> [] \<and> butlast k = comps p) (remdups (map fst z)))), z))\<rparr>"

lemma alist_client_documented: "zk_documented alist_client map_of"
  by (auto simp: zk_documented_def alist_client_def ZOK_def)

lemma alist_client_lists: "lists_children alist_client map_of"
proof -
  have names: "set (map last (filter (\<lambda>k. k \<noteq> [] \<and> butlast k = p) (remdups (map fst z)))) = {n. map_of z (p @ [n]) \<noteq> None}"
    for p :: "string list" and z :: "(string list \<times> string option \<times> bool) list"
    by (force simp: map_of_eq_None_iff image_iff snoc_eq_iff_butlast)
  have "distinct (map last (filter (\<lambda>k. k \<noteq> [] \<and> butlast k = p) ks))" if "distinct ks" for p :: "string list" and ks
    using that by (auto simp: distinct_map inj_on_def) (metis append_butlast_last_id)
  then show ?thesis
    using names unfolding lists_children_def alist_client_def by (auto simp: ZOK_def)
qed

definition demo_provider_fs :: filesystem where
  "demo_provider_fs = \<lparr>cwd = [], tree = [[] \<mapsto> Dir True, [''p.json''] \<mapsto> File demo_doc 1], fs_time = 2\<rparr>"

lemma demo_publishable: "publishable ''g'' demo_doc" "described demo_doc demo_provider"
proof -
  have "CHR 0x00 \<notin> set demo_doc \<and> length (url_encode demo_doc) < 1000" by code_simp
  then show "publishable ''g'' demo_doc"
    by (simp add: publishable_def MAX_NODE_PATH_LEN_def MAX_GROUP_VALUE_LEN_def)
qed (use demo_described in simp)

lemma demo_empty_servers:
  "znode_name ''g''" "no_providers (map_of [([], None, False)]) ''g''"
  "no_ephemeral_above (map_of [([], None, False)]) [''g'', ''providers'', n]"
  by (simp_all add: znode_name_def no_providers_def no_ephemeral_above_def upt_rec)

theorem providers_reach_agent_witness:
  "\<exists>z st'. registered map_of [([], None, False)] [demo_doc] z
     \<and> get_group_children alist_client (\<lambda>name dflt. dflt) (1, 0) \<lparr>exe_type = EXE_FULL, node_group_value = ''/g/providers''\<rparr>
         \<lparr>rs = service_resource_init (node_resource_init sample_world), filters = [service_filter_padding ''g'' ''s'' ''1''],
           mapping = register_mapping_init, watchers = contexts_new, last_modified = 0, disk = demo_fs, zk = z\<rparr> = Inr (0, st')
     \<and> (service_key_of ''g'' ''s'' ''1'', node_key_of ''10.0.0.1'' 80) \<in> routes (rs st')"
proof -
  let ?z0 = "[([], None, False)] :: (string list \<times> string option \<times> bool) list"
  let ?fs = demo_provider_fs
  let ?stub = "\<lparr>p_zk_h = \<lparr>zk_addrs = [], config_file_path = ''/p.json'', agent_pid = 1\<rparr>, node_value = [], p_inited = False\<rparr>"
  note described = demo_publishable(2) and g = demo_publishable(1) demo_empty_servers(1,2) demo_empty_servers(3) [of "url_encode demo_doc"]
  have reads: "read_content_from_file (Some (config_file_path (p_zk_h ?stub))) ?fs = Some demo_doc"
    by code_simp
  obtain z stub' where z: "register_services alist_client ?stub ?fs ?z0 = Inr (0, stub', z)"
    using register_services_creates [OF alist_client_documented reads described g(1,2,4)] by auto
  have reg: "registered map_of ?z0 [demo_doc] z"
    by (rule registered.one [OF registered.none alist_client_documented reads z])
  let ?st = "\<lparr>rs = service_resource_init (node_resource_init sample_world), filters = [service_filter_padding ''g'' ''s'' ''1''],
     mapping = register_mapping_init, watchers = contexts_new, last_modified = 0, disk = demo_fs, zk = z\<rparr>"
  have cs: "list_all2 (\<lambda>c d. described c d \<and> fst (snd (snd d)) = ''g'') [demo_doc] [demo_provider]"
    "list_all (publishable ''g'') [demo_doc]" "[demo_doc] \<noteq> []" using described g(1) by simp_all
  have gen: "\<forall>d \<in> set [demo_provider]. \<forall>e \<in> declared (filters ?st) d. genuine ''/g/providers'' e" using demo_genuine by simp
  have ok: "agent_ok ?st" by (rule agent_ok_init [OF sample_world_ok])
  have U: "(\<Union>d \<in> set [demo_provider]. declared (filters ?st) d) = declared (filters ?st) demo_provider" by simp
  have zk: "zk ?st = z" by simp
  obtain st' where st': "get_group_children alist_client (\<lambda>name dflt. dflt) (1, 0)
       \<lparr>exe_type = EXE_FULL, node_group_value = ''/g/providers''\<rparr> ?st = Inr (0, st')"
    "published st' = (published ?st)(''/g/providers'' := declared (filters ?st) demo_provider)"
    "routes (rs st') = (\<Union>j. route_of ` published st' j)"
    using providers_reach_agent [OF reg cs(3) g(3,2) demo_key [symmetric] demo_key_fits cs(1,2) alist_client_lists ok zk gen,
        of "\<lambda>name dflt. dflt" "(1, 0)" EXE_FULL] unfolding U by blast
  have "endpoint (register_info_padding 0 ''g'' ''s'' ''1'' ''10.0.0.1'' 80) \<in> published st' ''/g/providers''"
    using demo_declared by (simp add: st'(2))
  then have "route_of (endpoint (register_info_padding 0 ''g'' ''s'' ''1'' ''10.0.0.1'' 80)) \<in> routes (rs st')"
    unfolding st'(3) by blast
  with reg st'(1) show ?thesis unfolding demo_route by blast
qed

theorem expired_session_reregisters_witness:
  "\<exists>x y y'. provider_stub_init alist_client [] ''/p.json'' 1
       \<lparr>ext_stub = \<lparr>p_zk_h = \<lparr>zk_addrs = [], config_file_path = [], agent_pid = 0\<rparr>, node_value = [], p_inited = False\<rparr>,
         ext_log = small_log, ext_disk = demo_provider_fs, ext_zk = [([], None, False)]\<rparr> = Inr (0, x)
     \<and> y = x\<lparr>ext_disk := demo_provider_fs, ext_zk := [([], None, False)]\<rparr>
     \<and> provider_zk_watcher_marshal alist_client ZOO_SESSION_EVENT ZOO_EXPIRED_SESSION_STATE y = Inr y'
     \<and> registered_as map_of ''g'' demo_doc y' \<and> get_cur_node_path y' = get_cur_node_path x"
proof -
  let ?h = "\<lparr>zk_addrs = snprintf_s MAX_ZK_ADDR_LEN [], config_file_path = snprintf_s PATH_MAX ''/p.json'', agent_pid = 1\<rparr>"
  let ?x0 = "\<lparr>ext_stub = \<lparr>p_zk_h = \<lparr>zk_addrs = [], config_file_path = [], agent_pid = 0\<rparr>, node_value = [], p_inited = False\<rparr>,
     ext_log = small_log, ext_disk = demo_provider_fs, ext_zk = [([], None, False)]\<rparr>"
  note provider = alist_client_documented demo_publishable(2,1) demo_empty_servers(1)
  have "case init_zk_handle alist_client (snprintf_s MAX_ZK_ADDR_LEN []) 1 [([], None, False)] demo_provider_fs of (r, z', fs') \<Rightarrow>
      r = 0 \<and> read_content_from_file (Some (snprintf_s PATH_MAX ''/p.json'')) fs' = Some demo_doc \<and> z' = [([], None, False)]"
    by code_simp
  then have may: "may_register map_of alist_client ?h ''g'' demo_doc [([], None, False)] demo_provider_fs"
    using demo_empty_servers(3) by (auto simp: may_register_def)
  then have "may_register map_of alist_client ?h ''g'' demo_doc (ext_zk ?x0) (ext_disk ?x0)" by simp
  from provider_stub_init_registers [OF provider this] obtain x where
    x: "provider_stub_init alist_client [] ''/p.json'' 1 ?x0 = Inr (0, x)" "p_zk_h (ext_stub x) = ?h" by blast
  let ?y = "x\<lparr>ext_disk := demo_provider_fs, ext_zk := [([], None, False)]\<rparr>"
  have "snd (fini_zk_handle alist_client (ext_zk ?y)) = [([], None, False)]"
    by (simp add: fini_zk_handle_def alist_client_def ZOK_def)
  with may x(2) have "may_register map_of alist_client (p_zk_h (ext_stub ?y)) ''g'' demo_doc
      (snd (fini_zk_handle alist_client (ext_zk ?y))) (ext_disk ?y)" by simp
  from expired_session_reregisters [OF provider x(1) _ _ this] may x(1) show ?thesis by auto
qed

end
