(* ===== verification/Soaprotobuf.thy ===== *)
theory Soaprotobuf
  imports Server
begin

text \<open>
  soaprotobuf: the PHP extension that builds the bytes of a request for the agent
  (soaprotobuf.c).  PHP's memory functions do not fail, the protobuf coding is the parameter
  \<open>codec\<close>; group, service and version are C strings, which end at the first NUL of the PHP string.
\<close>

definition prequest_encode ::
  "proxy_codec \<Rightarrow> string \<Rightarrow> string \<Rightarrow> string \<Rightarrow> byte list \<Rightarrow> int \<times> byte list" where
  "prequest_encode codec grp service_name service_version request_body =
     (let buffer = proxy_request_encode codec grp service_name service_version request_body
      in (1, be32 (word_of_nat (length buffer)) @ buffer))"

text \<open>\<open>None\<close> stands for PHP's NULL.\<close>

definition get_buffer_request_body ::
  "proxy_codec \<Rightarrow> string \<Rightarrow> string \<Rightarrow> string \<Rightarrow> byte list \<Rightarrow> byte list option" where
  "get_buffer_request_body codec group_name service_name version req_body =
     (let (ret, res_buffer) = prequest_encode codec (c_string group_name) (c_string service_name) (c_string version) req_body
      in if ret \<noteq> 0 then Some res_buffer else None)"

lemma request_frame:
  "get_buffer_request_body codec g s v body =
     Some (proxy_frame (proxy_request_encode codec (c_string g) (c_string s) (c_string v) body))"
  by (simp add: get_buffer_request_body_def prequest_encode_def proxy_frame_def Let_def)

section \<open>A call from PHP\<close>

definition response_of :: "int \<Rightarrow> byte list option \<Rightarrow> proxy_response" where
  "response_of ret res =
     (if ret = 0 then \<lparr>resp_status = 0, resp_data = (case res of None \<Rightarrow> [] | Some b \<Rightarrow> b)\<rparr>
      else \<lparr>resp_status = 1, resp_data = []\<rparr>)"

lemma reply_frame: "reply codec ret res = proxy_frame (response_pack codec (response_of ret res))"
  by (simp add: reply_def response_of_def proxy_response_encode_def)

text \<open>
  C10: the way of a call from end to end.  The bytes PHP builds for a request make the agent, in
  whatever pieces they arrive, call the service they name, once; and what the agent writes is
  read by a client, in whatever pieces it is delivered, as the status and the data of that call
  (the client's descriptor must be one of those \<open>select\<close> can wait for).
\<close>

theorem php_call_answered:
  assumes codec: "codec_ok codec" "get_buffer_request_body codec g s v body = Some request"
    and sizes: "proxy_header_size < length request" "length request < 2 ^ 32"
    and pieces: "concat chunks @ piece = request" "length (concat chunks) < length request"
    and fresh: "c_input c = []" "c_output c = []"
    and call: "invoke_service (c_string g) (c_string s) (c_string v) body (tick st) seq = Some (Inr (ret, res, st', seq'))"
    and answer: "brings 3 ch (response_pack codec (response_of ret res)) rest" "response_pack codec (response_of ret res) \<noteq> []" "selectable sockfd"
  shows "\<exists>c'. feed codec (chunks @ [piece]) c st seq = Some (Inr (Some c', tick st', seq'))
    \<and> c_input c' = [] \<and> ch_in ch = c_output c' @ rest
    \<and> (\<exists>ch'. proxy_response_receive codec sockfd ch = Inr (Some (0, Some (response_of ret res), ch')) \<and> ch_in ch' = rest)"
proof -
  let ?q = "proxy_request_encode codec (c_string g) (c_string s) (c_string v) body"
  have request: "request = proxy_frame ?q" using codec(2) by (simp add: request_frame)
  then have q: "?q \<noteq> []" "length ?q < 2 ^ 32" using sizes by (auto simp: frame_length)
  have "feed codec (chunks @ [piece]) c st seq =
      Some (Inr (Some (c\<lparr>c_input := [], c_output := c_output c @ reply codec ret res\<rparr>), tick st', seq'))"
    using feed_answers [OF codec(1) q fresh(1) _ _ call, of chunks piece "[]"] pieces unfolding request by simp
  moreover have "\<exists>ch'. proxy_response_receive codec sockfd ch = Inr (Some (0, Some (response_of ret res), ch')) \<and> ch_in ch' = rest"
    using proxy_receive_brings [OF answer(1,3), of "proxy_response_decode codec"] answer(2) codec(1)
    by (auto simp: proxy_response_receive_def proxy_response_decode_def codec_ok_def)
  moreover have "ch_in ch = reply codec ret res @ rest" using answer(1) by (simp add: brings_def reply_frame)
  ultimately show ?thesis using fresh(2) by simp
qed

theorem php_call_answered_witness:
  "\<exists>request c' st'. get_buffer_request_body sample_codec ''g'' ''s'' (''1'' @ [CHR 0x00, CHR ''x'']) [1, 2] = Some request
     \<and> feed sample_codec [take 3 request, drop 3 request] \<lparr>c_fd = 5, c_input = [], c_output = []\<rparr> demo_agent 7
         = Some (Inr (Some c', st', 8))
     \<and> (\<exists>ch'. proxy_response_receive sample_codec 4
          \<lparr>ch_send = [], ch_sel = [SelReady, SelReady], ch_recv = [Recv 4, Recv 5], ch_in = c_output c', ch_out = []\<rparr>
          = Inr (Some (0, Some \<lparr>resp_status = 0, resp_data = [42]\<rparr>, ch')))"
proof -
  let ?r = "response_pack sample_codec (response_of 0 (Some [42]))"
  let ?ch = "\<lparr>ch_send = [], ch_sel = [SelReady, SelReady], ch_recv = [Recv 4, Recv 5], ch_in = proxy_frame ?r, ch_out = []\<rparr>"
  obtain request where request: "get_buffer_request_body sample_codec ''g'' ''s'' (''1'' @ [CHR 0x00, CHR ''x'']) [1, 2] = Some request"
    by (simp add: request_frame)
  have "case get_buffer_request_body sample_codec ''g'' ''s'' (''1'' @ [CHR 0x00, CHR ''x'']) [1, 2] of
      Some r \<Rightarrow> length r = 18 | None \<Rightarrow> False" by code_simp
  then have len: "length request = 18" unfolding request by simp
  obtain st' where call: "invoke_service ''g'' ''s'' ''1'' [1, 2] (tick demo_agent) 7 = Some (Inr (0, Some [42], st', 8))"
    using demo_call by (auto split: option.splits sum.splits prod.splits)
  have strings: "c_string ''g'' = ''g''" "c_string ''s'' = ''s''" "c_string (''1'' @ [CHR 0x00, CHR ''x'']) = ''1''"
    by (simp_all add: c_string_def)
  have r: "length ?r = 5" by code_simp
  have "brings 3 ?ch ?r []"
    unfolding brings_def
    by (intro conjI exI [of _ "[Recv 4]"] exI [of _ "[Recv 5]"] exI [of _ "[]"])
       (simp_all add: r proxy_header_size_def delivers_body_def)
  then obtain c' ch' where "feed sample_codec ([take 3 request] @ [drop 3 request]) \<lparr>c_fd = 5, c_input = [], c_output = []\<rparr> demo_agent 7
      = Some (Inr (Some c', tick st', 8))" "ch_in ?ch = c_output c' @ []"
    "proxy_response_receive sample_codec 4 ?ch = Inr (Some (0, Some (response_of 0 (Some [42])), ch'))"
    using php_call_answered [OF sample_codec_ok request, where chunks = "[take 3 request]" and piece = "drop 3 request"
        and c = "\<lparr>c_fd = 5, c_input = [], c_output = []\<rparr>" and st = demo_agent and seq = 7 and ret = 0 and res = "Some [42]"
        and st' = st' and seq' = 8 and ch = ?ch and rest = "[]" and sockfd = 4] call r len
    unfolding strings by (force simp: proxy_header_size_def selectable_def FD_SETSIZE_def)
  then show ?thesis using request by (force simp: response_of_def)
qed

end
